(* ===== verification/RNS_Prelude.thy ===== *)
theory RNS_Prelude
  imports Main "HOL-Library.Word" "HOL-Library.Monad_Syntax"
begin

text \<open>
  Shared vocabulary of the Reticulum-Go development: the machine types of Go that the
  sources use, slices with their run-time bounds checks, big-endian integers, fixed-size
  arrays, instants and durations, and the generic facts about them that the component
  theories share.

  A Go function that can panic on an index or slice expression returns an \<open>option\<close>, with
  \<open>None\<close> for the panic; a Go error return is a value of a component's own error datatype.
  The two are kept apart, so that "never panics" is a statement of its own.
\<close>

unbundle bit_operations_syntax

section \<open>Machine types\<close>

type_synonym byte = "8 word"
type_synonym u16 = "16 word"
type_synonym u32 = "32 word"
type_synonym u64 = "64 word"
type_synonym bytes = "byte list"

named_theorems go_defs \<open>unfolding of the slice, index and copy primitives\<close>
named_theorems wire_simps \<open>rewrite rules for wire encodings\<close>

section \<open>Slices, indices and copies\<close>

text \<open>
  \<open>go_index xs i\<close> is \<open>xs[i]\<close> and \<open>go_slice xs a b\<close> is \<open>xs[a:b]\<close>. Go checks the upper bound
  of a slice expression against the capacity; the model checks it against the length, which
  is stricter: a definition that never yields \<open>None\<close> neither panics nor reads past the length.
\<close>

definition go_index :: "'a list \<Rightarrow> nat \<Rightarrow> 'a option" where
  "go_index xs i = (if i < length xs then Some (xs ! i) else None)"

definition go_slice :: "'a list \<Rightarrow> nat \<Rightarrow> nat \<Rightarrow> 'a list option" where
  "go_slice xs a b = (if a \<le> b \<and> b \<le> length xs then Some (take (b - a) (drop a xs)) else None)"

text \<open>\<open>xs[a:]\<close>, the slice up to the length.\<close>

definition go_from :: "'a list \<Rightarrow> nat \<Rightarrow> 'a list option" where
  "go_from xs a = go_slice xs a (length xs)"

text \<open>\<open>xs[i] = v\<close>, which panics out of range.\<close>

definition go_set :: "'a list \<Rightarrow> nat \<Rightarrow> 'a \<Rightarrow> 'a list option" where
  "go_set xs i v = (if i < length xs then Some (xs[i := v]) else None)"

text \<open>
  \<open>copy(dst, src)\<close> overwrites the common prefix; \<open>fixed n h\<close> is the array
  \<open>var out [n]byte; copy(out[:], h)\<close>.
\<close>

definition go_copy :: "'a list \<Rightarrow> 'a list \<Rightarrow> 'a list" where
  "go_copy dst src = take (length dst) src @ drop (length src) dst"

definition fixed :: "nat \<Rightarrow> bytes \<Rightarrow> bytes" where
  "fixed n h = go_copy (replicate n 0) h"

declare go_index_def [go_defs] go_slice_def [go_defs] go_from_def [go_defs] go_set_def [go_defs]

lemma go_index_Some [simp]: "i < length xs \<Longrightarrow> go_index xs i = Some (xs ! i)"
  by (simp add: go_defs)

lemma go_slice_Some [simp]:
  "a \<le> b \<Longrightarrow> b \<le> length xs \<Longrightarrow> go_slice xs a b = Some (take (b - a) (drop a xs))"
  by (simp add: go_defs)

lemma go_from_Some [simp]: "a \<le> length xs \<Longrightarrow> go_from xs a = Some (drop a xs)"
  by (simp add: go_defs)

lemma go_set_Some [simp]: "i < length xs \<Longrightarrow> go_set xs i v = Some (xs[i := v])"
  by (simp add: go_defs)

lemma length_go_copy [simp]: "length (go_copy dst src) = length dst"
  by (simp add: go_copy_def)

lemma length_fixed [simp]: "length (fixed n h) = n"
  by (simp add: fixed_def)

lemma fixed_exact [simp]: "length h = n \<Longrightarrow> fixed n h = h"
  by (simp add: fixed_def go_copy_def)

lemma fixed_longer: "n \<le> length h \<Longrightarrow> fixed n h = take n h"
  by (simp add: fixed_def go_copy_def)

lemma fixed_inj: "length a = n \<Longrightarrow> length b = n \<Longrightarrow> (fixed n a = fixed n b) = (a = b)"
  by simp

section \<open>Finding a byte\<close>

text \<open>\<open>bytes.IndexByte\<close>: the position of the first occurrence, \<open>None\<close> for the result -1.\<close>

fun index_byte :: "bytes \<Rightarrow> byte \<Rightarrow> nat option" where
  "index_byte [] c = None"
| "index_byte (b # bs) c = (if b = c then Some 0 else map_option Suc (index_byte bs c))"

lemma index_byte_None: "index_byte bs c = None \<longleftrightarrow> c \<notin> set bs"
  by (induction bs) auto

lemma index_byte_Some:
  "index_byte bs c = Some i \<Longrightarrow> i < length bs \<and> bs ! i = c \<and> c \<notin> set (take i bs)"
proof (induction bs arbitrary: i)
  case (Cons b bs)
  then show ?case by (cases "b = c") (auto simp: take_Cons' split: nat.splits)
qed simp

section \<open>Big-endian integers\<close>

definition put_uint16 :: "u16 \<Rightarrow> bytes" where
  "put_uint16 w = [ucast (drop_bit 8 w), ucast w]"

definition get_uint16 :: "byte \<Rightarrow> byte \<Rightarrow> u16" where
  "get_uint16 hi lo = push_bit 8 (ucast hi) OR ucast lo"

text \<open>\<open>binary.BigEndian.Uint16(b)\<close> reads \<open>b[0]\<close> and \<open>b[1]\<close> and panics on a shorter slice.\<close>

definition uint16_of :: "bytes \<Rightarrow> u16 option" where
  "uint16_of bs = do { hi \<leftarrow> go_index bs 0; lo \<leftarrow> go_index bs 1; Some (get_uint16 hi lo) }"

definition be64 :: "u64 \<Rightarrow> bytes" where
  "be64 w = map (\<lambda>i. ucast (drop_bit (8 * (7 - i)) w)) [0..<8]"

lemma length_be64 [simp]: "length (be64 w) = 8"
  by (simp add: be64_def)

lemma length_put_uint16 [simp]: "length (put_uint16 w) = 2"
  by (simp add: put_uint16_def)

lemma get_put_uint16 [simp]: "get_uint16 (ucast (drop_bit 8 w)) (ucast w) = w"
  by (rule bit_word_eqI) (auto simp: get_uint16_def bit_simps)

lemma uint16_of_put [wire_simps]: "uint16_of (put_uint16 w @ r) = Some w"
  by (simp add: uint16_of_def put_uint16_def)

lemma put_get_uint16: "put_uint16 (get_uint16 hi lo) = [hi, lo]"
proof -
  have "ucast (drop_bit 8 (get_uint16 hi lo)) = hi"
    by (rule bit_word_eqI) (auto simp: get_uint16_def bit_simps dest: bit_imp_le_length)
  moreover have "ucast (get_uint16 hi lo) = lo"
    by (rule bit_word_eqI) (auto simp: get_uint16_def bit_simps)
  ultimately show ?thesis by (simp add: put_uint16_def)
qed

end
