(* ===== verification/Hashing.thy ===== *)
theory Hashing
  imports RNS_Prelude
begin

text \<open>
  The digests of Go's standard library that the sources call. The sources use \<open>crypto/sha256\<close> only
  as a function from byte strings to 32-byte digests, so the development is stated for every such
  function: an operation that hashes takes the hash \<open>H\<close> as its first argument, and \<open>sum256 H\<close> is
  \<open>sha256.Sum256\<close>, with the digest put into a 32-byte array. \<open>crypto/hmac\<close> is the RFC 2104
  construction over it with the 64-byte block of SHA-256.
\<close>

type_synonym hashfn = "bytes \<Rightarrow> bytes"

definition sum256 :: "hashfn \<Rightarrow> bytes \<Rightarrow> bytes" where
  "sum256 H m = fixed 32 (H m)"

lemma length_sum256 [simp]: "length (sum256 H m) = 32"
  by (simp add: sum256_def)

lemma sum256_not_Nil [simp]: "sum256 H m \<noteq> []"
  using length_sum256 [of H m] by (metis list.size(3) zero_neq_numeral)

definition hmac_key :: "hashfn \<Rightarrow> bytes \<Rightarrow> bytes" where
  "hmac_key H k = fixed 64 (if length k > 64 then sum256 H k else k)"

definition hmac256 :: "hashfn \<Rightarrow> bytes \<Rightarrow> bytes \<Rightarrow> bytes" where
  "hmac256 H k m =
     (let k0 = hmac_key H k; outer = map (\<lambda>b. b XOR 0x5c) k0; inner = map (\<lambda>b. b XOR 0x36) k0
      in sum256 H (outer @ sum256 H (inner @ m)))"

lemma length_hmac256 [simp]: "length (hmac256 H k m) = 32"
  by (simp add: hmac256_def Let_def)

text \<open>A concrete hash for evaluating the operations on closed inputs.\<close>

definition sample_hash :: hashfn where
  "sample_hash m = rev m"

end
