(* ===== verification/Packet.thy ===== *)
theory Packet
  imports Hashing
begin

text \<open>
  The packet codec of \<open>pkg/packet/packet.go\<close>: the \<open>Packet\<close> structure, header flags, the wire
  encoder \<open>Pack\<close>, the in-place encoder \<open>PrepareHT1Buffer\<close> with \<open>CommitPacked\<close>, the decoder
  \<open>Unpack\<close>, the packet hash, the link identifier of a link request and the announce packet
  constructor. Every operation is a function of the whole receiver: it returns the receiver as
  the method leaves it together with the error, because the Go methods assign fields before
  they fail. \<open>None\<close> is a run-time panic.
\<close>

section \<open>Constants\<close>

definition MTU :: nat where "MTU = 500"
definition MinPacketSize :: nat where "MinPacketSize = 3"
definition MaxInboundPacketSize :: nat where "MaxInboundPacketSize = 262144"
definition TruncatedHashLength :: nat where "TruncatedHashLength = 16"
definition PathfinderM :: nat where "PathfinderM = 128"
definition LinkRequestECPubSize :: nat where "LinkRequestECPubSize = 64"
definition HeaderType1Overhead :: nat where "HeaderType1Overhead = 2 + TruncatedHashLength + 1"

definition HeaderMaskHeaderType :: byte where "HeaderMaskHeaderType = 0x40"
definition HeaderMaskContextFlag :: byte where "HeaderMaskContextFlag = 0x20"
definition HeaderMaskTransportType :: byte where "HeaderMaskTransportType = 0x10"
definition HeaderMaskDestinationType :: byte where "HeaderMaskDestinationType = 0x0C"
definition HeaderMaskPacketType :: byte where "HeaderMaskPacketType = 0x03"
definition HashableFlagsMask :: byte where "HashableFlagsMask = 0x0F"

definition HeaderType1 :: byte where "HeaderType1 = 0"
definition HeaderType2 :: byte where "HeaderType2 = 1"
definition PropagationBroadcast :: byte where "PropagationBroadcast = 0"
definition PropagationTransport :: byte where "PropagationTransport = 1"

definition DestinationSingle :: byte where "DestinationSingle = 0"
definition DestinationGroup :: byte where "DestinationGroup = 1"
definition DestinationPlain :: byte where "DestinationPlain = 2"
definition DestinationLink :: byte where "DestinationLink = 3"

definition PacketTypeData :: byte where "PacketTypeData = 0"
definition PacketTypeAnnounce :: byte where "PacketTypeAnnounce = 1"
definition PacketTypeLinkReq :: byte where "PacketTypeLinkReq = 2"
definition PacketTypeProof :: byte where "PacketTypeProof = 3"

definition ContextNone :: byte where "ContextNone = 0x00"
definition ContextResource :: byte where "ContextResource = 0x01"
definition ContextResourceReq :: byte where "ContextResourceReq = 0x03"
definition ContextResourcePRF :: byte where "ContextResourcePRF = 0x05"
definition ContextCacheReq :: byte where "ContextCacheReq = 0x08"
definition ContextPathResponse :: byte where "ContextPathResponse = 0x0B"
definition ContextChannel :: byte where "ContextChannel = 0x0E"
definition ContextKeepalive :: byte where "ContextKeepalive = 0xFA"
definition ContextLRProof :: byte where "ContextLRProof = 0xFF"

lemmas packet_consts =
  MTU_def MinPacketSize_def MaxInboundPacketSize_def TruncatedHashLength_def PathfinderM_def
  LinkRequestECPubSize_def HeaderType1Overhead_def HeaderMaskHeaderType_def
  HeaderMaskContextFlag_def HeaderMaskTransportType_def HeaderMaskDestinationType_def
  HeaderMaskPacketType_def HashableFlagsMask_def HeaderType1_def HeaderType2_def
  PropagationBroadcast_def PropagationTransport_def

lemmas packet_type_consts =
  DestinationSingle_def DestinationGroup_def DestinationPlain_def DestinationLink_def
  PacketTypeData_def PacketTypeAnnounce_def PacketTypeLinkReq_def PacketTypeProof_def

lemmas context_consts =
  ContextNone_def ContextResource_def ContextResourceReq_def ContextResourcePRF_def
  ContextCacheReq_def ContextPathResponse_def ContextChannel_def ContextKeepalive_def
  ContextLRProof_def

section \<open>State\<close>

text \<open>
  \<open>p_RawSpare\<close> is the part of \<open>Raw\<close>'s backing array between its length and its capacity, so
  \<open>cap(p.Raw)\<close> is \<open>length (p_Raw p) + length (p_RawSpare p)\<close>; the encoders reuse it. A nil
  \<open>TransportID\<close> is \<open>None\<close>. The fields that other components own (receipt bookkeeping times,
  radio statistics, the \<open>Destination\<close> and \<open>Link\<close> references) are not part of the codec.
\<close>

record packet =
  p_HeaderType :: byte
  p_PacketType :: byte
  p_TransportType :: byte
  p_Context :: byte
  p_ContextFlag :: byte
  p_Hops :: byte
  p_DestinationType :: byte
  p_DestinationHash :: bytes
  p_TransportID :: "bytes option"
  p_Data :: bytes
  p_Raw :: bytes
  p_RawSpare :: bytes
  p_Packed :: bool
  p_Sent :: bool
  p_FromPacked :: bool
  p_CreateReceipt :: bool
  p_PacketHash :: bytes
  p_hashValid :: bool
  p_Addresses :: bytes

datatype packet_error =
    DestHashLen nat
  | TransportIDRequired
  | TransportIDLen nat
  | ExceedsMTU
  | TooShort
  | ExceedsMaxInbound
  | InvalidHopCount byte
  | TooShortHT2
  | TooShortHT1
  | RequiresHT1
  | SignFailed
  | RandFailed

abbreviation raw_cap :: "packet \<Rightarrow> nat" where
  "raw_cap p \<equiv> length (p_Raw p) + length (p_RawSpare p)"

definition tid_bytes :: "packet \<Rightarrow> bytes" where
  "tid_bytes p = (case p_TransportID p of None \<Rightarrow> [] | Some t \<Rightarrow> t)"

definition NewPacket ::
  "byte \<Rightarrow> bytes \<Rightarrow> byte \<Rightarrow> byte \<Rightarrow> byte \<Rightarrow> byte \<Rightarrow> bytes option \<Rightarrow> bool \<Rightarrow> byte \<Rightarrow> packet" where
  "NewPacket destType data packetType context transportType headerType transportID createReceipt
      contextFlag =
     \<lparr> p_HeaderType = headerType, p_PacketType = packetType, p_TransportType = transportType,
       p_Context = context, p_ContextFlag = contextFlag, p_Hops = 0, p_DestinationType = destType,
       p_DestinationHash = [], p_TransportID = transportID, p_Data = data, p_Raw = [],
       p_RawSpare = [], p_Packed = False, p_Sent = False, p_FromPacked = False,
       p_CreateReceipt = createReceipt, p_PacketHash = [],
       p_hashValid = False, p_Addresses = [] \<rparr>"

text \<open>\<open>&packet.Packet{Raw: raw}\<close>: what the receivers of wire bytes build before \<open>Unpack\<close>.\<close>

definition raw_packet :: "bytes \<Rightarrow> packet" where
  "raw_packet raw = (NewPacket 0 [] 0 0 0 0 None False 0)\<lparr> p_Raw := raw \<rparr>"

section \<open>Hashing\<close>

definition hashableInto :: "packet \<Rightarrow> bytes option" where
  "hashableInto p = do {
     b0 \<leftarrow> go_index (p_Raw p) 0;
     let b = [b0 AND HashableFlagsMask];
     if p_HeaderType p = HeaderType2 then
       (let start = TruncatedHashLength + 2 in
        if length (p_Raw p) > start then do { r \<leftarrow> go_from (p_Raw p) start; Some (b @ r) }
        else Some b)
     else if length (p_Raw p) > 2 then do { r \<leftarrow> go_from (p_Raw p) 2; Some (b @ r) }
     else Some b
   }"

definition hashablePreimageLen :: "packet \<Rightarrow> nat" where
  "hashablePreimageLen p =
     (if p_HeaderType p = HeaderType2 then
        (let start = TruncatedHashLength + 2 in
         if length (p_Raw p) > start then 1 + (length (p_Raw p) - start) else 1)
      else if length (p_Raw p) > 2 then 1 + (length (p_Raw p) - 2)
      else 1)"

text \<open>
  The two branches of \<open>updateHash\<close> differ in where the preimage is assembled (a stack array of
  \<open>MTU\<close> bytes or a heap slice), not in its bytes.
\<close>

definition updateHash :: "hashfn \<Rightarrow> packet \<Rightarrow> packet option" where
  "updateHash H p = do {
     hb \<leftarrow> hashableInto p;
     Some (p\<lparr> p_PacketHash := sum256 H hb, p_hashValid := True \<rparr>)
   }"

definition GetHash :: "hashfn \<Rightarrow> packet \<Rightarrow> (packet \<times> bytes) option" where
  "GetHash H p =
     (if \<not> p_hashValid p then do { p' \<leftarrow> updateHash H p; Some (p', p_PacketHash p') }
      else Some (p, p_PacketHash p))"

definition TruncatedHash :: "hashfn \<Rightarrow> packet \<Rightarrow> (packet \<times> bytes) option" where
  "TruncatedHash H p = do {
     (p', h) \<leftarrow> GetHash H p;
     if length h \<ge> TruncatedHashLength then Some (p', take TruncatedHashLength h) else Some (p', h)
   }"

text \<open>\<open>identity.TruncatedHash\<close> of \<open>pkg/identity/identity.go\<close>.\<close>

definition identity_TruncatedHash :: "hashfn \<Rightarrow> bytes \<Rightarrow> bytes" where
  "identity_TruncatedHash H data = take 16 (sum256 H data)"

definition LinkIDFromLinkRequest :: "hashfn \<Rightarrow> packet \<Rightarrow> bytes option" where
  "LinkIDFromLinkRequest H p =
     (if p_Raw p = [] then Some []
      else do {
        hashable \<leftarrow> hashableInto p;
        if length (p_Data p) > LinkRequestECPubSize
        then (let diff = length (p_Data p) - LinkRequestECPubSize in
              if length hashable \<ge> diff then do {
                h \<leftarrow> go_slice hashable 0 (length hashable - diff);
                Some (identity_TruncatedHash H h) }
              else Some (identity_TruncatedHash H hashable))
        else Some (identity_TruncatedHash H hashable) })"

section \<open>Encoding\<close>

definition nextRawWireCap :: "nat \<Rightarrow> nat" where
  "nextRawWireCap need =
     (if need > MTU then need
      else (let align = 64; rounded = (need + align - 1) div align * align
            in if rounded > MTU then MTU else rounded))"

definition headerFlags :: "packet \<Rightarrow> byte" where
  "headerFlags p =
     ((((0 OR (push_bit 6 (p_HeaderType p) AND HeaderMaskHeaderType))
        OR (push_bit 5 (p_ContextFlag p) AND HeaderMaskContextFlag))
        OR (push_bit 4 (p_TransportType p) AND HeaderMaskTransportType))
        OR (push_bit 2 (p_DestinationType p) AND HeaderMaskDestinationType))
        OR (p_PacketType p AND HeaderMaskPacketType)"

text \<open>The bytes \<open>Pack\<close> appends to \<open>raw\<close>, in its order.\<close>

definition wire :: "packet \<Rightarrow> bytes" where
  "wire p = [headerFlags p, p_Hops p]
            @ (if p_HeaderType p = HeaderType2 then tid_bytes p else [])
            @ p_DestinationHash p @ [p_Context p] @ p_Data p"

text \<open>
  What is left of the backing array behind \<open>need\<close> written bytes: the old array when it is large
  enough, otherwise a fresh one.
\<close>

definition pack_spare :: "packet \<Rightarrow> nat \<Rightarrow> bytes" where
  "pack_spare p need =
     (if raw_cap p \<ge> need then drop need (p_Raw p @ p_RawSpare p)
      else replicate ((if raw_cap p > 0 then nextRawWireCap need else need) - need) 0)"

definition Pack :: "hashfn \<Rightarrow> packet \<Rightarrow> (packet \<times> packet_error option) option" where
  "Pack H p =
     (if p_Packed p then Some (p, None)
      else if length (p_DestinationHash p) \<noteq> 0 \<and> length (p_DestinationHash p) \<noteq> TruncatedHashLength
      then Some (p, Some (DestHashLen (length (p_DestinationHash p))))
      else if p_HeaderType p = HeaderType2 \<and> p_TransportID p = None
      then Some (p, Some TransportIDRequired)
      else if p_HeaderType p = HeaderType2 \<and> length (tid_bytes p) \<noteq> TruncatedHashLength
      then Some (p, Some (TransportIDLen (length (tid_bytes p))))
      else
        (let need = 2 + length (p_DestinationHash p) + 1 + length (p_Data p)
                      + (if p_HeaderType p = HeaderType2 then length (tid_bytes p) else 0);
             p1 = p\<lparr> p_Raw := wire p, p_RawSpare := pack_spare p need \<rparr>
         in if length (p_Raw p1) > MTU then Some (p1, Some ExceedsMTU)
            else do {
              p2 \<leftarrow> updateHash H (p1\<lparr> p_Packed := True, p_hashValid := False \<rparr>);
              Some (p2, None) }))"

definition PrepareHT1Buffer ::
  "packet \<Rightarrow> bytes \<Rightarrow> int \<Rightarrow> (packet \<times> (packet_error + bytes)) option" where
  "PrepareHT1Buffer p destHash payloadLen =
     (if length destHash \<noteq> TruncatedHashLength
      then Some (p, Inl (DestHashLen (length destHash)))
      else if p_HeaderType p \<noteq> HeaderType1 then Some (p, Inl RequiresHT1)
      else if int HeaderType1Overhead + payloadLen > int MTU then Some (p, Inl ExceedsMTU)
      else if int HeaderType1Overhead + payloadLen < 0 then None
      else
        (let need = nat (int HeaderType1Overhead + payloadLen);
             buf = (if raw_cap p < need then replicate (nextRawWireCap need) 0
                    else p_Raw p @ p_RawSpare p)
         in do {
           let r0 = take need buf;
           r1 \<leftarrow> go_set r0 0 (headerFlags p);
           r2 \<leftarrow> go_set r1 1 (p_Hops p);
           _ \<leftarrow> go_slice r2 2 (2 + TruncatedHashLength);
           let r3 = take 2 r2 @ destHash @ drop (2 + TruncatedHashLength) r2;
           r4 \<leftarrow> go_set r3 (2 + TruncatedHashLength) (p_Context p);
           d \<leftarrow> go_from r4 HeaderType1Overhead;
           Some (p\<lparr> p_Raw := r4, p_RawSpare := drop need buf, p_DestinationHash := destHash,
                    p_Data := d, p_Packed := False, p_hashValid := False \<rparr>, Inr d) }))"

definition CommitPacked :: "hashfn \<Rightarrow> packet \<Rightarrow> (packet \<times> packet_error option) option" where
  "CommitPacked H p =
     (if length (p_Raw p) > MTU then Some (p, Some ExceedsMTU)
      else do {
        p' \<leftarrow> updateHash H (p\<lparr> p_Packed := True, p_hashValid := False \<rparr>);
        Some (p', None) })"

text \<open>
  The slice \<open>PrepareHT1Buffer\<close> returns is a view of \<open>Raw\<close>: writing \<open>d\<close> through it changes
  \<open>Data\<close> and the payload region of \<open>Raw\<close> together.
\<close>

definition write_view :: "packet \<Rightarrow> bytes \<Rightarrow> packet" where
  "write_view p d = p\<lparr> p_Data := d, p_Raw := take HeaderType1Overhead (p_Raw p) @ d \<rparr>"

definition Serialize :: "hashfn \<Rightarrow> packet \<Rightarrow> (packet \<times> (packet_error + bytes)) option" where
  "Serialize H p =
     (if \<not> p_Packed p then
        (case Pack H p of
           None \<Rightarrow> None
         | Some (p', Some e) \<Rightarrow> Some (p', Inl e)
         | Some (p', None) \<Rightarrow>
             Some (p'\<lparr> p_Addresses := p_DestinationHash p' \<rparr>, Inr (p_Raw p')))
      else Some (p\<lparr> p_Addresses := p_DestinationHash p \<rparr>, Inr (p_Raw p)))"

section \<open>Decoding\<close>

definition Unpack :: "hashfn \<Rightarrow> packet \<Rightarrow> (packet \<times> packet_error option) option" where
  "Unpack H p =
     (if length (p_Raw p) < MinPacketSize then Some (p, Some TooShort)
      else if length (p_Raw p) > MaxInboundPacketSize then Some (p, Some ExceedsMaxInbound)
      else do {
        flags \<leftarrow> go_index (p_Raw p) 0;
        hops \<leftarrow> go_index (p_Raw p) 1;
        let p1 = p\<lparr> p_Hops := hops \<rparr>;
        if unat hops \<ge> PathfinderM then Some (p1, Some (InvalidHopCount hops))
        else
          (let p2 = p1\<lparr> p_HeaderType := drop_bit 6 (flags AND HeaderMaskHeaderType),
                        p_ContextFlag := drop_bit 5 (flags AND HeaderMaskContextFlag),
                        p_TransportType := drop_bit 4 (flags AND HeaderMaskTransportType),
                        p_DestinationType := drop_bit 2 (flags AND HeaderMaskDestinationType),
                        p_PacketType := flags AND HeaderMaskPacketType \<rparr>;
               dstLen = TruncatedHashLength
           in if p_HeaderType p2 = HeaderType2 then
                (if length (p_Raw p) < 2 * dstLen + MinPacketSize then Some (p2, Some TooShortHT2)
                 else do {
                   tid \<leftarrow> go_slice (p_Raw p) 2 (dstLen + 2);
                   dst \<leftarrow> go_slice (p_Raw p) (dstLen + 2) (2 * dstLen + 2);
                   ctx \<leftarrow> go_index (p_Raw p) (2 * dstLen + 2);
                   dat \<leftarrow> go_from (p_Raw p) (2 * dstLen + 3);
                   p3 \<leftarrow> updateHash H (p2\<lparr> p_TransportID := Some tid, p_DestinationHash := dst,
                             p_Context := ctx, p_Data := dat, p_Packed := False,
                             p_hashValid := False \<rparr>);
                   Some (p3, None) })
              else
                (if length (p_Raw p) < dstLen + MinPacketSize then Some (p2, Some TooShortHT1)
                 else do {
                   dst \<leftarrow> go_slice (p_Raw p) 2 (dstLen + 2);
                   ctx \<leftarrow> go_index (p_Raw p) (dstLen + 2);
                   dat \<leftarrow> go_from (p_Raw p) (dstLen + 3);
                   p3 \<leftarrow> updateHash H (p2\<lparr> p_TransportID := None, p_DestinationHash := dst,
                             p_Context := ctx, p_Data := dat, p_Packed := False,
                             p_hashValid := False \<rparr>);
                   Some (p3, None) })) })"

section \<open>Announce packets\<close>

text \<open>
  \<open>NewAnnouncePacket\<close>. The identity is given by its public key and its Ed25519 signing function
  (\<open>None\<close> for an error); \<open>rnd\<close> is what \<open>crypto/rand\<close> delivers for the five random bytes and
  \<open>now\<close> the Unix time.
\<close>

definition announceAppName :: "bytes \<Rightarrow> bytes" where
  "announceAppName appData =
     (let fallback = map of_char ''reticulum-go.node'' in
      if length appData > 2 \<and> appData ! 0 = 0x93 then map of_char ''reticulum.node''
      else if length appData > 3 \<and> appData ! 0 = 0x92 \<and> appData ! 1 = 0xc4 then
        (let nameLen = unat (appData ! 2) in
         if 3 + nameLen \<le> length appData then take nameLen (drop 3 appData) else fallback)
      else fallback)"

definition announceRandomHash :: "bytes \<Rightarrow> u64 \<Rightarrow> bytes" where
  "announceRandomHash rnd now = go_copy (replicate 5 0) rnd @ drop 3 (be64 now)"

definition NewAnnouncePacket ::
  "hashfn \<Rightarrow> bytes \<Rightarrow> bytes \<Rightarrow> (bytes \<Rightarrow> bytes option) \<Rightarrow> bytes option \<Rightarrow> u64 \<Rightarrow> bytes \<Rightarrow> bytes option
     \<Rightarrow> (packet_error + packet) option" where
  "NewAnnouncePacket H destHash pubKey sign rnd now appData transportID = do {
     encKey \<leftarrow> go_slice pubKey 0 32;
     signKey \<leftarrow> go_from pubKey 32;
     let nameHash10 = take 10 (sum256 H (announceAppName appData));
     case rnd of None \<Rightarrow> Some (Inl RandFailed)
     | Some r \<Rightarrow>
         (let randomHash = announceRandomHash r now;
              signedData = destHash @ encKey @ signKey @ nameHash10 @ randomHash @ appData
          in case sign signedData of None \<Rightarrow> Some (Inl SignFailed)
             | Some signature \<Rightarrow>
                 Some (Inr ((NewPacket 0
                     (encKey @ signKey @ nameHash10 @ randomHash @ signature @ appData)
                     PacketTypeAnnounce 0 0 HeaderType2 transportID False 0)
                     \<lparr> p_DestinationHash := destHash \<rparr>)))
   }"

section \<open>Lemmas\<close>

subsection \<open>Header flags\<close>

definition flags_ok :: "packet \<Rightarrow> bool" where
  "flags_ok p \<longleftrightarrow> p_HeaderType p < 2 \<and> p_ContextFlag p < 2 \<and> p_TransportType p < 2
                   \<and> p_DestinationType p < 4 \<and> p_PacketType p < 4"

lemma bit_lt_pow: "(w :: byte) < 2 ^ k \<Longrightarrow> k < 8 \<Longrightarrow> bit w n \<Longrightarrow> n < k"
proof -
  assume a: "w < 2 ^ k" "k < 8" "bit w n"
  have "uint w < 2 ^ k" using a by (simp add: word_2p_lem word_size)
  then have "take_bit k (uint w) = uint w" by (simp add: take_bit_int_eq_self)
  moreover have "bit (uint w) n" using a using bit_imp_le_length [OF a(3)] by (simp add: bit_uint_iff)
  ultimately show "n < k" by (metis bit_take_bit_iff)
qed

lemma mask_forms:
  "HeaderMaskHeaderType = push_bit 6 (mask 1)" "HeaderMaskContextFlag = push_bit 5 (mask 1)"
  "HeaderMaskTransportType = push_bit 4 (mask 1)"
  "HeaderMaskDestinationType = push_bit 2 (mask 2)" "HeaderMaskPacketType = mask 2"
  "HashableFlagsMask = mask 4"
  by (simp_all add: packet_consts push_bit_eq_mult mask_eq_exp_minus_1)

lemma flags_bits:
  assumes "flags_ok p"
  shows "\<And>n. 1 \<le> n \<Longrightarrow> \<not> bit (p_HeaderType p) n" "\<And>n. 1 \<le> n \<Longrightarrow> \<not> bit (p_ContextFlag p) n"
    "\<And>n. 1 \<le> n \<Longrightarrow> \<not> bit (p_TransportType p) n"
    "\<And>n. 2 \<le> n \<Longrightarrow> \<not> bit (p_DestinationType p) n"
    "\<And>n. 2 \<le> n \<Longrightarrow> \<not> bit (p_PacketType p) n"
proof -
  have one: "w < 2 \<Longrightarrow> 1 \<le> n \<Longrightarrow> \<not> bit w n" for w :: byte and n
    using bit_lt_pow [of w 1 n] by auto
  have two: "w < 4 \<Longrightarrow> 2 \<le> n \<Longrightarrow> \<not> bit w n" for w :: byte and n
    using bit_lt_pow [of w 2 n] by auto
  show "\<And>n. 1 \<le> n \<Longrightarrow> \<not> bit (p_HeaderType p) n" "\<And>n. 1 \<le> n \<Longrightarrow> \<not> bit (p_ContextFlag p) n"
    "\<And>n. 1 \<le> n \<Longrightarrow> \<not> bit (p_TransportType p) n"
    "\<And>n. 2 \<le> n \<Longrightarrow> \<not> bit (p_DestinationType p) n"
    "\<And>n. 2 \<le> n \<Longrightarrow> \<not> bit (p_PacketType p) n"
    using assms one two unfolding flags_ok_def by blast+
qed

lemma byte_bit_cases:
  assumes "P 0" "P 1" "P 2" "P 3" "P 4" "P 5" "P 6" "P 7" "n < LENGTH(8)"
  shows "P n"
proof -
  have "n = 0 \<or> n = 1 \<or> n = 2 \<or> n = 3 \<or> n = 4 \<or> n = 5 \<or> n = 6 \<or> n = 7" using assms(9) by auto
  then show ?thesis using assms by auto
qed

text \<open>The bits of the flags byte, one per header field bit.\<close>

lemma bit_headerFlags:
  "bit (headerFlags p) 0 = bit (p_PacketType p) 0"
  "bit (headerFlags p) (Suc 0) = bit (p_PacketType p) 1"
  "bit (headerFlags p) 2 = bit (p_DestinationType p) 0"
  "bit (headerFlags p) 3 = bit (p_DestinationType p) 1"
  "bit (headerFlags p) 4 = bit (p_TransportType p) 0"
  "bit (headerFlags p) 5 = bit (p_ContextFlag p) 0"
  "bit (headerFlags p) 6 = bit (p_HeaderType p) 0"
  "bit (headerFlags p) 7 = False"
  by (simp_all add: headerFlags_def mask_forms bit_simps del: bit_0)

text \<open>What \<open>Unpack\<close> reads back from the byte that \<open>headerFlags\<close> writes.\<close>

lemma headerFlags_fields:
  assumes "flags_ok p"
  shows "drop_bit 6 (headerFlags p AND HeaderMaskHeaderType) = p_HeaderType p"
    "drop_bit 5 (headerFlags p AND HeaderMaskContextFlag) = p_ContextFlag p"
    "drop_bit 4 (headerFlags p AND HeaderMaskTransportType) = p_TransportType p"
    "drop_bit 2 (headerFlags p AND HeaderMaskDestinationType) = p_DestinationType p"
    "headerFlags p AND HeaderMaskPacketType = p_PacketType p"
  by (rule bit_word_eqI, erule byte_bit_cases [rotated 8];
      simp add: mask_forms bit_simps bit_headerFlags flags_bits [OF assms] del: bit_0)+

text \<open>
  Conversely, the flags of a decoded packet are the received flags byte without its top bit,
  which carries the interface access code marker and is not part of any field.
\<close>

lemma headerFlags_of_fields:
  assumes "p_HeaderType p = drop_bit 6 (f AND HeaderMaskHeaderType)"
    "p_ContextFlag p = drop_bit 5 (f AND HeaderMaskContextFlag)"
    "p_TransportType p = drop_bit 4 (f AND HeaderMaskTransportType)"
    "p_DestinationType p = drop_bit 2 (f AND HeaderMaskDestinationType)"
    "p_PacketType p = f AND HeaderMaskPacketType"
  shows "headerFlags p = f AND mask 7"
  by (rule bit_word_eqI, erule byte_bit_cases [rotated 8];
      simp add: mask_forms bit_simps bit_headerFlags assms del: bit_0)

subsection \<open>Encoding\<close>

lemma hashableInto_Some: "p_Raw p \<noteq> [] \<Longrightarrow> \<exists>h. hashableInto p = Some h"
  by (auto simp: hashableInto_def Let_def)

lemma hashableInto_eq:
  "p_Raw p \<noteq> [] \<Longrightarrow> hashableInto p = Some ((hd (p_Raw p) AND HashableFlagsMask) #
     drop (if p_HeaderType p = HeaderType2 then TruncatedHashLength + 2 else 2) (p_Raw p))"
  by (auto simp: hashableInto_def Let_def hd_conv_nth)

lemma hashableInto_length:
  "hashableInto p = Some h \<Longrightarrow> length h = hashablePreimageLen p"
  by (auto simp: hashableInto_def hashablePreimageLen_def Let_def split: if_splits bind_splits)

lemma updateHash_eq:
  "p_Raw p \<noteq> [] \<Longrightarrow> updateHash H p = Some (p\<lparr> p_PacketHash := sum256 H (the (hashableInto p)),
                                                 p_hashValid := True \<rparr>)"
  using hashableInto_Some [of p] by (auto simp: updateHash_def)

lemma hashableInto_upd [simp]:
  "hashableInto (p\<lparr> p_Packed := a \<rparr>) = hashableInto p"
  "hashableInto (p\<lparr> p_hashValid := b \<rparr>) = hashableInto p"
  "hashableInto (p\<lparr> p_RawSpare := c \<rparr>) = hashableInto p"
  "hashableInto (p\<lparr> p_Data := d \<rparr>) = hashableInto p"
  "hashableInto (p\<lparr> p_DestinationHash := d \<rparr>) = hashableInto p"
  "hashableInto (p\<lparr> p_TransportID := t \<rparr>) = hashableInto p"
  "hashableInto (p\<lparr> p_Context := x \<rparr>) = hashableInto p"
  by (simp_all add: hashableInto_def Let_def cong: if_cong)

lemma wire_not_Nil [simp]: "wire p \<noteq> []"
  by (simp add: wire_def)

lemma length_wire:
  "length (wire p) = 2 + length (p_DestinationHash p) + 1 + length (p_Data p)
                      + (if p_HeaderType p = HeaderType2 then length (tid_bytes p) else 0)"
  by (simp add: wire_def)

lemma nextRawWireCap_ge: "need \<le> nextRawWireCap need"
  by (simp add: nextRawWireCap_def Let_def packet_consts; linarith?)

text \<open>A packet the encoder accepts, and the receiver it leaves.\<close>

definition pack_ok :: "packet \<Rightarrow> bool" where
  "pack_ok p \<longleftrightarrow>
     (length (p_DestinationHash p) \<noteq> 0 \<longrightarrow> length (p_DestinationHash p) = TruncatedHashLength)
     \<and> (p_HeaderType p = HeaderType2 \<longrightarrow> p_TransportID p \<noteq> None)
     \<and> (p_HeaderType p = HeaderType2 \<longrightarrow> length (tid_bytes p) = TruncatedHashLength)
     \<and> \<not> length (wire p) > MTU"

definition packed_form :: "hashfn \<Rightarrow> packet \<Rightarrow> packet" where
  "packed_form H p = p\<lparr> p_Raw := wire p, p_RawSpare := pack_spare p (length (wire p)), p_Packed := True,
           p_PacketHash := sum256 H (the (hashableInto (p\<lparr> p_Raw := wire p \<rparr>))),
           p_hashValid := True \<rparr>"

lemma Pack_packed: "p_Packed p \<Longrightarrow> Pack H p = Some (p, None)"
  by (simp add: Pack_def)

lemma Pack_success:
  assumes "\<not> p_Packed p" "pack_ok p"
  shows "Pack H p = Some (packed_form H p, None)"
  using assms unfolding pack_ok_def Pack_def Let_def length_wire [symmetric]
  by (simp add: updateHash_eq packed_form_def) auto

lemma Pack_failure:
  assumes "\<not> p_Packed p" "\<not> pack_ok p"
  shows "\<exists>p' e. Pack H p = Some (p', Some e) \<and> \<not> p_Packed p'"
  using assms unfolding pack_ok_def Pack_def Let_def length_wire [symmetric]
  by (simp del: length_0_conv split: if_split) auto

subsection \<open>Decoding\<close>

text \<open>The header of a raw packet and the two shapes \<open>Unpack\<close> accepts.\<close>

definition set_flags :: "byte \<Rightarrow> packet \<Rightarrow> packet" where
  "set_flags f p = p\<lparr> p_HeaderType := drop_bit 6 (f AND HeaderMaskHeaderType),
                     p_ContextFlag := drop_bit 5 (f AND HeaderMaskContextFlag),
                     p_TransportType := drop_bit 4 (f AND HeaderMaskTransportType),
                     p_DestinationType := drop_bit 2 (f AND HeaderMaskDestinationType),
                     p_PacketType := f AND HeaderMaskPacketType \<rparr>"

definition decoded :: "hashfn \<Rightarrow> packet \<Rightarrow> byte \<Rightarrow> byte \<Rightarrow> bytes option \<Rightarrow> bytes \<Rightarrow> byte \<Rightarrow> bytes \<Rightarrow> packet" where
  "decoded H p f h tid dst ctx dat =
     (let q = (set_flags f (p\<lparr> p_Hops := h \<rparr>))\<lparr> p_TransportID := tid, p_DestinationHash := dst,
                p_Context := ctx, p_Data := dat, p_Packed := False \<rparr>
      in q\<lparr> p_PacketHash := sum256 H (the (hashableInto q)), p_hashValid := True \<rparr>)"

abbreviation is_HT2 :: "byte \<Rightarrow> bool" where
  "is_HT2 f \<equiv> drop_bit 6 (f AND HeaderMaskHeaderType) = HeaderType2"

lemma Unpack_HT1:
  assumes "p_Raw p = [f, h] @ dst @ [ctx] @ dat" "length dst = 16" "unat h < 128" "\<not> is_HT2 f"
    "length (p_Raw p) \<le> MaxInboundPacketSize"
  shows "Unpack H p = Some (decoded H p f h None dst ctx dat, None)"
proof -
  have len: "length (p_Raw p) = 19 + length dat" using assms(1,2) by simp
  have parts: "p_Raw p ! 0 = f" "p_Raw p ! 1 = h" "take 16 (drop 2 (p_Raw p)) = dst"
    "p_Raw p ! 18 = ctx" "drop 19 (p_Raw p) = dat" "p_Raw p \<noteq> []"
    using assms(1,2) by (simp_all add: nth_append)
  show ?thesis
    using assms(3-5) len parts unfolding Unpack_def
    by (simp add: Let_def updateHash_eq decoded_def set_flags_def MinPacketSize_def
        TruncatedHashLength_def PathfinderM_def)
qed

lemma Unpack_HT2:
  assumes "p_Raw p = [f, h] @ tid @ dst @ [ctx] @ dat" "length tid = 16" "length dst = 16"
    "unat h < 128" "is_HT2 f" "length (p_Raw p) \<le> MaxInboundPacketSize"
  shows "Unpack H p = Some (decoded H p f h (Some tid) dst ctx dat, None)"
proof -
  have len: "length (p_Raw p) = 35 + length dat" using assms(1-3) by simp
  have parts: "p_Raw p ! 0 = f" "p_Raw p ! 1 = h" "take 16 (drop 2 (p_Raw p)) = tid"
    "take 16 (drop 18 (p_Raw p)) = dst"
    "p_Raw p ! 34 = ctx" "drop 35 (p_Raw p) = dat" "p_Raw p \<noteq> []"
    using assms(1-3) by (simp_all add: nth_append)
  show ?thesis
    using assms(4-6) len parts unfolding Unpack_def
    by (simp add: Let_def updateHash_eq decoded_def set_flags_def MinPacketSize_def
        TruncatedHashLength_def PathfinderM_def)
qed

text \<open>Every accepted input has one of the two shapes, so the two lemmas above are complete.\<close>

lemma Unpack_total: "\<exists>q e. Unpack H p = Some (q, e)"
proof (cases "length (p_Raw p) < MinPacketSize")
  case False
  then have "p_Raw p \<noteq> []" by (auto simp: MinPacketSize_def)
  with False show ?thesis
    by (simp add: Unpack_def Let_def updateHash_eq MinPacketSize_def TruncatedHashLength_def)
qed (simp add: Unpack_def)

lemma Unpack_shape:
  assumes "Unpack H p = Some (q, None)"
  obtains (HT1) f h dst ctx dat where
      "p_Raw p = [f, h] @ dst @ [ctx] @ dat" "length dst = 16" "unat h < 128" "\<not> is_HT2 f"
      "length (p_Raw p) \<le> MaxInboundPacketSize" "q = decoded H p f h None dst ctx dat"
    | (HT2) f h tid dst ctx dat where
      "p_Raw p = [f, h] @ tid @ dst @ [ctx] @ dat" "length tid = 16" "length dst = 16"
      "unat h < 128" "is_HT2 f" "length (p_Raw p) \<le> MaxInboundPacketSize"
      "q = decoded H p f h (Some tid) dst ctx dat"
proof -
  have long: "\<not> length (p_Raw p) < MinPacketSize" and le: "length (p_Raw p) \<le> MaxInboundPacketSize"
    using assms by (auto simp: Unpack_def split: if_splits)
  then obtain f h rest where raw: "p_Raw p = [f, h] @ rest"
    by (cases "p_Raw p"; cases "tl (p_Raw p)") (auto simp: MinPacketSize_def)
  have h: "unat h < 128"
    using assms long le raw by (auto simp: Unpack_def PathfinderM_def Let_def split: if_splits)
  show ?thesis
  proof (cases "is_HT2 f")
    case True
    then have "35 \<le> length (p_Raw p)"
      using assms long le raw h
      by (auto simp: Unpack_def PathfinderM_def Let_def MinPacketSize_def TruncatedHashLength_def
          split: if_splits)
    then have len: "33 \<le> length rest" using raw by simp
    define tid dst ctx dat where d: "tid = take 16 rest" "dst = take 16 (drop 16 rest)"
      "ctx = rest ! 32" "dat = drop 33 rest"
    have "drop 32 rest = ctx # dat" using len by (simp add: d Cons_nth_drop_Suc [symmetric])
    then have "p_Raw p = [f, h] @ tid @ dst @ [ctx] @ dat"
      using raw by (metis append.left_neutral append_Cons append_take_drop_id d(1,2) drop_drop
          numeral_plus_numeral num_double semiring_norm(2) semiring_norm(6))
    moreover have "length tid = 16" "length dst = 16" using len by (simp_all add: d)
    ultimately show ?thesis using Unpack_HT2 [of p f h tid dst ctx dat] True h le assms HT2 by simp
  next
    case False
    then have "19 \<le> length (p_Raw p)"
      using assms long le raw h
      by (auto simp: Unpack_def PathfinderM_def Let_def MinPacketSize_def TruncatedHashLength_def
          split: if_splits)
    then have len: "17 \<le> length rest" using raw by simp
    define dst ctx dat where d: "dst = take 16 rest" "ctx = rest ! 16" "dat = drop 17 rest"
    have "drop 16 rest = ctx # dat" using len by (simp add: d Cons_nth_drop_Suc [symmetric])
    then have "p_Raw p = [f, h] @ dst @ [ctx] @ dat"
      using raw by (metis append_Cons append_Nil append_take_drop_id d(1))
    moreover have "length dst = 16" using len by (simp add: d)
    ultimately show ?thesis using Unpack_HT1 [of p f h dst ctx dat] False h le assms HT1 by simp
  qed
qed

section \<open>Properties\<close>

text \<open>A packet as the senders build it: flag fields in range, 16-byte hashes, an admissible hop count.\<close>

definition wf_packet :: "packet \<Rightarrow> bool" where
  "wf_packet p \<longleftrightarrow> flags_ok p \<and> unat (p_Hops p) < PathfinderM
     \<and> length (p_DestinationHash p) = TruncatedHashLength
     \<and> (if p_HeaderType p = HeaderType2
        then p_TransportID p \<noteq> None \<and> length (tid_bytes p) = TruncatedHashLength
        else p_TransportID p = None)"

text \<open>The fields of a packet that its wire form carries.\<close>

definition same_header :: "packet \<Rightarrow> packet \<Rightarrow> bool" where
  "same_header p q \<longleftrightarrow>
     p_HeaderType q = p_HeaderType p \<and> p_ContextFlag q = p_ContextFlag p
     \<and> p_TransportType q = p_TransportType p \<and> p_DestinationType q = p_DestinationType p
     \<and> p_PacketType q = p_PacketType p \<and> p_Hops q = p_Hops p \<and> p_Context q = p_Context p
     \<and> p_TransportID q = p_TransportID p \<and> p_DestinationHash q = p_DestinationHash p
     \<and> p_Data q = p_Data p"

lemma decoded_sel [simp]:
  "p_Raw (decoded H p f h tid dst ctx dat) = p_Raw p"
  "p_RawSpare (decoded H p f h tid dst ctx dat) = p_RawSpare p"
  "p_HeaderType (decoded H p f h tid dst ctx dat) = drop_bit 6 (f AND HeaderMaskHeaderType)"
  "p_ContextFlag (decoded H p f h tid dst ctx dat) = drop_bit 5 (f AND HeaderMaskContextFlag)"
  "p_TransportType (decoded H p f h tid dst ctx dat) = drop_bit 4 (f AND HeaderMaskTransportType)"
  "p_DestinationType (decoded H p f h tid dst ctx dat) = drop_bit 2 (f AND HeaderMaskDestinationType)"
  "p_PacketType (decoded H p f h tid dst ctx dat) = f AND HeaderMaskPacketType"
  "p_Hops (decoded H p f h tid dst ctx dat) = h"
  "p_TransportID (decoded H p f h tid dst ctx dat) = tid"
  "p_DestinationHash (decoded H p f h tid dst ctx dat) = dst"
  "p_Context (decoded H p f h tid dst ctx dat) = ctx"
  "p_Data (decoded H p f h tid dst ctx dat) = dat"
  "p_Packed (decoded H p f h tid dst ctx dat) = False"
  "p_hashValid (decoded H p f h tid dst ctx dat) = True"
  by (simp_all add: decoded_def set_flags_def Let_def)

lemma packed_form_sel [simp]:
  "p_Raw (packed_form H p) = wire p" "p_hashValid (packed_form H p) = True"
  "p_Packed (packed_form H p) = True"
  by (simp_all add: packed_form_def)

lemma packed_form_hash:
  "p_PacketHash (packed_form H p) = sum256 H ((headerFlags p AND HashableFlagsMask) #
     drop (if p_HeaderType p = HeaderType2 then 18 else 2) (wire p))"
  by (simp add: packed_form_def hashableInto_eq TruncatedHashLength_def) (simp add: wire_def)

lemma decoded_hash:
  "p_Raw p = f # r \<Longrightarrow> p_PacketHash (decoded H p f h tid dst ctx dat) = sum256 H ((f AND HashableFlagsMask) #
     drop (if is_HT2 f then 18 else 2) (p_Raw p))"
  by (simp add: decoded_def set_flags_def Let_def hashableInto_eq TruncatedHashLength_def)

lemma raw_packet_Raw [simp]: "p_Raw (raw_packet raw) = raw"
  by (simp add: raw_packet_def)

lemma Unpack_wire:
  assumes "wf_packet p" "length (wire p) \<le> MTU" "p_Raw r = wire p"
  shows "Unpack H r = Some (decoded H r (headerFlags p) (p_Hops p) (p_TransportID p)
                            (p_DestinationHash p) (p_Context p) (p_Data p), None)"
proof -
  note fl = headerFlags_fields [of p]
  have ok: "flags_ok p" and h: "unat (p_Hops p) < 128" and d: "length (p_DestinationHash p) = 16"
    and le: "length (p_Raw r) \<le> MaxInboundPacketSize"
    using assms by (auto simp: wf_packet_def PathfinderM_def TruncatedHashLength_def MTU_def
        MaxInboundPacketSize_def)
  show ?thesis
  proof (cases "p_HeaderType p = HeaderType2")
    case True
    then obtain t where t: "p_TransportID p = Some t" "length t = 16"
      using assms(1) by (auto simp: wf_packet_def tid_bytes_def TruncatedHashLength_def)
    show ?thesis
      using Unpack_HT2 [of r "headerFlags p" "p_Hops p" t "p_DestinationHash p" "p_Context p" "p_Data p"]
        True t d h le fl(1) [OF ok] assms(3) by (simp add: wire_def tid_bytes_def)
  next
    case False
    then have "p_TransportID p = None" using assms(1) by (simp add: wf_packet_def)
    then show ?thesis
      using Unpack_HT1 [of r "headerFlags p" "p_Hops p" "p_DestinationHash p" "p_Context p" "p_Data p"]
        False d h le fl(1) [OF ok] assms(3) by (simp add: wire_def)
  qed
qed

lemma wf_pack_ok: "wf_packet p \<Longrightarrow> length (wire p) \<le> MTU \<Longrightarrow> pack_ok p"
  by (auto simp: wf_packet_def pack_ok_def split: if_splits)

text \<open>
  C1: encoding then decoding. A well-formed packet whose wire form fits the MTU is packed without
  error, and unpacking the produced bytes succeeds and recovers every header field, the
  addresses, the context and the payload, with the same packet hash on both sides.
\<close>

theorem Pack_Unpack_roundtrip:
  assumes "\<not> p_Packed p" "wf_packet p" "length (wire p) \<le> MTU"
  shows "\<exists>p' q. Pack H p = Some (p', None) \<and> Unpack H (raw_packet (p_Raw p')) = Some (q, None)
           \<and> same_header p q \<and> p_PacketHash q = p_PacketHash p' \<and> p_hashValid q"
proof -
  have P: "Pack H p = Some (packed_form H p, None)"
    using Pack_success [OF assms(1) wf_pack_ok [OF assms(2,3)]] .
  note U = Unpack_wire [OF assms(2,3) raw_packet_Raw]
  have ok: "flags_ok p" using assms(2) by (simp add: wf_packet_def)
  have "wire p = headerFlags p # tl (wire p)" by (simp add: wire_def)
  then have "p_Raw (raw_packet (wire p)) = headerFlags p # tl (wire p)" by simp
  note H = decoded_hash [OF this]
  show ?thesis
    using P U by (simp add: same_header_def headerFlags_fields [OF ok] H packed_form_hash
        del: drop_bit_and)
qed

definition sample_packet :: packet where
  "sample_packet = (NewPacket DestinationSingle [1, 2, 3] PacketTypeData ContextNone
     PropagationTransport HeaderType2 (Some (replicate 16 7)) False 1)
     \<lparr> p_DestinationHash := replicate 16 9, p_Hops := 3 \<rparr>"

lemma sample_packet_wf:
  "\<not> p_Packed sample_packet" "wf_packet sample_packet" "length (wire sample_packet) \<le> MTU"
  by code_simp+

theorem Pack_Unpack_roundtrip_witness:
  "\<exists>p' q. Pack sample_hash sample_packet = Some (p', None) \<and> Unpack sample_hash (raw_packet (p_Raw p')) = Some (q, None)
      \<and> same_header sample_packet q \<and> p_PacketHash q = p_PacketHash p' \<and> p_hashValid q"
  by (rule Pack_Unpack_roundtrip [OF sample_packet_wf])

lemma decoded_headerFlags:
  "headerFlags (decoded H p f h tid dst ctx dat) = f AND mask 7"
  by (rule headerFlags_of_fields) simp_all

lemma decoded_wire:
  "wire (decoded H p f h tid dst ctx dat) =
     [f AND mask 7, h] @ (if is_HT2 f then (case tid of None \<Rightarrow> [] | Some t \<Rightarrow> t) else [])
     @ dst @ [ctx] @ dat"
  by (simp add: wire_def decoded_headerFlags tid_bytes_def)


definition sample_frame :: bytes where
  "sample_frame = [0xD0, 3] @ replicate 16 7 @ replicate 16 9 @ [0, 1, 2, 3]"

lemma sample_frame_unpacks:
  "Unpack H (raw_packet sample_frame) =
     Some (decoded H (raw_packet sample_frame) 0xD0 3 (Some (replicate 16 7)) (replicate 16 9) 0 [1, 2, 3], None)"
  by (rule Unpack_HT2) (simp_all add: sample_frame_def packet_consts)


text \<open>
  The codec never panics, whatever the packet fields or the received bytes are: \<open>Pack\<close>,
  \<open>Unpack\<close> and \<open>Serialize\<close> always return, \<open>Pack\<close> reports success exactly for the packets it can
  represent (already packed ones included) and marks the packet packed exactly then, and a link
  identifier is computed for every packet.
\<close>

theorem packet_codec_total:
  "(\<exists>q e. Unpack H p = Some (q, e))
   \<and> (\<exists>p' e. Pack H p = Some (p', e) \<and> (e = None \<longleftrightarrow> p_Packed p \<or> pack_ok p) \<and> (p_Packed p' \<longleftrightarrow> e = None))
   \<and> (\<exists>p' r. Serialize H p = Some (p', r))
   \<and> (\<exists>l. LinkIDFromLinkRequest H p = Some l)"
proof -
  have P: "\<exists>p' e. Pack H p = Some (p', e) \<and> (e = None \<longleftrightarrow> p_Packed p \<or> pack_ok p) \<and> (p_Packed p' \<longleftrightarrow> e = None)"
  proof (cases "p_Packed p \<or> pack_ok p")
    case True
    then show ?thesis using Pack_packed [of p] Pack_success [of p] by (cases "p_Packed p") simp_all
  next
    case False
    then show ?thesis using Pack_failure [of p] by blast
  qed
  then have "\<exists>p' r. Serialize H p = Some (p', r)"
    by (auto simp: Serialize_def split: option.splits)
  moreover have "\<exists>l. LinkIDFromLinkRequest H p = Some l"
    by (auto simp: LinkIDFromLinkRequest_def hashableInto_eq Let_def)
  ultimately show ?thesis using Unpack_total P by blast
qed

lemma ht1_prefix:
  fixes a b c :: byte
  assumes "length dst = 16" "19 \<le> length r"
  defines "r2 \<equiv> r[0 := a, Suc 0 := b]"
  shows "take 19 ((take 2 r2 @ dst @ drop 18 r2)[18 := c]) = [a, b] @ dst @ [c]"
    "length ((take 2 r2 @ dst @ drop 18 r2)[18 := c]) = length r"
proof -
  obtain x y r' where r: "r = x # y # r'" using assms(2) by (cases r; cases "tl r") auto
  obtain z zs where z: "drop 16 r' = z # zs" using assms(2) r by (cases "drop 16 r'") auto
  have "take 2 r2 @ dst @ drop 18 r2 = ([a, b] @ dst) @ z # zs" by (simp add: r2_def r z)
  then have *: "(take 2 r2 @ dst @ drop 18 r2)[18 := c] = ([a, b] @ dst) @ c # zs"
    using assms(1) by (simp add: list_update_append)
  show "take 19 ((take 2 r2 @ dst @ drop 18 r2)[18 := c]) = [a, b] @ dst @ [c]"
    unfolding * using assms(1) by simp
  show "length ((take 2 r2 @ dst @ drop 18 r2)[18 := c]) = length r"
    using assms(1,2) by (simp add: r2_def)
qed

lemma PrepareHT1Buffer_ok:
  assumes "p_HeaderType p = HeaderType1" "length dst = 16" "n \<le> 481"
  shows "\<exists>r spare. PrepareHT1Buffer p dst (int n) =
           Some (p\<lparr> p_Raw := r, p_RawSpare := spare, p_DestinationHash := dst, p_Data := drop 19 r,
                   p_Packed := False, p_hashValid := False \<rparr>, Inr (drop 19 r))
         \<and> length r = 19 + n \<and> take 19 r = [headerFlags p, p_Hops p] @ dst @ [p_Context p]"
proof -
  define buf where "buf = (if raw_cap p < 19 + n then replicate (nextRawWireCap (19 + n)) 0
                           else p_Raw p @ p_RawSpare p)"
  have len: "length (take (19 + n) buf) = 19 + n"
    using nextRawWireCap_ge [of "19 + n"] by (simp add: buf_def)
  define r2 where "r2 = (take (19 + n) buf)[0 := headerFlags p, Suc 0 := p_Hops p]"
  define r where "r = (take 2 r2 @ dst @ drop 18 r2)[18 := p_Context p]"
  have r: "take 19 r = [headerFlags p, p_Hops p] @ dst @ [p_Context p]" "length r = 19 + n"
    using ht1_prefix [of dst "take (19 + n) buf"] assms(2) len unfolding r_def r2_def by simp_all
  have "nat (int HeaderType1Overhead + int n) = 19 + n" by (simp add: packet_consts)
  then have "PrepareHT1Buffer p dst (int n) =
           Some (p\<lparr> p_Raw := r, p_RawSpare := drop (19 + n) buf, p_DestinationHash := dst,
                   p_Data := drop 19 r, p_Packed := False, p_hashValid := False \<rparr>, Inr (drop 19 r))"
    using assms len unfolding PrepareHT1Buffer_def
    by (simp add: buf_def [symmetric] Let_def packet_consts r_def r2_def)
  with r show ?thesis by blast
qed

lemma prepare_commit_pack:
  assumes "p_HeaderType p = HeaderType1" "length dst = TruncatedHashLength"
    "HeaderType1Overhead + length payload \<le> MTU"
  shows "\<exists>p1 view p2 p3.
           PrepareHT1Buffer p dst (int (length payload)) = Some (p1, Inr view)
         \<and> length view = length payload
         \<and> CommitPacked H (write_view p1 payload) = Some (p2, None)
         \<and> Pack H (p\<lparr> p_DestinationHash := dst, p_Data := payload, p_Packed := False \<rparr>) = Some (p3, None)
         \<and> p_Raw p2 = p_Raw p3 \<and> p_PacketHash p2 = p_PacketHash p3 \<and> p_Packed p2"
proof -
  define p0 where "p0 = p\<lparr> p_DestinationHash := dst, p_Data := payload, p_Packed := False \<rparr>"
  have w: "wire p0 = [headerFlags p, p_Hops p] @ dst @ [p_Context p] @ payload"
    using assms(1) by (simp add: wire_def p0_def headerFlags_def packet_consts)
  have "pack_ok p0"
    using assms by (simp add: pack_ok_def w) (simp add: p0_def packet_consts)
  then have P: "Pack H p0 = Some (packed_form H p0, None)"
    by (intro Pack_success) (simp_all add: p0_def)
  obtain r spare where R: "PrepareHT1Buffer p dst (int (length payload)) =
        Some (p\<lparr> p_Raw := r, p_RawSpare := spare, p_DestinationHash := dst, p_Data := drop 19 r,
                p_Packed := False, p_hashValid := False \<rparr>, Inr (drop 19 r))"
      "length r = 19 + length payload" "take 19 r = [headerFlags p, p_Hops p] @ dst @ [p_Context p]"
    using PrepareHT1Buffer_ok [of p dst "length payload"] assms by (auto simp: packet_consts)
  define p1 where "p1 = p\<lparr> p_Raw := r, p_RawSpare := spare, p_DestinationHash := dst,
      p_Data := drop 19 r, p_Packed := False, p_hashValid := False \<rparr>"
  have raw: "p_Raw (write_view p1 payload) = wire p0"
    by (simp add: write_view_def p1_def HeaderType1Overhead_def TruncatedHashLength_def R(3) w)
  have "\<not> MTU < length (wire p0)" using \<open>pack_ok p0\<close> by (simp add: pack_ok_def)
  then obtain p2 where C: "CommitPacked H (write_view p1 payload) = Some (p2, None)"
      "p_Raw p2 = wire p0" "p_Packed p2" "p_PacketHash p2 = p_PacketHash (packed_form H p0)"
    using raw by (simp add: CommitPacked_def updateHash_eq packed_form_hash hashableInto_eq)
      (simp add: p1_def p0_def write_view_def wire_def TruncatedHashLength_def headerFlags_def)
  show ?thesis
    using R C P unfolding p0_def [symmetric] p1_def [symmetric] by auto
qed

text \<open>
  The in-place encoder agrees with \<open>Pack\<close>. Preparing a type 1 buffer of any capacity, writing
  the payload through the returned view and committing yields the wire bytes and the packet hash
  that \<open>Pack\<close> computes for the same fields; stale bytes of a reused buffer never reach the wire.
\<close>

theorem PrepareHT1_Commit_eq_Pack:
  assumes "p_HeaderType p = HeaderType1" "length dst = TruncatedHashLength"
    "HeaderType1Overhead + length payload \<le> MTU"
  shows "\<exists>p1 view p2 p3.
           PrepareHT1Buffer p dst (int (length payload)) = Some (p1, Inr view)
         \<and> length view = length payload
         \<and> CommitPacked H (write_view p1 payload) = Some (p2, None)
         \<and> Pack H (p\<lparr> p_DestinationHash := dst, p_Data := payload, p_Packed := False \<rparr>) = Some (p3, None)
         \<and> p_Raw p2 = p_Raw p3 \<and> p_PacketHash p2 = p_PacketHash p3 \<and> p_Packed p2"
  by (rule prepare_commit_pack [OF assms])

theorem PrepareHT1_Commit_eq_Pack_witness:
  "\<exists>p1 view p2 p3.
      PrepareHT1Buffer (raw_packet (replicate 40 5)) (replicate 16 9) (int (length [1, 2, 3 :: byte]))
        = Some (p1, Inr view)
    \<and> length view = length [1, 2, 3 :: byte] \<and> CommitPacked sample_hash (write_view p1 [1, 2, 3]) = Some (p2, None)
    \<and> Pack sample_hash ((raw_packet (replicate 40 5))\<lparr> p_DestinationHash := replicate 16 9, p_Data := [1, 2, 3],
              p_Packed := False \<rparr>) = Some (p3, None)
    \<and> p_Raw p2 = p_Raw p3 \<and> p_PacketHash p2 = p_PacketHash p3 \<and> p_Packed p2"
  by (rule PrepareHT1_Commit_eq_Pack)
    (simp_all add: raw_packet_def NewPacket_def packet_consts)

end
