(* ===== verification/Wire_Rewrite.thy ===== *)
theory Wire_Rewrite
  imports Packet
begin

text \<open>
  The header rewriting a transport node applies to packets in transit: hop accounting and the
  \<open>HeaderType2\<close> rebuild, insertion and strip of \<open>pkg/transport/relay.go\<close>, the link MTU signalling
  of \<open>pkg/transport/lr_mtu.go\<close>, and the hash keys of \<open>pkg/transport/transport.go\<close> and
  \<open>wire.go\<close>. The central facts are that rewriting never changes the packet hash or the link
  identifier, which is what lets proofs and link traffic find their way back.
\<close>

section \<open>Hash keys\<close>

type_synonym hash16 = "bytes \<times> nat"

definition hash16FromSlice :: "bytes \<Rightarrow> hash16" where
  "hash16FromSlice b = (let b' = (if length b > 16 then take 16 b else b) in (fixed 16 b', length b'))"

definition pathMapKey :: "bytes \<Rightarrow> bytes" where
  "pathMapKey h = (if length h > 32 then fixed 32 (take 32 h) else fixed 32 h)"

section \<open>Hop accounting\<close>

definition linkRelayAccountedHops :: "byte \<Rightarrow> bool \<Rightarrow> byte" where
  "linkRelayAccountedHops wireHops fromLocalClient =
     (if fromLocalClient then wireHops else if wireHops < 0xFF then wireHops + 1 else wireHops)"

section \<open>Header rewriting\<close>

datatype rewrite_error = TooShortRewrite | NextHopLen nat

text \<open>
  \<open>rebuildHeaderType2\<close> and \<open>rewriteHopsInPlace\<close> return the buffer they were given, so the result
  is also the new content of the caller's buffer.
\<close>

definition rebuildHeaderType2 :: "bytes \<Rightarrow> byte \<Rightarrow> bytes \<Rightarrow> rewrite_error + bytes" where
  "rebuildHeaderType2 raw hops nextHop =
     (if length raw < 18 then Inl TooShortRewrite
      else if length nextHop \<noteq> 16 then Inl (NextHopLen (length nextHop))
      else (let raw1 = raw[1 := hops] in Inr (take 2 raw1 @ nextHop @ drop 18 raw1)))"

definition insertHeaderType2 :: "bytes \<Rightarrow> byte \<Rightarrow> bytes \<Rightarrow> rewrite_error + bytes" where
  "insertHeaderType2 raw hops nextHop =
     (if length raw < 2 then Inl TooShortRewrite
      else if length nextHop \<noteq> 16 then Inl (NextHopLen (length nextHop))
      else
        (let newFlags = ((push_bit 6 HeaderType2 AND HeaderMaskHeaderType)
                          OR (push_bit 4 PropagationTransport AND HeaderMaskTransportType))
                          OR (raw ! 0 AND (HeaderMaskContextFlag OR 0x0F))
         in Inr ([newFlags, hops] @ nextHop @ drop 2 raw)))"

text \<open>
  \<open>stripHeaderType2\<close> moves the tail of the buffer down over the transport identifier and returns
  a shorter view of it. The result is the whole buffer as it is left (its last 16 bytes keep their
  old value, which matters to a caller whose packet still aliases it) and the returned view.
\<close>

definition stripHeaderType2 :: "bytes \<Rightarrow> byte \<Rightarrow> rewrite_error + (bytes \<times> bytes)" where
  "stripHeaderType2 raw hops =
     (if length raw < 18 then Inl TooShortRewrite
      else
        (let newFlags = ((push_bit 6 HeaderType1 AND HeaderMaskHeaderType)
                          OR (push_bit 4 PropagationBroadcast AND HeaderMaskTransportType))
                          OR (raw ! 0 AND 0x0F);
             shifted = take 2 raw @ go_copy (drop 2 raw) (drop 18 raw);
             buf = shifted[0 := newFlags, 1 := hops]
         in Inr (buf, take (length raw - 16) buf)))"

definition rewriteHopsInPlace :: "bytes \<Rightarrow> byte \<Rightarrow> bytes" where
  "rewriteHopsInPlace raw hops = (if length raw \<ge> 2 then raw[1 := hops] else raw)"

definition rewriteHopsOnly :: "bytes \<Rightarrow> byte \<Rightarrow> bytes" where
  "rewriteHopsOnly raw hops = (if length raw < 2 then raw else raw[1 := hops])"

section \<open>Link MTU signalling\<close>

definition lrECPubSize :: nat where "lrECPubSize = 64"
definition lrMTUSize :: nat where "lrMTUSize = 3"

definition mtuFromLRData :: "bytes \<Rightarrow> (int \<times> byte) option" where
  "mtuFromLRData data =
     (if length data < lrECPubSize + lrMTUSize then None
      else (let b0 = data ! lrECPubSize; b1 = data ! (lrECPubSize + 1); b2 = data ! (lrECPubSize + 2)
            in Some ((push_bit 16 (uint (b0 AND 0x1F)) OR push_bit 8 (uint b1)) OR uint b2,
                     drop_bit 5 (b0 AND 0xE0))))"

definition signallingBytesMTU :: "int \<Rightarrow> byte \<Rightarrow> bytes" where
  "signallingBytesMTU mtu mode =
     [word_of_int (drop_bit 16 mtu AND 0xFF) OR push_bit 5 mode,
      word_of_int (drop_bit 8 mtu AND 0xFF),
      word_of_int (mtu AND 0xFF)]"

text \<open>
  \<open>clampRelayedLinkRequestMTU\<close>; \<open>data\<close> is \<open>pkt.Data\<close>, \<open>recvMTU\<close> and \<open>outMTU\<close> are \<open>GetMTU()\<close> of
  the two interfaces, \<open>None\<close> for a nil interface.
\<close>

definition clampRelayedLinkRequestMTU :: "bytes \<Rightarrow> bytes \<Rightarrow> int option \<Rightarrow> int option \<Rightarrow> bytes" where
  "clampRelayedLinkRequestMTU raw data recvMTU outMTU =
     (if length raw < lrMTUSize \<or> length data < lrECPubSize + lrMTUSize then raw
      else case mtuFromLRData data of
        None \<Rightarrow> raw
      | Some (pathMTU, mode) \<Rightarrow>
          if pathMTU \<le> 0 then raw
          else
            (let nhMTU = (case outMTU of None \<Rightarrow> 0 | Some m \<Rightarrow> m);
                 phMTU = (case recvMTU of None \<Rightarrow> 0 | Some m \<Rightarrow> m)
             in if nhMTU \<le> 0 then take (length raw - lrMTUSize) raw
                else
                  (let limit = (if phMTU > 0 \<and> phMTU < nhMTU then phMTU else nhMTU)
                   in if pathMTU \<le> limit then raw
                      else take (length raw - lrMTUSize) raw @ signallingBytesMTU limit mode)))"

section \<open>Lemmas\<close>

subsection \<open>Hash keys\<close>

lemma hash16FromSlice_eq:
  "hash16FromSlice a = hash16FromSlice b \<longleftrightarrow> take 16 a = take 16 b"
proof -
  have form: "hash16FromSlice x = (take 16 x @ replicate (16 - length x) 0, min 16 (length x))" for x
    by (simp add: hash16FromSlice_def fixed_def go_copy_def Let_def min_def)
  show ?thesis
  proof
    assume "hash16FromSlice a = hash16FromSlice b"
    then have "take 16 a @ replicate (16 - length a) 0 = take 16 b @ replicate (16 - length b) 0"
      and "length (take 16 a) = length (take 16 b)" by (simp_all add: form min.commute)
    then show "take 16 a = take 16 b" using append_eq_append_conv by blast
  next
    assume eq: "take 16 a = take 16 b"
    then have "min 16 (length a) = min 16 (length b)" by (metis length_take min.commute)
    moreover from this have "16 - length a = 16 - length b" by linarith
    ultimately show "hash16FromSlice a = hash16FromSlice b" using eq by (simp add: form)
  qed
qed

lemma pathMapKey_16: "length a = 16 \<Longrightarrow> length b = 16 \<Longrightarrow> pathMapKey a = pathMapKey b \<longleftrightarrow> a = b"
  by (simp add: pathMapKey_def fixed_def go_copy_def)

subsection \<open>Hops\<close>

lemma linkRelayAccountedHops_le:
  "unat (linkRelayAccountedHops h l) \<le> unat h + 1" "unat h \<le> unat (linkRelayAccountedHops h l)"
proof -
  have "unat (h + 1) = unat h + 1" if "h < 0xFF"
    using that by (simp add: unat_word_ariths word_less_nat_alt)
  then show "unat (linkRelayAccountedHops h l) \<le> unat h + 1"
    "unat h \<le> unat (linkRelayAccountedHops h l)"
    by (auto simp: linkRelayAccountedHops_def)
qed

subsection \<open>Rewritten frames\<close>

lemma rebuild_frame:
  assumes "length tid = 16" "length nh = 16"
  shows "rebuildHeaderType2 ([f, h] @ tid @ rest) hops nh = Inr ([f, hops] @ nh @ rest)"
  using assms by (simp add: rebuildHeaderType2_def)

lemma strip_frame:
  assumes "length tid = 16"
  shows "\<exists>old. stripHeaderType2 ([f, h] @ tid @ rest) hops =
           Inr ([f AND 0x0F, hops] @ rest @ old, [f AND 0x0F, hops] @ rest) \<and> length old = 16"
proof -
  have fl: "(push_bit 6 HeaderType1 AND HeaderMaskHeaderType
      OR push_bit 4 PropagationBroadcast AND HeaderMaskTransportType) = 0"
    by (simp add: packet_consts)
  have "go_copy (tid @ rest) rest = rest @ drop (length rest) (tid @ rest)"
    by (simp add: go_copy_def)
  then have "stripHeaderType2 ([f, h] @ tid @ rest) hops =
     Inr ([f AND 0x0F, hops] @ rest @ drop (length rest) (tid @ rest), [f AND 0x0F, hops] @ rest)"
    using assms fl by (simp add: stripHeaderType2_def Let_def)
  then show ?thesis using assms by (intro exI [of _ "drop (length rest) (tid @ rest)"]) simp
qed

definition ht2_flags :: "byte \<Rightarrow> byte" where
  "ht2_flags f = 0x50 OR (f AND 0x2F)"

lemma insert_frame:
  assumes "length nh = 16"
  shows "insertHeaderType2 ([f, h] @ rest) hops nh = Inr ([ht2_flags f, hops] @ nh @ rest)"
  using assms by (simp add: insertHeaderType2_def ht2_flags_def packet_consts)

lemma hops_frame:
  "rewriteHopsOnly ([f, h] @ rest) hops = [f, hops] @ rest"
  "rewriteHopsInPlace ([f, h] @ rest) hops = [f, hops] @ rest"
  by (simp_all add: rewriteHopsOnly_def rewriteHopsInPlace_def)

text \<open>The bits of the flags byte that identify a message: packet type and destination type.\<close>

lemma flags_rewrites:
  "(f AND 0x0F) AND HashableFlagsMask = f AND HashableFlagsMask"
  "ht2_flags f AND HashableFlagsMask = f AND HashableFlagsMask"
  "(f AND 0x0F) AND HeaderMaskPacketType = f AND HeaderMaskPacketType"
  "ht2_flags f AND HeaderMaskPacketType = f AND HeaderMaskPacketType"
  "(f AND 0x0F) AND HeaderMaskDestinationType = f AND HeaderMaskDestinationType"
  "ht2_flags f AND HeaderMaskDestinationType = f AND HeaderMaskDestinationType"
  "drop_bit 6 ((f AND 0x0F) AND HeaderMaskHeaderType) = HeaderType1"
  "drop_bit 6 (ht2_flags f AND HeaderMaskHeaderType) = HeaderType2"
  unfolding HeaderType1_def HeaderType2_def
  by (rule bit_word_eqI, erule byte_bit_cases [rotated 8];
      simp add: mask_forms ht2_flags_def bit_simps del: bit_0)+

text \<open>
  Two decoded packets carry the same message: same addressing, context, payload and kind, and the
  same packet hash and link identifier, whatever the hop count and the transport header are.
\<close>

definition same_message :: "hashfn \<Rightarrow> packet \<Rightarrow> packet \<Rightarrow> bool" where
  "same_message H p q \<longleftrightarrow>
     p_DestinationHash q = p_DestinationHash p \<and> p_Context q = p_Context p \<and> p_Data q = p_Data p
     \<and> p_PacketType q = p_PacketType p \<and> p_DestinationType q = p_DestinationType p
     \<and> p_PacketHash q = p_PacketHash p \<and> LinkIDFromLinkRequest H q = LinkIDFromLinkRequest H p"

lemma decoded_preimage:
  assumes "p_Raw p = [f, h] @ (case tid of None \<Rightarrow> [] | Some t \<Rightarrow> t) @ dst @ [ctx] @ dat"
    "is_HT2 f = (tid \<noteq> None)" "\<And>t. tid = Some t \<Longrightarrow> length t = 16"
  shows "hashableInto (decoded H p f h tid dst ctx dat) = Some ((f AND HashableFlagsMask) # dst @ [ctx] @ dat)"
    "p_PacketHash (decoded H p f h tid dst ctx dat) = sum256 H ((f AND HashableFlagsMask) # dst @ [ctx] @ dat)"
proof -
  show "hashableInto (decoded H p f h tid dst ctx dat) = Some ((f AND HashableFlagsMask) # dst @ [ctx] @ dat)"
    using assms by (cases tid) (simp_all add: hashableInto_eq TruncatedHashLength_def del: drop_bit_and)
  show "p_PacketHash (decoded H p f h tid dst ctx dat) = sum256 H ((f AND HashableFlagsMask) # dst @ [ctx] @ dat)"
    using assms decoded_hash [of p f _ H h tid dst ctx dat] by (cases tid) (simp_all del: drop_bit_and)
qed

lemma decoded_same_message:
  assumes "p_Raw p = [f, h] @ (case tid of None \<Rightarrow> [] | Some t \<Rightarrow> t) @ dst @ [ctx] @ dat"
    "is_HT2 f = (tid \<noteq> None)" "\<And>t. tid = Some t \<Longrightarrow> length t = 16"
    "p_Raw p' = [f', h'] @ (case tid' of None \<Rightarrow> [] | Some t \<Rightarrow> t) @ dst @ [ctx] @ dat"
    "is_HT2 f' = (tid' \<noteq> None)" "\<And>t. tid' = Some t \<Longrightarrow> length t = 16"
    "f' AND HashableFlagsMask = f AND HashableFlagsMask"
    "f' AND HeaderMaskPacketType = f AND HeaderMaskPacketType"
    "f' AND HeaderMaskDestinationType = f AND HeaderMaskDestinationType"
  shows "same_message H (decoded H p f h tid dst ctx dat) (decoded H p' f' h' tid' dst ctx dat)"
  using decoded_preimage [OF assms(1-3)] decoded_preimage [OF assms(4-6)] assms(1,4,7-9)
  by (simp add: same_message_def LinkIDFromLinkRequest_def del: drop_bit_and)

lemma HeaderType_neq [simp]: "HeaderType1 \<noteq> HeaderType2" "HeaderType2 \<noteq> HeaderType1"
  by (simp_all add: packet_consts)

text \<open>A forwarded frame \<open>out\<close> is accepted as the message of \<open>p\<close> with the given hops and next hop.\<close>

definition relayed_as :: "hashfn \<Rightarrow> packet \<Rightarrow> bytes \<Rightarrow> byte \<Rightarrow> bytes option \<Rightarrow> bool" where
  "relayed_as H p out hops tid \<longleftrightarrow>
     (\<exists>q. Unpack H (raw_packet out) = Some (q, None) \<and> same_message H p q
          \<and> p_Hops q = hops \<and> p_TransportID q = tid)"

lemma relayed_asI:
  assumes "p = decoded H (raw_packet raw) f h tid dst ctx dat"
    "raw = [f, h] @ (case tid of None \<Rightarrow> [] | Some t \<Rightarrow> t) @ dst @ [ctx] @ dat"
    "is_HT2 f = (tid \<noteq> None)" "\<And>t. tid = Some t \<Longrightarrow> length t = 16" "length dst = 16"
    "out = [f', hops] @ (case tid' of None \<Rightarrow> [] | Some t \<Rightarrow> t) @ dst @ [ctx] @ dat"
    "is_HT2 f' = (tid' \<noteq> None)" "\<And>t. tid' = Some t \<Longrightarrow> length t = 16"
    "f' AND HashableFlagsMask = f AND HashableFlagsMask"
    "f' AND HeaderMaskPacketType = f AND HeaderMaskPacketType"
    "f' AND HeaderMaskDestinationType = f AND HeaderMaskDestinationType"
    "unat hops < 128" "length out \<le> MaxInboundPacketSize"
  shows "relayed_as H p out hops tid'"
proof -
  let ?q = "decoded H (raw_packet out) f' hops tid' dst ctx dat"
  have "Unpack H (raw_packet out) = Some (?q, None)"
  proof (cases tid')
    case None
    then show ?thesis using Unpack_HT1 [of "raw_packet out" f' hops dst ctx dat] assms by simp
  next
    case (Some t)
    then show ?thesis using Unpack_HT2 [of "raw_packet out" f' hops t dst ctx dat] assms by simp
  qed
  moreover have "same_message H p ?q"
    unfolding assms(1) by (rule decoded_same_message) (use assms in simp_all)
  ultimately show ?thesis unfolding relayed_as_def by (intro exI [of _ ?q]) simp
qed

text \<open>What each rewrite makes of an accepted frame.\<close>

lemma hops_relayed:
  assumes "Unpack H (raw_packet raw) = Some (p, None)" "unat hops < PathfinderM"
  shows "relayed_as H p (rewriteHopsOnly raw hops) hops (p_TransportID p)"
  using assms(1)
proof (cases rule: Unpack_shape)
  case (HT1 f h dst ctx dat)
  then have "relayed_as H p ([f, hops] @ dst @ [ctx] @ dat) hops None"
    using assms(2) by (auto intro!: relayed_asI [where f = f and tid = None] simp: PathfinderM_def simp del: drop_bit_and)
  then show ?thesis using HT1 hops_frame(1) [of f h "dst @ [ctx] @ dat"] by (simp del: drop_bit_and)
next
  case (HT2 f h tid dst ctx dat)
  then have "relayed_as H p ([f, hops] @ tid @ dst @ [ctx] @ dat) hops (Some tid)"
    using assms(2) by (auto intro!: relayed_asI [where f = f and tid = "Some tid"] simp: PathfinderM_def simp del: drop_bit_and)
  then show ?thesis using HT2 hops_frame(1) [of f h "tid @ dst @ [ctx] @ dat"] by (simp del: drop_bit_and)
qed

lemma rewriteHops_same: "rewriteHopsInPlace raw hops = rewriteHopsOnly raw hops"
  by (simp add: rewriteHopsInPlace_def rewriteHopsOnly_def)

lemma HT2_relayed:
  assumes "Unpack H (raw_packet raw) = Some (p, None)" "p_HeaderType p = HeaderType2" "unat hops < PathfinderM"
  shows "length nextHop = 16 \<Longrightarrow>
      \<exists>out. rebuildHeaderType2 raw hops nextHop = Inr out \<and> relayed_as H p out hops (Some nextHop) \<and> length out = length raw"
    and "\<exists>buf out. stripHeaderType2 raw hops = Inr (buf, out) \<and> relayed_as H p out hops None \<and> length buf = length raw"
proof -
  obtain f h tid dst ctx dat where s: "raw = [f, h] @ tid @ dst @ [ctx] @ dat" "length tid = 16" "length dst = 16"
      "unat h < 128" "is_HT2 f" "length raw \<le> MaxInboundPacketSize"
      "p = decoded H (raw_packet raw) f h (Some tid) dst ctx dat"
    using assms(1) by (cases rule: Unpack_shape) (use assms(2) in \<open>auto simp del: drop_bit_and\<close>)
  show "\<exists>out. rebuildHeaderType2 raw hops nextHop = Inr out \<and> relayed_as H p out hops (Some nextHop) \<and> length out = length raw"
    if "length nextHop = 16"
  proof -
    have "relayed_as H p ([f, hops] @ nextHop @ dst @ [ctx] @ dat) hops (Some nextHop)"
      using s assms(3) that by (auto intro!: relayed_asI [where f = f and tid = "Some tid"] simp: PathfinderM_def simp del: drop_bit_and)
    then show ?thesis using s(1,2,3) that rebuild_frame [of tid nextHop f h "dst @ [ctx] @ dat" hops] by simp
  qed
  have "relayed_as H p ([f AND 0x0F, hops] @ dst @ [ctx] @ dat) hops None"
    using s assms(3)
    by (auto intro!: relayed_asI [where f = f and tid = "Some tid"] simp: flags_rewrites PathfinderM_def simp del: drop_bit_and)
  then show "\<exists>buf out. stripHeaderType2 raw hops = Inr (buf, out) \<and> relayed_as H p out hops None \<and> length buf = length raw"
    using strip_frame [of tid f h "dst @ [ctx] @ dat" hops] s(1,2,3) by auto
qed

lemma HT1_relayed:
  assumes "Unpack H (raw_packet raw) = Some (p, None)" "p_HeaderType p \<noteq> HeaderType2" "unat hops < PathfinderM"
    "length nextHop = 16" "length raw + 16 \<le> MaxInboundPacketSize"
  shows "\<exists>out. insertHeaderType2 raw hops nextHop = Inr out \<and> relayed_as H p out hops (Some nextHop)"
proof -
  obtain f h dst ctx dat where s: "raw = [f, h] @ dst @ [ctx] @ dat" "length dst = 16" "unat h < 128" "\<not> is_HT2 f"
      "p = decoded H (raw_packet raw) f h None dst ctx dat"
    using assms(1) by (cases rule: Unpack_shape) (use assms(2) in \<open>auto simp del: drop_bit_and\<close>)
  have "relayed_as H p ([ht2_flags f, hops] @ nextHop @ dst @ [ctx] @ dat) hops (Some nextHop)"
    using s assms(3-5)
    by (auto intro!: relayed_asI [where f = f and tid = None] simp: flags_rewrites PathfinderM_def simp del: drop_bit_and)
  then show ?thesis using s(1) insert_frame [OF assms(4), of f h "dst @ [ctx] @ dat" hops] by simp
qed

section \<open>Properties\<close>




subsection \<open>MTU signalling\<close>

lemma signalling_bits:
  assumes "0 \<le> mtu" "mtu < 2 ^ 21" "mode < 8"
  shows "(push_bit 16 (uint ((word_of_int (drop_bit 16 mtu AND 0xFF) OR push_bit 5 mode :: byte) AND 0x1F))
      OR push_bit 8 (uint (word_of_int (drop_bit 8 mtu AND 0xFF) :: byte)))
      OR uint (word_of_int (mtu AND 0xFF) :: byte) = mtu" (is "?l = mtu")
    and "drop_bit 5 ((word_of_int (drop_bit 16 mtu AND 0xFF) OR push_bit 5 mode :: byte) AND 0xE0) = mode"
proof -
  have m: "(0x1F :: byte) = mask 5" "(0xE0 :: byte) = push_bit 5 (mask 3)" "(0xFF :: int) = mask 8"
    by (simp_all add: mask_eq_exp_minus_1 push_bit_eq_mult)
  have mb: "bit mtu n \<Longrightarrow> n < 21" for n
    using assms(1,2) by (metis bit_take_bit_iff take_bit_int_eq_self)
  have ob: "bit mode n \<Longrightarrow> n < 3" for n
    using bit_lt_pow [of mode 3 n] assms(3) by simp
  show "?l = mtu"
    unfolding m
  proof (rule bit_eqI)
    fix n
    show "bit ((push_bit 16 (uint ((word_of_int (drop_bit 16 mtu AND mask 8) OR push_bit 5 mode :: byte) AND mask 5))
      OR push_bit 8 (uint (word_of_int (drop_bit 8 mtu AND mask 8) :: byte)))
      OR uint (word_of_int (mtu AND mask 8) :: byte)) n = bit mtu n"
      using mb [of n] by (auto simp: bit_simps)
  qed
  show "drop_bit 5 ((word_of_int (drop_bit 16 mtu AND 0xFF) OR push_bit 5 mode :: byte) AND 0xE0) = mode"
    unfolding m
  proof (rule bit_word_eqI)
    fix n assume "n < LENGTH(8)"
    show "bit (drop_bit 5 ((word_of_int (drop_bit 16 mtu AND mask 8) OR push_bit 5 mode :: byte) AND push_bit 5 (mask 3))) n
        = bit mode n"
      using ob [of n] mb [of "n + 21"] by (auto simp: bit_simps algebra_simps)
  qed
qed

lemma mtuFromLRData_signalling:
  assumes "length pub = 64" "0 \<le> mtu" "mtu < 2 ^ 21" "mode < 8"
  shows "mtuFromLRData (pub @ signallingBytesMTU mtu mode @ r) = Some (mtu, mode)"
  using signalling_bits [OF assms(2-4)] assms(1)
  by (simp add: mtuFromLRData_def signallingBytesMTU_def lrECPubSize_def lrMTUSize_def nth_append Let_def)

lemma mtuFromLRData_range:
  "mtuFromLRData data = Some (mtu, mode) \<Longrightarrow> mode < 8"
proof -
  have "drop_bit 5 (b AND 0xE0) < (8 :: byte)" for b :: byte
  proof -
    have "drop_bit 5 (b AND 0xE0) = drop_bit 5 b AND 7" by simp
    also have "\<dots> \<le> 7" by (rule word_and_le1)
    also have "7 < (8 :: byte)" by simp
    finally show ?thesis .
  qed
  then show "mtuFromLRData data = Some (mtu, mode) \<Longrightarrow> mode < 8"
    by (auto simp: mtuFromLRData_def Let_def split: if_splits)
qed

text \<open>The link identifier covers the request's keys only: signalling bytes do not change it.\<close>

lemma decoded_linkid:
  assumes "p_Raw p = [f, h] @ (case tid of None \<Rightarrow> [] | Some t \<Rightarrow> t) @ dst @ [ctx] @ dat"
    "is_HT2 f = (tid \<noteq> None)" "\<And>t. tid = Some t \<Longrightarrow> length t = 16"
  shows "LinkIDFromLinkRequest H (decoded H p f h tid dst ctx dat) =
     Some (identity_TruncatedHash H ((f AND HashableFlagsMask) # dst @ [ctx] @ take 64 dat))"
proof -
  have "take (length ((f AND HashableFlagsMask) # dst @ [ctx] @ dat) - (length dat - 64))
          ((f AND HashableFlagsMask) # dst @ [ctx] @ dat)
        = (f AND HashableFlagsMask) # dst @ [ctx] @ take 64 dat" if "64 < length dat"
  proof -
    have "length ((f AND HashableFlagsMask) # dst @ [ctx] @ dat) - (length dat - 64)
          = length ((f AND HashableFlagsMask) # dst @ [ctx]) + 64" using that by simp
    moreover have "take (length xs + 64) (xs @ dat) = xs @ take 64 dat" for xs :: bytes by simp
    from this [of "(f AND HashableFlagsMask) # dst @ [ctx]"]
    have "take (length ((f AND HashableFlagsMask) # dst @ [ctx]) + 64) ((f AND HashableFlagsMask) # dst @ [ctx] @ dat)
          = (f AND HashableFlagsMask) # dst @ [ctx] @ take 64 dat" by simp
    ultimately show ?thesis by simp
  qed
  then show ?thesis
    using decoded_preimage(1) [OF assms] assms(1)
    by (simp add: LinkIDFromLinkRequest_def LinkRequestECPubSize_def Let_def del: drop_bit_and)
qed

lemma Unpack_hashValid:
  assumes "Unpack H (raw_packet raw) = Some (q, None)"
  shows "p_hashValid q"
  using assms
proof (cases rule: Unpack_shape)
  case (HT1 f h dst ctx dat)
  show ?thesis using HT1(6) by (simp add: decoded_def Let_def)
next
  case (HT2 f h tid dst ctx dat)
  show ?thesis using HT2(7) by (simp add: decoded_def Let_def)
qed

lemma unpacked_linkid:
  assumes "Unpack H (raw_packet raw) = Some (q, None)"
  shows "\<exists>lid. LinkIDFromLinkRequest H q = Some lid \<and> length lid = 16"
  using assms
proof (cases rule: Unpack_shape)
  case (HT1 f h dst ctx dat)
  then show ?thesis using decoded_linkid [of "raw_packet raw" f h None dst ctx dat]
    by (simp add: identity_TruncatedHash_def del: drop_bit_and)
next
  case (HT2 f h tid dst ctx dat)
  then show ?thesis using decoded_linkid [of "raw_packet raw" f h "Some tid" dst ctx dat]
    by (simp add: identity_TruncatedHash_def del: drop_bit_and)
qed

definition relay_limit :: "int option \<Rightarrow> int \<Rightarrow> int" where
  "relay_limit recvMTU nh = (case recvMTU of Some ph \<Rightarrow> if ph > 0 then min ph nh else nh | None \<Rightarrow> nh)"

lemma clamp_cases:
  assumes "length pub = 64" "length sg = 3" "mtuFromLRData (pub @ sg) = Some (pathMTU, mode)" "0 < pathMTU"
  shows "clampRelayedLinkRequestMTU (hdr @ pub @ sg) (pub @ sg) recvMTU outMTU =
    (case outMTU of
       Some nh \<Rightarrow> if nh \<le> 0 then hdr @ pub
                  else if pathMTU \<le> relay_limit recvMTU nh then hdr @ pub @ sg
                  else hdr @ pub @ signallingBytesMTU (relay_limit recvMTU nh) mode
     | None \<Rightarrow> hdr @ pub)"
  using assms by (auto simp: clampRelayedLinkRequestMTU_def lrMTUSize_def lrECPubSize_def relay_limit_def
      Let_def min_def split: option.splits)

text \<open>
  What the node forwards for a link request with MTU signalling: \<open>signalled p q limit\<close> says that
  \<open>q\<close> is the request of \<open>p\<close> with the same keys and link identifier, whose signalled MTU is the
  lower of the requested one and \<open>limit\<close>, with the mode bits kept.
\<close>

definition signalled :: "hashfn \<Rightarrow> packet \<Rightarrow> packet \<Rightarrow> int \<Rightarrow> bool" where
  "signalled H p q limit \<longleftrightarrow>
     take 64 (p_Data q) = take 64 (p_Data p) \<and> LinkIDFromLinkRequest H q = LinkIDFromLinkRequest H p
     \<and> map_option fst (mtuFromLRData (p_Data q)) = map_option (\<lambda>m. min (fst m) limit) (mtuFromLRData (p_Data p))
     \<and> map_option snd (mtuFromLRData (p_Data q)) = map_option snd (mtuFromLRData (p_Data p))"

definition same_header :: "packet \<Rightarrow> packet \<Rightarrow> bool" where
  "same_header p q \<longleftrightarrow> p_DestinationHash q = p_DestinationHash p \<and> p_PacketType q = p_PacketType p
     \<and> p_DestinationType q = p_DestinationType p \<and> p_Context q = p_Context p
     \<and> p_Hops q = p_Hops p \<and> p_TransportID q = p_TransportID p"

lemma frame_of_header:
  assumes "Unpack H (raw_packet raw) = Some (p, None)"
  obtains hdr where "raw = hdr @ p_Data p"
    "\<And>dat. length (hdr @ dat) \<le> MaxInboundPacketSize \<Longrightarrow>
       \<exists>q. Unpack H (raw_packet (hdr @ dat)) = Some (q, None) \<and> p_Data q = dat \<and> same_header p q
           \<and> (take 64 dat = take 64 (p_Data p) \<longrightarrow> LinkIDFromLinkRequest H q = LinkIDFromLinkRequest H p)"
  using assms
proof (cases rule: Unpack_shape)
  case (HT1 f h dst ctx dat)
  show ?thesis
  proof (rule that [of "[f, h] @ dst @ [ctx]"])
    fix dat' assume "length (([f, h] @ dst @ [ctx]) @ dat') \<le> MaxInboundPacketSize"
    then show "\<exists>q. Unpack H (raw_packet (([f, h] @ dst @ [ctx]) @ dat')) = Some (q, None) \<and> p_Data q = dat' \<and> same_header p q
           \<and> (take 64 dat' = take 64 (p_Data p) \<longrightarrow> LinkIDFromLinkRequest H q = LinkIDFromLinkRequest H p)"
      using HT1 Unpack_HT1 [of "raw_packet ([f, h] @ dst @ [ctx] @ dat')" f h dst ctx dat']
        decoded_linkid [of "raw_packet ([f, h] @ dst @ [ctx] @ dat')" f h None dst ctx dat']
        decoded_linkid [of "raw_packet raw" f h None dst ctx dat]
      by (simp add: same_header_def del: drop_bit_and)
  qed (use HT1 in simp)
next
  case (HT2 f h tid dst ctx dat)
  show ?thesis
  proof (rule that [of "[f, h] @ tid @ dst @ [ctx]"])
    fix dat' assume "length (([f, h] @ tid @ dst @ [ctx]) @ dat') \<le> MaxInboundPacketSize"
    then show "\<exists>q. Unpack H (raw_packet (([f, h] @ tid @ dst @ [ctx]) @ dat')) = Some (q, None) \<and> p_Data q = dat' \<and> same_header p q
           \<and> (take 64 dat' = take 64 (p_Data p) \<longrightarrow> LinkIDFromLinkRequest H q = LinkIDFromLinkRequest H p)"
      using HT2 Unpack_HT2 [of "raw_packet ([f, h] @ tid @ dst @ [ctx] @ dat')" f h tid dst ctx dat']
        decoded_linkid [of "raw_packet ([f, h] @ tid @ dst @ [ctx] @ dat')" f h "Some tid" dst ctx dat']
        decoded_linkid [of "raw_packet raw" f h "Some tid" dst ctx dat]
      by (simp add: same_header_def del: drop_bit_and)
  qed (use HT2 in simp)
qed

text \<open>
  A link request as forwarded: the signalling at its end may have changed, the keys, the destination
  and the link identifier have not.
\<close>

definition request_relayed_as :: "hashfn \<Rightarrow> packet \<Rightarrow> bytes \<Rightarrow> byte \<Rightarrow> bytes option \<Rightarrow> bool" where
  "request_relayed_as H p out hops tid \<longleftrightarrow>
     (\<exists>q. Unpack H (raw_packet out) = Some (q, None) \<and> p_DestinationHash q = p_DestinationHash p
          \<and> p_PacketType q = p_PacketType p \<and> take 64 (p_Data q) = take 64 (p_Data p)
          \<and> LinkIDFromLinkRequest H q = LinkIDFromLinkRequest H p \<and> p_Hops q = hops \<and> p_TransportID q = tid)"

lemma clamp_shape:
  assumes "length dat = length data"
  obtains dat' where "clampRelayedLinkRequestMTU (hdr @ dat) data recvMTU outMTU = hdr @ dat'"
    "take 64 dat' = take 64 dat" "length dat' \<le> length dat"
proof (cases "length data < 67")
  case True
  then show ?thesis using that [of dat] by (simp add: clampRelayedLinkRequestMTU_def lrECPubSize_def lrMTUSize_def)
next
  case False
  let ?c = "clampRelayedLinkRequestMTU (hdr @ dat) data recvMTU outMTU"
  have "?c \<in> {hdr @ dat, take (length (hdr @ dat) - 3) (hdr @ dat)}
      \<or> (\<exists>limit mode. ?c = take (length (hdr @ dat) - 3) (hdr @ dat) @ signallingBytesMTU limit mode)"
    by (auto simp: clampRelayedLinkRequestMTU_def lrMTUSize_def Let_def split: option.splits)
  moreover have "take (length (hdr @ dat) - 3) (hdr @ dat) = hdr @ take (length dat - 3) dat"
    using False assms by simp
  ultimately consider "?c = hdr @ dat" | "?c = hdr @ take (length dat - 3) dat"
    | limit mode where "?c = hdr @ take (length dat - 3) dat @ signallingBytesMTU limit mode"
    by auto
  moreover have m: "min 64 (length data - 3) = 64" "64 - min (length data) (length data - 3) = 0"
      "3 + min (length data) (length data - 3) = length data" using False by simp_all
  ultimately show ?thesis
  proof cases
    case 1
    then show ?thesis by (rule that) simp_all
  next
    case 2
    then show ?thesis by (rule that) (use m assms in simp_all)
  next
    case 3
    then show ?thesis by (rule that) (use m assms in \<open>simp_all add: signallingBytesMTU_def\<close>)
  qed
qed

lemma clamp_request_relayed:
  assumes "relayed_as H p out hops tid" "length data = length (p_Data p)"
  shows "request_relayed_as H p (clampRelayedLinkRequestMTU out data recvMTU outMTU) hops tid"
proof -
  obtain q where q: "Unpack H (raw_packet out) = Some (q, None)" "same_message H p q" "p_Hops q = hops" "p_TransportID q = tid"
    using assms(1) by (auto simp: relayed_as_def)
  obtain hdr where raw: "out = hdr @ p_Data q"
    and acc: "\<And>dat. length (hdr @ dat) \<le> MaxInboundPacketSize \<Longrightarrow>
       \<exists>q'. Unpack H (raw_packet (hdr @ dat)) = Some (q', None) \<and> p_Data q' = dat \<and> same_header q q'
           \<and> (take 64 dat = take 64 (p_Data q) \<longrightarrow> LinkIDFromLinkRequest H q' = LinkIDFromLinkRequest H q)"
    using frame_of_header [OF q(1)] by metis
  have le: "length out \<le> MaxInboundPacketSize" using q(1) by (cases rule: Unpack_shape) simp_all
  obtain dat' where d: "clampRelayedLinkRequestMTU (hdr @ p_Data q) data recvMTU outMTU = hdr @ dat'"
    "take 64 dat' = take 64 (p_Data q)" "length dat' \<le> length (p_Data q)"
    using clamp_shape [of "p_Data q" data hdr recvMTU outMTU] assms(2) q(2) by (auto simp: same_message_def)
  then have "length (hdr @ dat') \<le> MaxInboundPacketSize" using le raw by simp
  then show ?thesis using acc [of dat'] d raw q
    by (auto simp: request_relayed_as_def same_header_def same_message_def)
qed


definition sample_lr :: bytes where
  "sample_lr = [2, 0] @ replicate 16 9 @ [0] @ replicate 64 5 @ signallingBytesMTU 8192 1"

definition sample_lr_packet :: packet where
  "sample_lr_packet = decoded sample_hash (raw_packet sample_lr) 2 0 None (replicate 16 9) 0
     (replicate 64 5 @ signallingBytesMTU 8192 1)"

lemma sample_lr_unpacks: "Unpack sample_hash (raw_packet sample_lr) = Some (sample_lr_packet, None)"
  unfolding sample_lr_packet_def
  by (rule Unpack_HT1) (simp_all add: sample_lr_def packet_consts signallingBytesMTU_def)

lemma sample_lr_data:
  "length (p_Data sample_lr_packet) = 67" "mtuFromLRData (p_Data sample_lr_packet) = Some (8192, 1)"
  using mtuFromLRData_signalling [of "replicate 64 5" 8192 1 "[]"]
  by (simp_all add: sample_lr_packet_def signallingBytesMTU_def)


end
