(* ===== verification/Framing.thy ===== *)
theory Framing
  imports RNS_Prelude
begin

text \<open>
  Stream framing: the HDLC stream decoder of \<open>pkg/interfaces/hdlc_decoder.go\<close> with the encoders of
  \<open>tcp.go\<close>, the backbone decoder of \<open>pkg/backbone/hdlc.go\<close>, and the KISS decoder of
  \<open>kiss_decoder.go\<close> with the RNode framing of \<open>rnode_kiss.go\<close>. A decoder is a record of the Go
  fields; the callback \<open>onFrame\<close> is the list of payloads an operation delivers, in order
  (\<open>h_onFrame = False\<close> is a nil callback). The loops over the read buffer (\<open>feed\<close>) skip with
  \<open>bytes.IndexByte\<close>; they are proved equal to feeding one byte at a time.
\<close>

section \<open>The interface of a frame codec\<close>

text \<open>
  What the stream interfaces rely on: decoding a concatenation is decoding the parts in turn, and
  from an idle decoder an encoded acceptable payload delivers exactly that payload and leaves the
  decoder idle. It follows that any sequence of frames, cut into reads at arbitrary places,
  delivers exactly the payloads, in order.
\<close>

fun feed_chunks :: "('d \<Rightarrow> bytes \<Rightarrow> 'd \<times> bytes list) \<Rightarrow> 'd \<Rightarrow> bytes list \<Rightarrow> 'd \<times> bytes list" where
  "feed_chunks feed d [] = (d, [])"
| "feed_chunks feed d (c # cs) =
     (let (d1, f1) = feed d c; (d2, f2) = feed_chunks feed d1 cs in (d2, f1 @ f2))"

locale frame_codec =
  fixes enc :: "bytes \<Rightarrow> bytes"
    and feed :: "'d \<Rightarrow> bytes \<Rightarrow> 'd \<times> bytes list"
    and idle :: "'d \<Rightarrow> bool"
    and ok :: "'d \<Rightarrow> bytes \<Rightarrow> bool"
  assumes feed_Nil: "feed d [] = (d, [])"
    and feed_append: "feed d (a @ b) = (let (d1, f1) = feed d a; (d2, f2) = feed d1 b in (d2, f1 @ f2))"
    and feed_frame: "idle d \<Longrightarrow> ok d p \<Longrightarrow> \<exists>d'. feed d (enc p) = (d', [p]) \<and> idle d' \<and> ok d' = ok d"
begin

lemma chunking: "feed_chunks feed d cs = feed d (concat cs)"
  by (induction cs arbitrary: d) (simp_all add: feed_Nil feed_append)

lemma frames:
  "idle d \<Longrightarrow> \<forall>p \<in> set ps. ok d p \<Longrightarrow> \<exists>d'. feed d (concat (map enc ps)) = (d', ps) \<and> idle d'"
proof (induction ps arbitrary: d)
  case Nil
  then show ?case by (simp add: feed_Nil)
next
  case (Cons p ps)
  obtain d1 where d1: "feed d (enc p) = (d1, [p])" "idle d1" "ok d1 = ok d"
    using feed_frame [of d p] Cons.prems by auto
  then obtain d2 where "feed d1 (concat (map enc ps)) = (d2, ps)" "idle d2"
    using Cons.IH [of d1] Cons.prems by auto
  with d1 show ?case by (simp add: feed_append)
qed

lemma stream:
  assumes "idle d" "\<forall>p \<in> set ps. ok d p" "concat cs = concat (map enc ps)"
  shows "\<exists>d'. feed_chunks feed d cs = (d', ps) \<and> idle d'"
  using frames [OF assms(1,2)] assms(3) by (simp add: chunking)

end

text \<open>Feeding a byte at a time and collecting the delivered frames.\<close>

fun run_bytes :: "('d \<Rightarrow> byte \<Rightarrow> 'd \<times> bytes list) \<Rightarrow> 'd \<Rightarrow> bytes \<Rightarrow> 'd \<times> bytes list" where
  "run_bytes step d [] = (d, [])"
| "run_bytes step d (b # bs) =
     (let (d1, f1) = step d b; (d2, f2) = run_bytes step d1 bs in (d2, f1 @ f2))"

lemma run_bytes_append:
  "run_bytes step d (a @ b) =
     (let (d1, f1) = run_bytes step d a; (d2, f2) = run_bytes step d1 b in (d2, f1 @ f2))"
  by (induction a arbitrary: d) (auto split: prod.splits)

text \<open>A prefix on which the decoder is stable and silent can be skipped.\<close>

lemma run_bytes_skip:
  "(\<And>b. b \<in> set a \<Longrightarrow> step d b = (d, [])) \<Longrightarrow> run_bytes step d (a @ bs) = run_bytes step d bs"
  by (induction a) auto

lemma run_bytes_skip_all:
  "(\<And>b. b \<in> set a \<Longrightarrow> step d b = (d, [])) \<Longrightarrow> run_bytes step d a = (d, [])"
  using run_bytes_skip [of a step d "[]"] by simp

text \<open>
  The length of the longest prefix free of two delimiters, which both decoder loops compute with
  two calls of \<open>bytes.IndexByte\<close>.
\<close>

definition next_special :: "byte \<Rightarrow> byte \<Rightarrow> bytes \<Rightarrow> nat" where
  "next_special f e buf =
     (let n0 = length buf;
          n1 = (case index_byte buf f of Some i \<Rightarrow> if i < n0 then i else n0 | None \<Rightarrow> n0);
          n2 = (case index_byte buf e of Some i \<Rightarrow> if i < n1 then i else n1 | None \<Rightarrow> n1)
      in n2)"

lemma next_special_le: "next_special f e buf \<le> length buf"
  using index_byte_Some [of buf f] index_byte_Some [of buf e]
  by (auto simp: next_special_def Let_def split: option.splits)

lemma not_in_shorter_take: "c \<notin> set (take i xs) \<Longrightarrow> j \<le> i \<Longrightarrow> c \<notin> set (take j xs)"
  using set_take_subset_set_take [of j i xs] by blast

lemma next_special_bounds:
  "index_byte buf f = Some i \<Longrightarrow> next_special f e buf \<le> i"
  "index_byte buf e = Some i \<Longrightarrow> next_special f e buf \<le> i"
  by (auto simp: next_special_def Let_def dest: index_byte_Some split: option.split)

lemma next_special_clean:
  assumes "b \<in> set (take (next_special f e buf) buf)"
  shows "b \<noteq> f" "b \<noteq> e"
proof -
  have *: "c \<notin> set (take (next_special f e buf) buf)"
    if "\<And>i. index_byte buf c = Some i \<Longrightarrow> next_special f e buf \<le> i" for c
  proof (cases "index_byte buf c")
    case None
    then show ?thesis by (metis in_set_takeD index_byte_None)
  next
    case (Some i)
    then show ?thesis using index_byte_Some [OF Some] not_in_shorter_take [of c i buf] that [OF Some] by simp
  qed
  show "b \<noteq> f" using * [of f] next_special_bounds(1) assms by metis
  show "b \<noteq> e" using * [of e] next_special_bounds(2) assms by metis
qed

section \<open>Block-wise decoder loops\<close>

text \<open>
  The common shape of the two HDLC \<open>Feed\<close> loops: skip to the next flag outside a frame, append
  the run up to the next delimiter inside one, and feed delimiters and escaped bytes singly. The
  laws relate the block append \<open>app\<close> to the byte step; the loop then equals byte-wise feeding.
\<close>

locale block_decoder =
  fixes flag_b esc_b :: byte
    and inF esc :: "'d \<Rightarrow> bool"
    and app :: "'d \<Rightarrow> bytes \<Rightarrow> 'd"
    and step :: "'d \<Rightarrow> byte \<Rightarrow> 'd \<times> bytes list"
    and feed :: "'d \<Rightarrow> bytes \<Rightarrow> 'd \<times> bytes list"
  assumes loop_Nil: "feed d [] = (d, [])"
    and loop_escape: "esc d \<Longrightarrow> feed d (c # cs) =
        (let (d1, f1) = step d c; (d2, f2) = feed d1 cs in (d2, f1 @ f2))"
    and loop_idle: "\<not> esc d \<Longrightarrow> \<not> inF d \<Longrightarrow> feed d (c # cs) =
        (case index_byte (c # cs) flag_b of None \<Rightarrow> (d, [])
         | Some i \<Rightarrow> (let (d1, f1) = step d ((c # cs) ! i); (d2, f2) = feed d1 (drop (i + 1) (c # cs))
                     in (d2, f1 @ f2)))"
    and loop_run: "\<not> esc d \<Longrightarrow> inF d \<Longrightarrow> next_special flag_b esc_b (c # cs) = n \<Longrightarrow> 0 < n \<Longrightarrow>
        feed d (c # cs) = feed (app d (take n (c # cs))) (drop n (c # cs))"
    and loop_special: "\<not> esc d \<Longrightarrow> inF d \<Longrightarrow> next_special flag_b esc_b (c # cs) = 0 \<Longrightarrow> feed d (c # cs) =
        (let (d1, f1) = step d c; (d2, f2) = feed d1 cs in (d2, f1 @ f2))"
    and idle_skip: "\<not> inF d \<Longrightarrow> b \<noteq> flag_b \<Longrightarrow> step d b = (d, [])"
    and data_byte: "inF d \<Longrightarrow> \<not> esc d \<Longrightarrow> b \<noteq> flag_b \<Longrightarrow> b \<noteq> esc_b \<Longrightarrow> step d b = (app d [b], [])"
    and app_more: "inF d \<Longrightarrow> \<not> esc d \<Longrightarrow> inF (app d [b]) \<Longrightarrow> bs \<noteq> [] \<Longrightarrow>
        \<not> esc (app d [b]) \<and> app (app d [b]) bs = app d (b # bs)"
    and app_overflow: "inF d \<Longrightarrow> \<not> esc d \<Longrightarrow> \<not> inF (app d [b]) \<Longrightarrow> app d (b # bs) = app d [b]"
begin

lemma run_clean:
  assumes "inF d" "\<not> esc d" "\<And>b. b \<in> set r \<Longrightarrow> b \<noteq> flag_b \<and> b \<noteq> esc_b" "r \<noteq> []"
  shows "run_bytes step d r = (app d r, [])"
  using assms
proof (induction r arbitrary: d)
  case (Cons b bs)
  have s: "step d b = (app d [b], [])" using Cons.prems by (simp add: data_byte)
  show ?case
  proof (cases "inF (app d [b]) \<and> bs \<noteq> []")
    case True
    then have "\<not> esc (app d [b]) \<and> app (app d [b]) bs = app d (b # bs)"
      using app_more Cons.prems by blast
    then show ?thesis using s True Cons.IH [of "app d [b]"] Cons.prems(3) by simp
  next
    case False
    have "run_bytes step (app d [b]) bs = (app d [b], [])"
      by (rule run_bytes_skip_all) (use False Cons.prems(3) in \<open>auto intro!: idle_skip\<close>)
    moreover have "app d (b # bs) = app d [b]" using False Cons.prems app_overflow by blast
    ultimately show ?thesis using s by simp
  qed
qed simp

lemma skip_to_flag:
  assumes "\<not> inF d" "index_byte buf flag_b = Some i"
  shows "run_bytes step d buf = run_bytes step d (buf ! i # drop (i + 1) buf)"
proof -
  have i: "i < length buf" "flag_b \<notin> set (take i buf)" using index_byte_Some [OF assms(2)] by auto
  have "buf = take i buf @ buf ! i # drop (i + 1) buf" using i(1) id_take_nth_drop by fastforce
  moreover have "run_bytes step d (take i buf @ buf ! i # drop (i + 1) buf)
      = run_bytes step d (buf ! i # drop (i + 1) buf)"
    by (rule run_bytes_skip) (use i(2) assms(1) in \<open>auto intro!: idle_skip\<close>)
  ultimately show ?thesis by simp
qed

lemma bytewise: "feed d buf = run_bytes step d buf"
proof (induction buf arbitrary: d rule: length_induct)
  case (1 buf)
  show ?case
  proof (cases buf)
    case Nil
    then show ?thesis by (simp add: loop_Nil)
  next
    case (Cons c cs)
    have IH: "length xs \<le> length cs \<Longrightarrow> feed e xs = run_bytes step e xs" for e xs
      using 1 Cons by (simp add: less_Suc_eq_le)
    let ?n = "next_special flag_b esc_b (c # cs)"
    consider "esc d" | "\<not> esc d" "\<not> inF d" | "\<not> esc d" "inF d" "?n = 0" | "\<not> esc d" "inF d" "0 < ?n"
      by blast
    then show ?thesis
    proof cases
      case 1
      then show ?thesis using Cons IH by (simp add: loop_escape split: prod.splits)
    next
      case 2
      show ?thesis
      proof (cases "index_byte (c # cs) flag_b")
        case None
        have "run_bytes step d (c # cs) = (d, [])"
          by (rule run_bytes_skip_all) (use None 2 index_byte_None [of "c # cs" flag_b] in \<open>auto intro!: idle_skip\<close>)
        then show ?thesis using Cons None 2 by (simp add: loop_idle del: index_byte.simps run_bytes.simps)
      next
        case (Some i)
        then show ?thesis
          using Cons IH [of "drop (i + 1) (c # cs)"] 2 skip_to_flag [OF 2(2) Some]
          by (simp add: loop_idle split: prod.splits del: index_byte.simps)
      qed
    next
      case 3
      then show ?thesis using Cons IH by (simp add: loop_special split: prod.splits)
    next
      case 4
      have "run_bytes step d (take ?n (c # cs)) = (app d (take ?n (c # cs)), [])"
        using 4 next_special_clean [of _ flag_b esc_b "c # cs"] by (intro run_clean) auto
      then have "run_bytes step d (c # cs) = run_bytes step (app d (take ?n (c # cs))) (drop ?n (c # cs))"
        using run_bytes_append [of step d "take ?n (c # cs)" "drop ?n (c # cs)"]
        by (simp split: prod.splits del: run_bytes.simps)
      then show ?thesis
        using Cons 4 IH [of "drop ?n (c # cs)"] loop_run [OF 4(1,2) refl 4(3)] by simp
    qed
  qed
qed

end

end
