(* ===== verification/HDLC.thy ===== *)
theory HDLC
  imports Framing
begin

text \<open>
  HDLC framing: \<open>pkg/interfaces/hdlc_decoder.go\<close> (the stream decoder of the TCP, serial, pipe and
  other stream interfaces), the escaping functions of \<open>pkg/interfaces/tcp.go\<close>, and the separate
  decoder of \<open>pkg/backbone/hdlc.go\<close>. Shown: the block-wise \<open>feed\<close> loops terminate and equal
  byte-wise feeding, framing round-trips for every chunking of the stream, buffers and delivered
  frames stay within their bounds for arbitrary input.
\<close>

section \<open>Escaping\<close>

definition HDLCFlag :: byte where "HDLCFlag = 0x7E"
definition HDLCEsc :: byte where "HDLCEsc = 0x7D"
definition HDLCEscMask :: byte where "HDLCEscMask = 0x20"
definition reticulumHeaderMinSize :: int where "reticulumHeaderMinSize = 19"

lemmas hdlc_consts = HDLCFlag_def HDLCEsc_def HDLCEscMask_def

fun escapeHDLC :: "bytes \<Rightarrow> bytes" where
  "escapeHDLC [] = []"
| "escapeHDLC (b # bs) =
     (if b = HDLCFlag \<or> b = HDLCEsc then [HDLCEsc, b XOR HDLCEscMask] else [b]) @ escapeHDLC bs"

text \<open>The loop of \<open>unescapeHDLC\<close>, with its local \<open>escape\<close>.\<close>

fun unescapeHDLC_loop :: "bool \<Rightarrow> bytes \<Rightarrow> bytes" where
  "unescapeHDLC_loop escape [] = []"
| "unescapeHDLC_loop escape (b # bs) =
     (if escape then (b XOR HDLCEscMask) # unescapeHDLC_loop False bs
      else if b = HDLCEsc then unescapeHDLC_loop True bs
      else b # unescapeHDLC_loop False bs)"

definition unescapeHDLC :: "bytes \<Rightarrow> bytes" where
  "unescapeHDLC data = unescapeHDLC_loop False data"

definition appendFrameHDLC :: "bytes \<Rightarrow> bytes \<Rightarrow> bytes" where
  "appendFrameHDLC dst payload = dst @ [HDLCFlag] @ escapeHDLC payload @ [HDLCFlag]"

section \<open>The stream decoder of the interfaces\<close>

record hdlcStreamDecoder =
  h_mtu :: int
  h_minPayload :: int
  h_inFrame :: bool
  h_escape :: bool
  h_toggle :: bool
  h_data :: bytes
  h_maxFrame :: int
  h_onFrame :: bool

definition newHDLCStreamDecoderOpts :: "int \<Rightarrow> bool \<Rightarrow> int \<Rightarrow> bool \<Rightarrow> hdlcStreamDecoder" where
  "newHDLCStreamDecoderOpts mtu toggle minPayload onFrame =
     (let maxFrame = 2 * mtu + 32; maxFrame = (if maxFrame < 256 then 2048 else maxFrame)
      in \<lparr> h_mtu = mtu, h_minPayload = minPayload, h_inFrame = False, h_escape = False,
           h_toggle = toggle, h_data = [], h_maxFrame = maxFrame, h_onFrame = onFrame \<rparr>)"

definition newHDLCStreamDecoder :: "int \<Rightarrow> bool \<Rightarrow> hdlcStreamDecoder" where
  "newHDLCStreamDecoder mtu onFrame = newHDLCStreamDecoderOpts mtu False 0 onFrame"

definition newHDLCToggleStreamDecoder :: "int \<Rightarrow> bool \<Rightarrow> hdlcStreamDecoder" where
  "newHDLCToggleStreamDecoder mtu onFrame = newHDLCStreamDecoderOpts mtu True 0 onFrame"

definition newTCPHDLCStreamDecoder :: "int \<Rightarrow> bool \<Rightarrow> hdlcStreamDecoder" where
  "newTCPHDLCStreamDecoder mtu onFrame = newHDLCStreamDecoderOpts mtu True reticulumHeaderMinSize onFrame"

definition hdlc_reset :: "hdlcStreamDecoder \<Rightarrow> hdlcStreamDecoder" where
  "hdlc_reset d = d\<lparr> h_inFrame := False, h_escape := False, h_data := [] \<rparr>"

definition hdlc_limit :: "hdlcStreamDecoder \<Rightarrow> int" where
  "hdlc_limit d = (if h_mtu d > 0 \<and> h_mtu d < h_maxFrame d then h_mtu d else h_maxFrame d)"

definition hdlc_appendRun :: "hdlcStreamDecoder \<Rightarrow> bytes \<Rightarrow> hdlcStreamDecoder" where
  "hdlc_appendRun d run =
     (if int (length (h_data d)) + int (length run) > hdlc_limit d
      then d\<lparr> h_data := [], h_inFrame := False, h_escape := False \<rparr>
      else d\<lparr> h_data := h_data d @ run \<rparr>)"

definition hdlc_dropPartial :: "hdlcStreamDecoder \<Rightarrow> hdlcStreamDecoder \<times> bool" where
  "hdlc_dropPartial d =
     (if \<not> h_inFrame d \<and> h_data d = [] \<and> \<not> h_escape d then (d, False)
      else
        (let had = h_inFrame d \<or> h_data d \<noteq> [] \<or> h_escape d; d1 = hdlc_reset d;
             d2 = (if \<not> h_toggle d1 then d1\<lparr> h_inFrame := False \<rparr> else d1)
         in (d2, had)))"

definition hdlc_delivers :: "hdlcStreamDecoder \<Rightarrow> bool" where
  "hdlc_delivers d \<longleftrightarrow>
     h_onFrame d \<and> (h_mtu d \<le> 0 \<or> int (length (h_data d)) \<le> h_mtu d)
     \<and> \<not> (h_minPayload d > 0 \<and> int (length (h_data d)) \<le> h_minPayload d)"

definition hdlc_feedByte :: "hdlcStreamDecoder \<Rightarrow> byte \<Rightarrow> hdlcStreamDecoder \<times> bytes list" where
  "hdlc_feedByte d b =
     (if b = HDLCFlag then
        (d\<lparr> h_data := [], h_inFrame := (if h_toggle d then \<not> h_inFrame d else True), h_escape := False \<rparr>,
         if h_inFrame d \<and> h_data d \<noteq> [] \<and> hdlc_delivers d then [h_data d] else [])
      else if \<not> h_inFrame d then (d, [])
      else if b = HDLCEsc then (d\<lparr> h_escape := True \<rparr>, [])
      else
        (let b' = (if h_escape d then b XOR HDLCEscMask else b); d1 = d\<lparr> h_escape := False \<rparr>
         in if int (length (h_data d1)) \<ge> hdlc_limit d1
            then (d1\<lparr> h_data := [], h_inFrame := False, h_escape := False \<rparr>, [])
            else (d1\<lparr> h_data := h_data d1 @ [b'] \<rparr>, [])))"

function hdlc_feed :: "hdlcStreamDecoder \<Rightarrow> bytes \<Rightarrow> hdlcStreamDecoder \<times> bytes list" where
  "hdlc_feed d [] = (d, [])"
| "hdlc_feed d (c # cs) =
     (let buf = c # cs in
      if h_escape d then
        (let (d1, f1) = hdlc_feedByte d c; (d2, f2) = hdlc_feed d1 cs in (d2, f1 @ f2))
      else if \<not> h_inFrame d then
        (case index_byte buf HDLCFlag of
           None \<Rightarrow> (d, [])
         | Some i \<Rightarrow>
             (let (d1, f1) = hdlc_feedByte d (buf ! i); (d2, f2) = hdlc_feed d1 (drop (i + 1) buf)
              in (d2, f1 @ f2)))
      else
        (let next = next_special HDLCFlag HDLCEsc buf in
         if next > 0 then hdlc_feed (hdlc_appendRun d (take next buf)) (drop next buf)
         else (let (d1, f1) = hdlc_feedByte d c; (d2, f2) = hdlc_feed d1 cs in (d2, f1 @ f2))))"
  by pat_completeness auto
termination by (relation "measure (\<lambda>(d, buf). length buf)") auto

section \<open>Block-wise feeding equals byte-wise feeding\<close>

lemma hdlc_limit_upd [simp]:
  "hdlc_limit (d\<lparr> h_escape := e \<rparr>) = hdlc_limit d" "hdlc_limit (d\<lparr> h_inFrame := i \<rparr>) = hdlc_limit d"
  "hdlc_limit (d\<lparr> h_data := x \<rparr>) = hdlc_limit d"
  by (simp_all add: hdlc_limit_def)

lemma hdlc_no_escape: "\<not> h_escape d \<Longrightarrow> d\<lparr> h_escape := False \<rparr> = d"
  by (cases d) simp

lemma hdlc_idle_skip: "\<not> h_inFrame d \<Longrightarrow> b \<noteq> HDLCFlag \<Longrightarrow> hdlc_feedByte d b = (d, [])"
  by (simp add: hdlc_feedByte_def)

lemma hdlc_data_byte:
  assumes "h_inFrame d" "\<not> h_escape d" "b \<noteq> HDLCFlag" "b \<noteq> HDLCEsc"
  shows "hdlc_feedByte d b = (hdlc_appendRun d [b], [])"
  using assms by (simp add: hdlc_feedByte_def hdlc_appendRun_def Let_def hdlc_no_escape)

lemma hdlc_appendRun_more:
  "h_inFrame (hdlc_appendRun d [b]) \<Longrightarrow> bs \<noteq> [] \<Longrightarrow> \<not> h_escape d \<Longrightarrow>
     \<not> h_escape (hdlc_appendRun d [b]) \<and> hdlc_appendRun (hdlc_appendRun d [b]) bs = hdlc_appendRun d (b # bs)"
  by (cases "int (length (h_data d)) + 1 > hdlc_limit d") (simp_all add: hdlc_appendRun_def)

lemma hdlc_appendRun_overflow:
  "h_inFrame d \<Longrightarrow> \<not> h_inFrame (hdlc_appendRun d [b]) \<Longrightarrow> hdlc_appendRun d (b # bs) = hdlc_appendRun d [b]"
  by (cases "int (length (h_data d)) + 1 > hdlc_limit d") (simp_all add: hdlc_appendRun_def)

interpretation hdlc_block:
  block_decoder HDLCFlag HDLCEsc h_inFrame h_escape hdlc_appendRun hdlc_feedByte hdlc_feed
  by unfold_locales
    (simp_all add: Let_def hdlc_idle_skip hdlc_data_byte hdlc_appendRun_more
      del: index_byte.simps, metis hdlc_appendRun_overflow)

lemmas hdlc_feed_bytes = hdlc_block.bytewise

section \<open>Framing\<close>

definition hdlc_idle :: "hdlcStreamDecoder \<Rightarrow> bool" where
  "hdlc_idle d \<longleftrightarrow> h_data d = [] \<and> \<not> h_escape d \<and> (h_toggle d \<longrightarrow> \<not> h_inFrame d)"

text \<open>A payload the decoder delivers: not empty, above the minimum, within the assembly limit.\<close>

definition hdlc_ok :: "hdlcStreamDecoder \<Rightarrow> bytes \<Rightarrow> bool" where
  "hdlc_ok d p \<longleftrightarrow> h_onFrame d \<and> p \<noteq> [] \<and> int (length p) \<le> hdlc_limit d
     \<and> (h_minPayload d > 0 \<longrightarrow> int (length p) > h_minPayload d)"

lemma hdlc_special [simp]:
  "HDLCFlag \<noteq> HDLCEsc" "HDLCEsc \<noteq> HDLCFlag"
  "HDLCFlag XOR HDLCEscMask \<noteq> HDLCFlag" "HDLCFlag XOR HDLCEscMask \<noteq> HDLCEsc"
  "HDLCEsc XOR HDLCEscMask \<noteq> HDLCFlag" "HDLCEsc XOR HDLCEscMask \<noteq> HDLCEsc"
  "HDLCFlag \<noteq> HDLCFlag XOR HDLCEscMask" "HDLCFlag \<noteq> HDLCEsc XOR HDLCEscMask"
  "(b XOR HDLCEscMask) XOR HDLCEscMask = b"
  by (simp_all add: hdlc_consts xor.assoc)

lemma unescape_escape_HDLC: "unescapeHDLC_loop False (escapeHDLC p) = p"
  by (induction p) auto

lemma escapeHDLC_no_flag: "HDLCFlag \<notin> set (escapeHDLC p)"
  by (induction p) auto

text \<open>An escaped payload that fits is assembled as it is.\<close>

lemma hdlc_assemble:
  assumes "h_inFrame d" "\<not> h_escape d" "int (length (h_data d)) + int (length p) \<le> hdlc_limit d"
  shows "run_bytes hdlc_feedByte d (escapeHDLC p) = (d\<lparr> h_data := h_data d @ p \<rparr>, [])"
  using assms
proof (induction p arbitrary: d)
  case (Cons b p)
  let ?d1 = "d\<lparr> h_data := h_data d @ [b] \<rparr>"
  have "hdlc_limit ?d1 = hdlc_limit d" by (simp add: hdlc_limit_def)
  then have IH: "run_bytes hdlc_feedByte ?d1 (escapeHDLC p) = (?d1\<lparr> h_data := h_data ?d1 @ p \<rparr>, [])"
    using Cons.prems by (intro Cons.IH) auto
  have esc: "(d\<lparr> h_escape := True \<rparr>)\<lparr> h_escape := False \<rparr> = d" using Cons.prems(2) by (cases d) simp
  show ?case
  proof (cases "b = HDLCFlag \<or> b = HDLCEsc")
    case True
    then have "hdlc_feedByte d HDLCEsc = (d\<lparr> h_escape := True \<rparr>, [])"
      "hdlc_feedByte (d\<lparr> h_escape := True \<rparr>) (b XOR HDLCEscMask) = (?d1, [])"
      using Cons.prems esc hdlc_no_escape [of d]
      by (auto simp: hdlc_feedByte_def Let_def)
    then show ?thesis using IH True by simp
  next
    case False
    then have "hdlc_feedByte d b = (?d1, [])"
      using Cons.prems by (simp add: hdlc_data_byte hdlc_appendRun_def)
    then show ?thesis using IH False by simp
  qed
qed simp

lemma hdlc_frame:
  assumes "hdlc_idle d" "hdlc_ok d p"
  shows "\<exists>d'. run_bytes hdlc_feedByte d (appendFrameHDLC [] p) = (d', [p]) \<and> hdlc_idle d' \<and> hdlc_ok d' = hdlc_ok d"
proof -
  let ?d1 = "d\<lparr> h_data := [], h_inFrame := True, h_escape := False \<rparr>"
  let ?d2 = "?d1\<lparr> h_data := p \<rparr>"
  let ?d3 = "d\<lparr> h_data := [], h_inFrame := (if h_toggle d then False else True), h_escape := False \<rparr>"
  have s1: "hdlc_feedByte d HDLCFlag = (?d1, [])"
    using assms(1) by (auto simp: hdlc_feedByte_def hdlc_idle_def)
  have lim: "hdlc_limit ?d1 = hdlc_limit d" by (simp add: hdlc_limit_def)
  have s2: "run_bytes hdlc_feedByte ?d1 (escapeHDLC p) = (?d2, [])"
    using hdlc_assemble [of ?d1 p] assms(2) lim by (simp add: hdlc_ok_def)
  have "hdlc_delivers ?d2"
    using assms(2) by (auto simp: hdlc_ok_def hdlc_delivers_def hdlc_limit_def split: if_splits)
  then have s3: "hdlc_feedByte ?d2 HDLCFlag = (?d3, [p])"
    using assms(2) by (simp add: hdlc_feedByte_def hdlc_ok_def)
  have "hdlc_idle ?d3" "hdlc_ok ?d3 = hdlc_ok d"
    by (auto simp: hdlc_idle_def hdlc_ok_def hdlc_limit_def fun_eq_iff)
  then show ?thesis using s1 s2 s3 by (simp add: appendFrameHDLC_def run_bytes_append)
qed

interpretation hdlc_codec: frame_codec "appendFrameHDLC []" hdlc_feed hdlc_idle hdlc_ok
  by unfold_locales (simp_all add: hdlc_feed_bytes run_bytes_append hdlc_frame)

section \<open>Bounds\<close>

definition hdlc_inv :: "hdlcStreamDecoder \<Rightarrow> bool" where
  "hdlc_inv d \<longleftrightarrow> int (length (h_data d)) \<le> hdlc_limit d \<and> (h_escape d \<longrightarrow> h_inFrame d)
     \<and> (\<not> h_inFrame d \<longrightarrow> h_data d = [])"

definition hdlc_frame_ok :: "hdlcStreamDecoder \<Rightarrow> bytes \<Rightarrow> bool" where
  "hdlc_frame_ok d f \<longleftrightarrow> h_onFrame d \<and> f \<noteq> [] \<and> int (length f) \<le> hdlc_limit d
     \<and> (h_minPayload d > 0 \<longrightarrow> h_minPayload d < int (length f))"

text \<open>The fields set by the constructors never change.\<close>

definition hdlc_config :: "hdlcStreamDecoder \<Rightarrow> int \<times> int \<times> bool \<times> int \<times> bool" where
  "hdlc_config d = (h_mtu d, h_minPayload d, h_toggle d, h_maxFrame d, h_onFrame d)"

lemma hdlc_feedByte_config: "hdlc_config (fst (hdlc_feedByte d b)) = hdlc_config d"
  by (simp add: hdlc_feedByte_def hdlc_config_def Let_def)

lemma hdlc_config_frame_ok:
  "hdlc_config d' = hdlc_config d \<Longrightarrow> hdlc_frame_ok d' = hdlc_frame_ok d"
  "hdlc_config d' = hdlc_config d \<Longrightarrow> hdlc_limit d' = hdlc_limit d"
  by (simp_all add: hdlc_config_def hdlc_frame_ok_def hdlc_limit_def fun_eq_iff)

lemma hdlc_feedByte_inv:
  assumes "hdlc_inv d"
  shows "hdlc_inv (fst (hdlc_feedByte d b))" "\<forall>f \<in> set (snd (hdlc_feedByte d b)). hdlc_frame_ok d f"
proof -
  have "0 \<le> hdlc_limit d" using assms by (simp add: hdlc_inv_def)
  then show "hdlc_inv (fst (hdlc_feedByte d b))"
    using assms by (simp add: hdlc_feedByte_def hdlc_inv_def Let_def) blast
  show "\<forall>f \<in> set (snd (hdlc_feedByte d b)). hdlc_frame_ok d f"
    using assms by (simp add: hdlc_feedByte_def hdlc_inv_def hdlc_frame_ok_def hdlc_delivers_def Let_def)
qed

lemma hdlc_run_inv:
  "hdlc_inv d \<Longrightarrow> run_bytes hdlc_feedByte d bs = (d', fs) \<Longrightarrow>
     hdlc_inv d' \<and> hdlc_config d' = hdlc_config d \<and> (\<forall>f \<in> set fs. hdlc_frame_ok d f)"
proof (induction bs arbitrary: d fs)
  case (Cons b bs)
  obtain d1 f1 where 1: "hdlc_feedByte d b = (d1, f1)" by fastforce
  obtain f2 where 2: "run_bytes hdlc_feedByte d1 bs = (d', f2)" "fs = f1 @ f2"
    using Cons.prems(2) 1 by (auto split: prod.splits)
  have inv: "hdlc_inv d1" "\<forall>f \<in> set f1. hdlc_frame_ok d f" "hdlc_config d1 = hdlc_config d"
    using hdlc_feedByte_inv [OF Cons.prems(1), of b] hdlc_feedByte_config [of d b] 1 by simp_all
  then show ?case using Cons.IH [OF inv(1) 2(1)] 2(2) hdlc_config_frame_ok(1) [OF inv(3)] by auto
qed simp

section \<open>Properties\<close>

text \<open>
  C26: the block-wise decoder loop is equivalent to feeding single bytes, in every decoder state and
  for every input, and how the stream is cut into reads does not matter: the same frames are
  delivered and the same state is reached.
\<close>

theorem hdlc_feed_chunk_independent:
  "hdlc_feed d buf = run_bytes hdlc_feedByte d buf
   \<and> feed_chunks hdlc_feed d chunks = run_bytes hdlc_feedByte d (concat chunks)"
  by (simp add: hdlc_codec.chunking hdlc_feed_bytes)

text \<open>
  C4: HDLC framing round-trips over a stream. From an idle decoder (of either flag mode), a
  sequence of acceptable payloads, each framed by \<open>appendFrameHDLC\<close> and read in arbitrary chunks,
  is delivered exactly, in order, and leaves the decoder idle.
\<close>

theorem hdlc_stream_roundtrip:
  assumes "hdlc_idle d" "\<forall>p \<in> set payloads. hdlc_ok d p"
    "concat chunks = concat (map (appendFrameHDLC []) payloads)"
  shows "\<exists>d'. feed_chunks hdlc_feed d chunks = (d', payloads) \<and> hdlc_idle d'"
  using assms by (rule hdlc_codec.stream)

theorem hdlc_stream_roundtrip_witness:
  "\<exists>d'. feed_chunks hdlc_feed (newHDLCStreamDecoder 500 True)
          [[0x7E, 1, 0x7D], [0x5E, 0x7E, 0x7E], [], [0x7D, 0x5D, 2, 0x7E]] = (d', [[1, 0x7E], [0x7D, 2]])
        \<and> hdlc_idle d'"
  by (rule hdlc_stream_roundtrip)
    (simp_all add: newHDLCStreamDecoder_def newHDLCStreamDecoderOpts_def hdlc_idle_def hdlc_ok_def hdlc_limit_def
      appendFrameHDLC_def hdlc_consts)

text \<open>
  C27: on arbitrary input the assembly buffer never exceeds its limit (the MTU, or the frame cap
  where no MTU is set), and every delivered frame is not empty, fits that limit and is longer than
  the configured minimum. This holds from every decoder the constructors build.
\<close>

theorem hdlc_feed_bounded:
  assumes "feed_chunks hdlc_feed (newHDLCStreamDecoderOpts mtu toggle minPayload onFrame) chunks = (d', frames)"
  shows "int (length (h_data d')) \<le> hdlc_limit (newHDLCStreamDecoderOpts mtu toggle minPayload onFrame)
    \<and> (\<forall>f \<in> set frames. f \<noteq> [] \<and> (mtu > 0 \<longrightarrow> int (length f) \<le> mtu) \<and> (minPayload > 0 \<longrightarrow> minPayload < int (length f)))"
proof -
  let ?d = "newHDLCStreamDecoderOpts mtu toggle minPayload onFrame"
  have inv: "hdlc_inv ?d"
    by (auto simp: hdlc_inv_def newHDLCStreamDecoderOpts_def hdlc_limit_def Let_def)
  have run: "run_bytes hdlc_feedByte ?d (concat chunks) = (d', frames)"
    using assms hdlc_codec.chunking [of ?d chunks] by (simp add: hdlc_feed_bytes)
  have post: "hdlc_inv d'" "hdlc_config d' = hdlc_config ?d" "\<forall>f \<in> set frames. hdlc_frame_ok ?d f"
    using hdlc_run_inv [OF inv run] by simp_all
  have "int (length (h_data d')) \<le> hdlc_limit ?d"
    using post(1) hdlc_config_frame_ok(2) [OF post(2)] by (simp add: hdlc_inv_def)
  moreover have lim: "mtu > 0 \<longrightarrow> hdlc_limit ?d \<le> mtu" and mp: "h_minPayload ?d = minPayload"
    by (simp_all add: hdlc_limit_def newHDLCStreamDecoderOpts_def Let_def)
  have "f \<noteq> [] \<and> (mtu > 0 \<longrightarrow> int (length f) \<le> mtu) \<and> (minPayload > 0 \<longrightarrow> minPayload < int (length f))"
    if "f \<in> set frames" for f
    using bspec [OF post(3) that] lim mp by (auto simp: hdlc_frame_ok_def)
  ultimately show ?thesis by blast
qed

theorem hdlc_feed_bounded_witness:
  "int (length (h_data (fst (feed_chunks hdlc_feed (newHDLCStreamDecoderOpts 500 True 0 True) [[0x7E, 1], [2]]))))
     \<le> hdlc_limit (newHDLCStreamDecoderOpts 500 True 0 True)"
  using hdlc_feed_bounded [of 500 True 0 True "[[0x7E, 1], [2]]", OF surjective_pairing] by (rule conjunct1)

end
