(* ===== verification/Backbone_HDLC.thy ===== *)
theory Backbone_HDLC
  imports HDLC
begin

text \<open>
  The decoder of the backbone interface, \<open>pkg/backbone/hdlc.go\<close>. It shares the wire format with
  the other stream interfaces (its own copies of the escaping functions are the same functions)
  but bounds assembly differently, toggles on every flag and drops frames of at most 19 bytes.
\<close>

section \<open>Encoding\<close>

fun appendEscapeHDLC :: "bytes \<Rightarrow> bytes \<Rightarrow> bytes" where
  "appendEscapeHDLC dst [] = dst"
| "appendEscapeHDLC dst (b # bs) =
     appendEscapeHDLC (if b = HDLCFlag \<or> b = HDLCEsc then dst @ [HDLCEsc, b XOR HDLCEscMask] else dst @ [b]) bs"

definition bb_appendFrameHDLC :: "bytes \<Rightarrow> bytes \<Rightarrow> bytes" where
  "bb_appendFrameHDLC dst payload = appendEscapeHDLC (dst @ [HDLCFlag]) payload @ [HDLCFlag]"

definition frameHDLC :: "bytes \<Rightarrow> bytes" where
  "frameHDLC payload = bb_appendFrameHDLC [] payload"

section \<open>Decoder\<close>

record hdlcDecoder =
  bb_mtu :: int
  bb_inFrame :: bool
  bb_escape :: bool
  bb_data :: bytes
  bb_maxFrame :: int
  bb_onPacket :: bool

definition NewHDLCDecoder :: "int \<Rightarrow> bool \<Rightarrow> hdlcDecoder" where
  "NewHDLCDecoder mtu onPacket =
     \<lparr> bb_mtu = mtu, bb_inFrame = False, bb_escape = False, bb_data = [],
       bb_maxFrame = (if mtu < 256 then 2048 else mtu), bb_onPacket = onPacket \<rparr>"

definition bb_appendRun :: "hdlcDecoder \<Rightarrow> bytes \<Rightarrow> hdlcDecoder" where
  "bb_appendRun d run =
     (let room = bb_maxFrame d - int (length (bb_data d)) in
      if room \<le> 0 \<or> int (length run) > room
      then d\<lparr> bb_data := [], bb_inFrame := False, bb_escape := False \<rparr>
      else d\<lparr> bb_data := bb_data d @ run \<rparr>)"

definition bb_emit :: "hdlcDecoder \<Rightarrow> hdlcDecoder \<times> bytes list" where
  "bb_emit d =
     (if \<not> bb_onPacket d \<or> bb_data d = [] then (d\<lparr> bb_data := [] \<rparr>, [])
      else if int (length (bb_data d)) \<le> 19 \<or> (bb_mtu d > 0 \<and> int (length (bb_data d)) > bb_mtu d)
      then (d\<lparr> bb_data := [] \<rparr>, [])
      else (d\<lparr> bb_data := [] \<rparr>, [bb_data d]))"

definition bb_feedByte :: "hdlcDecoder \<Rightarrow> byte \<Rightarrow> hdlcDecoder \<times> bytes list" where
  "bb_feedByte d b =
     (if b = HDLCFlag then
        (let (d1, fs) = (if bb_inFrame d \<and> bb_data d \<noteq> [] then bb_emit d else (d, []))
         in (d1\<lparr> bb_inFrame := \<not> bb_inFrame d1, bb_escape := False \<rparr>, fs))
      else if \<not> bb_inFrame d then (d, [])
      else if b = HDLCEsc then (d\<lparr> bb_escape := True \<rparr>, [])
      else
        (let b' = (if bb_escape d then b XOR HDLCEscMask else b); d1 = d\<lparr> bb_escape := False \<rparr>
         in if int (length (bb_data d1)) \<ge> bb_maxFrame d1
            then (d1\<lparr> bb_data := [], bb_inFrame := False, bb_escape := False \<rparr>, [])
            else (d1\<lparr> bb_data := bb_data d1 @ [b'] \<rparr>, [])))"

function bb_feed :: "hdlcDecoder \<Rightarrow> bytes \<Rightarrow> hdlcDecoder \<times> bytes list" where
  "bb_feed d [] = (d, [])"
| "bb_feed d (c # cs) =
     (let buf = c # cs in
      if bb_escape d then
        (let (d1, f1) = bb_feedByte d c; (d2, f2) = bb_feed d1 cs in (d2, f1 @ f2))
      else if \<not> bb_inFrame d then
        (case index_byte buf HDLCFlag of
           None \<Rightarrow> (d, [])
         | Some i \<Rightarrow>
             (let (d1, f1) = bb_feedByte d (buf ! i); (d2, f2) = bb_feed d1 (drop (i + 1) buf)
              in (d2, f1 @ f2)))
      else
        (let next = next_special HDLCFlag HDLCEsc buf in
         if next > 0 then bb_feed (bb_appendRun d (take next buf)) (drop next buf)
         else (let (d1, f1) = bb_feedByte d c; (d2, f2) = bb_feed d1 cs in (d2, f1 @ f2))))"
  by pat_completeness auto
termination by (relation "measure (\<lambda>(d, buf). length buf)") auto

definition bb_Reset :: "hdlcDecoder \<Rightarrow> hdlcDecoder" where
  "bb_Reset d = d\<lparr> bb_inFrame := False, bb_escape := False, bb_data := [] \<rparr>"

section \<open>Lemmas\<close>

lemma appendEscapeHDLC_eq: "appendEscapeHDLC dst p = dst @ escapeHDLC p"
  by (induction p arbitrary: dst) simp_all

lemma frameHDLC_eq: "frameHDLC p = appendFrameHDLC [] p"
  by (simp add: frameHDLC_def bb_appendFrameHDLC_def appendFrameHDLC_def appendEscapeHDLC_eq)

lemma bb_no_escape: "\<not> bb_escape d \<Longrightarrow> d\<lparr> bb_escape := False \<rparr> = d"
  by (cases d) simp

lemma bb_idle_skip: "\<not> bb_inFrame d \<Longrightarrow> b \<noteq> HDLCFlag \<Longrightarrow> bb_feedByte d b = (d, [])"
  by (simp add: bb_feedByte_def)

lemma bb_data_byte:
  assumes "bb_inFrame d" "\<not> bb_escape d" "b \<noteq> HDLCFlag" "b \<noteq> HDLCEsc"
  shows "bb_feedByte d b = (bb_appendRun d [b], [])"
  using assms by (simp add: bb_feedByte_def bb_appendRun_def Let_def bb_no_escape)

lemma bb_appendRun_more:
  "bb_inFrame (bb_appendRun d [b]) \<Longrightarrow> bs \<noteq> [] \<Longrightarrow> \<not> bb_escape d \<Longrightarrow>
     \<not> bb_escape (bb_appendRun d [b]) \<and> bb_appendRun (bb_appendRun d [b]) bs = bb_appendRun d (b # bs)"
  by (cases "int (length (bb_data d)) + 1 > bb_maxFrame d"; cases bs) (simp_all add: bb_appendRun_def Let_def)

lemma bb_appendRun_overflow:
  "bb_inFrame d \<Longrightarrow> \<not> bb_inFrame (bb_appendRun d [b]) \<Longrightarrow> bb_appendRun d (b # bs) = bb_appendRun d [b]"
  by (cases "int (length (bb_data d)) + 1 > bb_maxFrame d") (simp_all add: bb_appendRun_def Let_def)

interpretation bb_block:
  block_decoder HDLCFlag HDLCEsc bb_inFrame bb_escape bb_appendRun bb_feedByte bb_feed
  by unfold_locales
    (simp_all add: Let_def bb_idle_skip bb_data_byte bb_appendRun_more
      del: index_byte.simps, metis bb_appendRun_overflow)

definition bb_idle :: "hdlcDecoder \<Rightarrow> bool" where
  "bb_idle d \<longleftrightarrow> bb_data d = [] \<and> \<not> bb_escape d \<and> \<not> bb_inFrame d"

definition bb_ok :: "hdlcDecoder \<Rightarrow> bytes \<Rightarrow> bool" where
  "bb_ok d p \<longleftrightarrow> bb_onPacket d \<and> 19 < int (length p) \<and> int (length p) \<le> bb_maxFrame d
     \<and> (bb_mtu d > 0 \<longrightarrow> int (length p) \<le> bb_mtu d)"

lemma bb_assemble:
  assumes "bb_inFrame d" "\<not> bb_escape d" "int (length (bb_data d)) + int (length p) \<le> bb_maxFrame d"
  shows "run_bytes bb_feedByte d (escapeHDLC p) = (d\<lparr> bb_data := bb_data d @ p \<rparr>, [])"
  using assms
proof (induction p arbitrary: d)
  case (Cons b p)
  let ?d1 = "d\<lparr> bb_data := bb_data d @ [b] \<rparr>"
  have IH: "run_bytes bb_feedByte ?d1 (escapeHDLC p) = (?d1\<lparr> bb_data := bb_data ?d1 @ p \<rparr>, [])"
    using Cons.prems by (intro Cons.IH) auto
  show ?case
  proof (cases "b = HDLCFlag \<or> b = HDLCEsc")
    case True
    then have "bb_feedByte d HDLCEsc = (d\<lparr> bb_escape := True \<rparr>, [])"
      "bb_feedByte (d\<lparr> bb_escape := True \<rparr>) (b XOR HDLCEscMask) = (?d1, [])"
      using Cons.prems bb_no_escape [of d] by (auto simp: bb_feedByte_def Let_def)
    then show ?thesis using IH True by simp
  next
    case False
    then have "bb_feedByte d b = (?d1, [])"
      using Cons.prems by (simp add: bb_data_byte bb_appendRun_def)
    then show ?thesis using IH False by simp
  qed
qed simp

lemma bb_frame:
  assumes "bb_idle d" "bb_ok d p"
  shows "\<exists>d'. run_bytes bb_feedByte d (frameHDLC p) = (d', [p]) \<and> bb_idle d' \<and> bb_ok d' = bb_ok d"
proof -
  let ?d1 = "d\<lparr> bb_inFrame := True, bb_escape := False \<rparr>"
  let ?d2 = "?d1\<lparr> bb_data := p \<rparr>"
  let ?d3 = "d\<lparr> bb_data := [], bb_inFrame := False, bb_escape := False \<rparr>"
  have s1: "bb_feedByte d HDLCFlag = (?d1, [])"
    using assms(1) by (simp add: bb_feedByte_def bb_idle_def)
  have s2: "run_bytes bb_feedByte ?d1 (escapeHDLC p) = (?d2, [])"
    using bb_assemble [of ?d1 p] assms by (simp add: bb_ok_def bb_idle_def)
  have "p \<noteq> []" using assms(2) by (auto simp: bb_ok_def)
  then have s3: "bb_feedByte ?d2 HDLCFlag = (?d3, [p])"
    using assms(2) by (auto simp: bb_feedByte_def bb_emit_def bb_ok_def)
  have "bb_idle ?d3" "bb_ok ?d3 = bb_ok d" by (auto simp: bb_idle_def bb_ok_def fun_eq_iff)
  then show ?thesis
    using s1 s2 s3 by (simp add: frameHDLC_eq appendFrameHDLC_def run_bytes_append)
qed

interpretation bb_codec: frame_codec frameHDLC bb_feed bb_idle bb_ok
  by unfold_locales (simp_all add: bb_block.bytewise run_bytes_append bb_frame)

definition bb_inv :: "hdlcDecoder \<Rightarrow> bool" where
  "bb_inv d \<longleftrightarrow> 0 \<le> bb_maxFrame d \<and> int (length (bb_data d)) \<le> bb_maxFrame d"

definition bb_config :: "hdlcDecoder \<Rightarrow> int \<times> int \<times> bool" where
  "bb_config d = (bb_mtu d, bb_maxFrame d, bb_onPacket d)"

definition bb_frame_ok :: "int \<times> int \<times> bool \<Rightarrow> bytes \<Rightarrow> bool" where
  "bb_frame_ok c f \<longleftrightarrow> 19 < length f \<and> int (length f) \<le> fst (snd c) \<and> (fst c > 0 \<longrightarrow> int (length f) \<le> fst c)"

lemma bb_feedByte_inv:
  assumes "bb_inv d"
  shows "bb_inv (fst (bb_feedByte d b))" "bb_config (fst (bb_feedByte d b)) = bb_config d"
    "\<forall>f \<in> set (snd (bb_feedByte d b)). bb_frame_ok (bb_config d) f"
  using assms
  by (simp_all add: bb_feedByte_def bb_emit_def bb_inv_def bb_config_def bb_frame_ok_def Let_def) auto

lemma bb_run_inv:
  "bb_inv d \<Longrightarrow> run_bytes bb_feedByte d bs = (d', fs) \<Longrightarrow>
     bb_inv d' \<and> bb_config d' = bb_config d \<and> (\<forall>f \<in> set fs. bb_frame_ok (bb_config d) f)"
proof (induction bs arbitrary: d fs)
  case (Cons b bs)
  obtain d1 f1 where 1: "bb_feedByte d b = (d1, f1)" by fastforce
  obtain f2 where 2: "run_bytes bb_feedByte d1 bs = (d', f2)" "fs = f1 @ f2"
    using Cons.prems(2) 1 by (auto split: prod.splits)
  have inv: "bb_inv d1" "bb_config d1 = bb_config d" "\<forall>f \<in> set f1. bb_frame_ok (bb_config d) f"
    using bb_feedByte_inv [OF Cons.prems(1), of b] 1 by simp_all
  then show ?case using Cons.IH [OF inv(1) 2(1)] 2(2) by auto
qed simp

section \<open>Properties\<close>

text \<open>
  The backbone decoder and encoder agree over a stream. From an idle decoder, payloads longer
  than the 19-byte header minimum that fit the MTU, framed by \<open>frameHDLC\<close> and read in arbitrary
  chunks, are delivered exactly and in order.
\<close>

theorem backbone_stream_roundtrip:
  assumes "bb_idle d" "\<forall>p \<in> set payloads. bb_ok d p" "concat chunks = concat (map frameHDLC payloads)"
  shows "\<exists>d'. feed_chunks bb_feed d chunks = (d', payloads) \<and> bb_idle d'"
  using assms by (rule bb_codec.stream)

theorem backbone_stream_roundtrip_witness:
  "\<exists>d'. feed_chunks bb_feed (NewHDLCDecoder 500 True)
          [[0x7E, 0x7D], [0x5E] @ replicate 20 1, [0x7E]] = (d', [0x7E # replicate 20 1]) \<and> bb_idle d'"
  by (rule backbone_stream_roundtrip) code_simp+

text \<open>
  On arbitrary input the backbone decoder never assembles more than its frame cap, and every
  frame it delivers is longer than 19 bytes and fits the cap and the MTU.
\<close>

theorem backbone_feed_bounded:
  assumes "feed_chunks bb_feed (NewHDLCDecoder mtu onPacket) chunks = (d', frames)"
  shows "int (length (bb_data d')) \<le> bb_maxFrame (NewHDLCDecoder mtu onPacket)
    \<and> (\<forall>f \<in> set frames. 19 < length f \<and> (mtu > 0 \<longrightarrow> int (length f) \<le> mtu))"
proof -
  let ?d = "NewHDLCDecoder mtu onPacket"
  have inv: "bb_inv ?d" by (simp add: bb_inv_def NewHDLCDecoder_def)
  have run: "run_bytes bb_feedByte ?d (concat chunks) = (d', frames)"
    using assms bb_codec.chunking [of ?d chunks] by (simp add: bb_block.bytewise)
  show ?thesis
    using bb_run_inv [OF inv run]
    by (auto simp: bb_inv_def bb_config_def bb_frame_ok_def NewHDLCDecoder_def)
qed

theorem backbone_feed_bounded_witness:
  "int (length (bb_data (fst (feed_chunks bb_feed (NewHDLCDecoder 500 True) [[0x7E, 1], [2]]))))
     \<le> bb_maxFrame (NewHDLCDecoder 500 True)"
  using backbone_feed_bounded [of 500 True "[[0x7E, 1], [2]]", OF surjective_pairing] by (rule conjunct1)

end
