(* ===== verification/KISS.thy ===== *)
theory KISS
  imports Framing
begin

text \<open>
  KISS framing: the stream decoder of \<open>pkg/interfaces/kiss_decoder.go\<close>, \<open>escapeKISS\<close> of \<open>tcp.go\<close> and
  the RNode framing helpers of \<open>rnode_kiss.go\<close>. Byte-wise decoding is a frame codec; the
  block-wise loop agrees with it as long as no frame exceeds the MTU, and discards the rest of the
  read when one does.
\<close>

definition KISSFend :: byte where "KISSFend = 0xC0"
definition KISSFesc :: byte where "KISSFesc = 0xDB"
definition KISSTFend :: byte where "KISSTFend = 0xDC"
definition KISSTFesc :: byte where "KISSTFesc = 0xDD"
definition KISSCmdData :: byte where "KISSCmdData = 0"
definition kissCmdUnknown :: byte where "kissCmdUnknown = 0xFE"
definition DefaultMTU :: int where "DefaultMTU = 1064"

lemmas kiss_consts = KISSFend_def KISSFesc_def KISSTFend_def KISSTFesc_def KISSCmdData_def kissCmdUnknown_def

section \<open>Encoding\<close>

fun escapeKISS :: "bytes \<Rightarrow> bytes" where
  "escapeKISS [] = []"
| "escapeKISS (b # bs) =
     (if b = KISSFend then [KISSFesc, KISSTFend]
      else if b = KISSFesc then [KISSFesc, KISSTFesc] else [b]) @ escapeKISS bs"

definition appendFrameKISS :: "bytes \<Rightarrow> bytes \<Rightarrow> bytes" where
  "appendFrameKISS dst payload = dst @ [KISSFend, KISSCmdData] @ escapeKISS payload @ [KISSFend]"

fun rnodeEscape :: "bytes \<Rightarrow> bytes \<Rightarrow> bytes" where
  "rnodeEscape dst [] = dst"
| "rnodeEscape dst (b # bs) =
     rnodeEscape (if b = KISSFesc then dst @ [KISSFesc, KISSTFesc]
                  else if b = KISSFend then dst @ [KISSFesc, KISSTFend] else dst @ [b]) bs"

definition appendRNodeFrame :: "bytes \<Rightarrow> byte \<Rightarrow> bytes \<Rightarrow> bytes" where
  "appendRNodeFrame dst cmd payload = rnodeEscape (dst @ [KISSFend, cmd]) payload @ [KISSFend]"

definition appendRNodeDataFrame :: "bytes \<Rightarrow> bytes \<Rightarrow> bytes" where
  "appendRNodeDataFrame dst payload = appendRNodeFrame dst 0 payload"

section \<open>Decoder\<close>

record kissStreamDecoder =
  k_mtu :: int
  k_inFrame :: bool
  k_escape :: bool
  k_haveCmd :: bool
  k_command :: byte
  k_data :: bytes
  k_onFrame :: bool

definition newKISSStreamDecoder :: "int \<Rightarrow> bool \<Rightarrow> kissStreamDecoder" where
  "newKISSStreamDecoder mtu onFrame =
     \<lparr> k_mtu = (if mtu \<le> 0 then DefaultMTU else mtu), k_inFrame = False, k_escape = False,
       k_haveCmd = False, k_command = kissCmdUnknown, k_data = [], k_onFrame = onFrame \<rparr>"

definition kiss_reset :: "kissStreamDecoder \<Rightarrow> kissStreamDecoder" where
  "kiss_reset d = d\<lparr> k_inFrame := False, k_escape := False, k_haveCmd := False,
                    k_command := kissCmdUnknown, k_data := [] \<rparr>"

definition kiss_feedByte :: "kissStreamDecoder \<Rightarrow> byte \<Rightarrow> kissStreamDecoder \<times> bytes list" where
  "kiss_feedByte d b =
     (if k_inFrame d \<and> b = KISSFend \<and> k_haveCmd d \<and> k_command d = KISSCmdData then
        (d\<lparr> k_inFrame := False, k_data := [], k_escape := False, k_haveCmd := False,
            k_command := kissCmdUnknown \<rparr>,
         if k_onFrame d then [k_data d] else [])
      else if b = KISSFend then
        (d\<lparr> k_inFrame := True, k_command := kissCmdUnknown, k_haveCmd := False, k_data := [],
            k_escape := False \<rparr>, [])
      else if \<not> k_inFrame d then (d, [])
      else if \<not> k_haveCmd d then (d\<lparr> k_command := b AND 0x0F, k_haveCmd := True \<rparr>, [])
      else if k_command d \<noteq> KISSCmdData then (d, [])
      else if int (length (k_data d)) \<ge> k_mtu d then (kiss_reset d, [])
      else if b = KISSFesc then (d\<lparr> k_escape := True \<rparr>, [])
      else
        (let b' = (if k_escape d then (if b = KISSTFend then KISSFend else if b = KISSTFesc then KISSFesc else b)
                   else b)
         in (d\<lparr> k_escape := False, k_data := k_data d @ [b'] \<rparr>, [])))"

definition kiss_assembling :: "kissStreamDecoder \<Rightarrow> bool" where
  "kiss_assembling d \<longleftrightarrow> k_inFrame d \<and> k_haveCmd d \<and> k_command d = KISSCmdData"

function kiss_feed :: "kissStreamDecoder \<Rightarrow> bytes \<Rightarrow> kissStreamDecoder \<times> bytes list" where
  "kiss_feed d [] = (d, [])"
| "kiss_feed d (c # cs) =
     (let buf = c # cs in
      if k_escape d \<or> \<not> kiss_assembling d then
        (let (d1, f1) = kiss_feedByte d c; (d2, f2) = kiss_feed d1 cs in (d2, f1 @ f2))
      else
        (let next = next_special KISSFend KISSFesc buf in
         if next > 0 then
           (if int (length (k_data d)) + int next > k_mtu d then (kiss_reset d, [])
            else kiss_feed (d\<lparr> k_data := k_data d @ take next buf \<rparr>) (drop next buf))
         else (let (d1, f1) = kiss_feedByte d c; (d2, f2) = kiss_feed d1 cs in (d2, f1 @ f2))))"
  by pat_completeness auto
termination by (relation "measure (\<lambda>(d, buf). length buf)") auto

section \<open>Byte-wise decoding is a frame codec\<close>

definition kiss_idle :: "kissStreamDecoder \<Rightarrow> bool" where
  "kiss_idle d \<longleftrightarrow> \<not> kiss_assembling d"

definition kiss_ok :: "kissStreamDecoder \<Rightarrow> bytes \<Rightarrow> bool" where
  "kiss_ok d p \<longleftrightarrow> k_onFrame d \<and> int (length p) \<le> k_mtu d"

lemma kiss_special [simp]:
  "KISSFend \<noteq> KISSFesc" "KISSFesc \<noteq> KISSFend" "KISSTFend \<noteq> KISSFend" "KISSTFend \<noteq> KISSFesc"
  "KISSTFesc \<noteq> KISSFend" "KISSTFesc \<noteq> KISSFesc" "KISSTFesc \<noteq> KISSTFend" "KISSCmdData \<noteq> KISSFend"
  "KISSCmdData AND 15 = KISSCmdData"
  by (simp_all add: kiss_consts)

text \<open>The step that gives a frame up, and runs free of it.\<close>

definition kiss_overflow :: "kissStreamDecoder \<Rightarrow> byte \<Rightarrow> bool" where
  "kiss_overflow d b \<longleftrightarrow> b \<noteq> KISSFend \<and> kiss_assembling d \<and> int (length (k_data d)) \<ge> k_mtu d"

fun kiss_fits :: "kissStreamDecoder \<Rightarrow> bytes \<Rightarrow> bool" where
  "kiss_fits d [] = True"
| "kiss_fits d (b # bs) = (\<not> kiss_overflow d b \<and> kiss_fits (fst (kiss_feedByte d b)) bs)"

lemma kiss_fits_append:
  "kiss_fits d (a @ b) \<longleftrightarrow> kiss_fits d a \<and> kiss_fits (fst (run_bytes kiss_feedByte d a)) b"
  by (induction a arbitrary: d) (auto split: prod.splits)

lemma kiss_assemble:
  assumes "kiss_assembling d" "\<not> k_escape d" "int (length (k_data d)) + int (length p) \<le> k_mtu d"
  shows "run_bytes kiss_feedByte d (escapeKISS p) = (d\<lparr> k_data := k_data d @ p \<rparr>, [])
       \<and> kiss_fits d (escapeKISS p)"
  using assms
proof (induction p arbitrary: d)
  case (Cons b p)
  let ?d1 = "d\<lparr> k_data := k_data d @ [b] \<rparr>"
  have IH: "run_bytes kiss_feedByte ?d1 (escapeKISS p) = (?d1\<lparr> k_data := k_data ?d1 @ p \<rparr>, [])"
    "kiss_fits ?d1 (escapeKISS p)"
    using Cons.prems Cons.IH [of ?d1] by (simp_all add: kiss_assembling_def)
  have room: "int (length (k_data d)) < k_mtu d" using Cons.prems(3) by simp
  have esc: "(d\<lparr> k_escape := True \<rparr>)\<lparr> k_escape := False, k_data := x \<rparr> = d\<lparr> k_data := x \<rparr>"
    "d\<lparr> k_escape := False, k_data := x \<rparr> = d\<lparr> k_data := x \<rparr>" for x
    using Cons.prems(2) by (cases d; simp)+
  have e1: "kiss_feedByte d KISSFesc = (d\<lparr> k_escape := True \<rparr>, [])"
    using Cons.prems room by (simp add: kiss_feedByte_def kiss_assembling_def)
  have no: "\<not> kiss_overflow d x" "\<not> kiss_overflow (d\<lparr> k_escape := True \<rparr>) x" for x
    using room by (simp_all add: kiss_overflow_def)
  consider "b = KISSFend" | "b = KISSFesc" | "b \<noteq> KISSFend" "b \<noteq> KISSFesc" by blast
  then show ?case
  proof cases
    case 1
    then have "kiss_feedByte (d\<lparr> k_escape := True \<rparr>) KISSTFend = (?d1, [])"
      using Cons.prems room esc by (simp add: kiss_feedByte_def kiss_assembling_def)
    then show ?thesis using 1 IH e1 no by simp
  next
    case 2
    then have "kiss_feedByte (d\<lparr> k_escape := True \<rparr>) KISSTFesc = (?d1, [])"
      using Cons.prems room esc by (simp add: kiss_feedByte_def kiss_assembling_def)
    then show ?thesis using 2 IH e1 no by simp
  next
    case 3
    then have "kiss_feedByte d b = (?d1, [])"
      using Cons.prems room esc by (simp add: kiss_feedByte_def kiss_assembling_def)
    then show ?thesis using 3 IH no by simp
  qed
qed simp

lemma kiss_frame:
  assumes "kiss_idle d" "kiss_ok d p"
  shows "(\<exists>d'. run_bytes kiss_feedByte d (appendFrameKISS [] p) = (d', [p]) \<and> kiss_idle d' \<and> kiss_ok d' = kiss_ok d)
       \<and> kiss_fits d (appendFrameKISS [] p)"
proof -
  let ?d1 = "d\<lparr> k_inFrame := True, k_command := kissCmdUnknown, k_haveCmd := False, k_data := [], k_escape := False \<rparr>"
  let ?d2 = "?d1\<lparr> k_command := KISSCmdData, k_haveCmd := True \<rparr>"
  let ?d3 = "?d2\<lparr> k_data := p \<rparr>"
  let ?d4 = "?d3\<lparr> k_inFrame := False, k_data := [], k_escape := False, k_haveCmd := False, k_command := kissCmdUnknown \<rparr>"
  have s1: "kiss_feedByte d KISSFend = (?d1, [])"
    using assms(1) by (auto simp: kiss_feedByte_def kiss_idle_def kiss_assembling_def)
  have s2: "kiss_feedByte ?d1 KISSCmdData = (?d2, [])" by (simp add: kiss_feedByte_def)
  have s3: "run_bytes kiss_feedByte ?d2 (escapeKISS p) = (?d3, [])" "kiss_fits ?d2 (escapeKISS p)"
    using kiss_assemble [of ?d2 p] assms(2) by (simp_all add: kiss_assembling_def kiss_ok_def)
  have s4: "kiss_feedByte ?d3 KISSFend = (?d4, [p])"
    using assms(2) by (simp add: kiss_feedByte_def kiss_ok_def)
  have "\<not> kiss_overflow d KISSFend" "\<not> kiss_overflow ?d1 KISSCmdData" "\<not> kiss_overflow ?d3 KISSFend"
    by (simp_all add: kiss_overflow_def kiss_assembling_def)
  moreover have "kiss_idle ?d4" "kiss_ok ?d4 = kiss_ok d" 
    by (simp_all add: kiss_idle_def kiss_assembling_def kiss_ok_def fun_eq_iff)
  ultimately show ?thesis
    using s1 s2 s3 s4 by (simp add: appendFrameKISS_def run_bytes_append kiss_fits_append)
qed

interpretation kiss_codec: frame_codec "appendFrameKISS []" "run_bytes kiss_feedByte" kiss_idle kiss_ok
  by unfold_locales (simp_all add: run_bytes_append kiss_frame)

section \<open>The block-wise loop\<close>

lemma kiss_run_clean:
  assumes "kiss_assembling d" "\<not> k_escape d" "\<And>b. b \<in> set r \<Longrightarrow> b \<noteq> KISSFend \<and> b \<noteq> KISSFesc" "kiss_fits d r"
    "r \<noteq> []"
  shows "run_bytes kiss_feedByte d r = (d\<lparr> k_data := k_data d @ r \<rparr>, [])
       \<and> int (length (k_data d)) + int (length r) \<le> k_mtu d"
  using assms
proof (induction r arbitrary: d)
  case (Cons b bs)
  have room: "int (length (k_data d)) < k_mtu d"
    using Cons.prems by (auto simp: kiss_overflow_def)
  have "d\<lparr> k_escape := False, k_data := x \<rparr> = d\<lparr> k_data := x \<rparr>" for x
    using Cons.prems(2) by (cases d) simp
  then have s: "kiss_feedByte d b = (d\<lparr> k_data := k_data d @ [b] \<rparr>, [])"
    using Cons.prems room by (simp add: kiss_feedByte_def kiss_assembling_def)
  show ?case
  proof (cases "bs = []")
    case True
    then show ?thesis using s room by simp
  next
    case False
    then show ?thesis
      using s Cons.IH [of "d\<lparr> k_data := k_data d @ [b] \<rparr>"] Cons.prems by (simp add: kiss_assembling_def)
  qed
qed simp

lemma kiss_feed_fits: "kiss_fits d buf \<Longrightarrow> kiss_feed d buf = run_bytes kiss_feedByte d buf"
proof (induction buf arbitrary: d rule: length_induct)
  case (1 buf)
  show ?case
  proof (cases buf)
    case (Cons c cs)
    have IH: "length xs \<le> length cs \<Longrightarrow> kiss_fits e xs \<Longrightarrow> kiss_feed e xs = run_bytes kiss_feedByte e xs" for e xs
      using 1 Cons by (simp add: less_Suc_eq_le)
    let ?n = "next_special KISSFend KISSFesc (c # cs)"
    show ?thesis
    proof (cases "k_escape d \<or> \<not> kiss_assembling d \<or> ?n = 0")
      case True
      then show ?thesis using Cons IH 1(2) by (auto simp: Let_def split: prod.splits)
    next
      case False
      let ?r = "take ?n (c # cs)" and ?s = "drop ?n (c # cs)"
      have fits: "kiss_fits d ?r" "kiss_fits (fst (run_bytes kiss_feedByte d ?r)) ?s"
        using 1(2) Cons kiss_fits_append [of d ?r ?s] by simp_all
      have r: "run_bytes kiss_feedByte d ?r = (d\<lparr> k_data := k_data d @ ?r \<rparr>, [])"
        "int (length (k_data d)) + int (length ?r) \<le> k_mtu d"
        using kiss_run_clean [of d ?r] fits(1) False next_special_clean [of _ KISSFend KISSFesc "c # cs"] by auto
      have "length ?r = ?n" using next_special_le [of KISSFend KISSFesc "c # cs"] by simp
      then have "kiss_feed d (c # cs) = kiss_feed (d\<lparr> k_data := k_data d @ ?r \<rparr>) ?s"
        using False r(2) by (simp add: Let_def)
      moreover have "kiss_feed (d\<lparr> k_data := k_data d @ ?r \<rparr>) ?s = run_bytes kiss_feedByte (d\<lparr> k_data := k_data d @ ?r \<rparr>) ?s"
        using fits(2) r(1) False by (intro IH) auto
      ultimately show ?thesis
        using Cons r(1) run_bytes_append [of kiss_feedByte d ?r ?s] by (simp split: prod.splits del: run_bytes.simps)
    qed
  qed simp
qed

lemma kiss_chunks_fit:
  "kiss_fits d (concat cs) \<Longrightarrow> feed_chunks kiss_feed d cs = feed_chunks (run_bytes kiss_feedByte) d cs"
  by (induction cs arbitrary: d) (auto simp: kiss_fits_append kiss_feed_fits split: prod.splits)

lemma kiss_frames_fit:
  "kiss_idle d \<Longrightarrow> \<forall>p \<in> set ps. kiss_ok d p \<Longrightarrow> kiss_fits d (concat (map (appendFrameKISS []) ps))"
proof (induction ps arbitrary: d)
  case (Cons p ps)
  then obtain d1 where "run_bytes kiss_feedByte d (appendFrameKISS [] p) = (d1, [p])" "kiss_idle d1"
    "kiss_ok d1 = kiss_ok d" "kiss_fits d (appendFrameKISS [] p)"
    using kiss_frame [of d p] by auto
  then show ?case using Cons by (simp add: kiss_fits_append)
qed simp

lemma rnodeEscape_eq: "rnodeEscape dst p = dst @ escapeKISS p"
  by (induction p arbitrary: dst) auto

lemma escapeKISS_clean:
  "(\<And>b. b \<in> set p \<Longrightarrow> b \<noteq> KISSFend \<and> b \<noteq> KISSFesc) \<Longrightarrow> escapeKISS p = p"
  by (induction p) auto

lemma next_special_clean_prefix:
  assumes "\<And>b. b \<in> set p \<Longrightarrow> b \<noteq> f \<and> b \<noteq> e" "f \<noteq> e"
  shows "next_special f e (p @ f # r) = length p"
proof -
  have "index_byte (p @ f # r) f = Some (length p)" using assms(1) by (induction p) auto
  moreover have "case index_byte (p @ f # r) e of None \<Rightarrow> True | Some i \<Rightarrow> length p < i"
    using assms by (induction p) (auto split: option.splits)
  ultimately show ?thesis by (auto simp: next_special_def Let_def split: option.splits)
qed

lemma kiss_run_overflow:
  assumes "kiss_assembling d" "\<not> k_escape d" "\<And>b. b \<in> set r \<Longrightarrow> b \<noteq> KISSFend \<and> b \<noteq> KISSFesc"
    "int (length (k_data d)) \<le> k_mtu d" "k_mtu d < int (length (k_data d)) + int (length r)"
  shows "run_bytes kiss_feedByte d r = (kiss_reset d, [])"
  using assms
proof (induction r arbitrary: d)
  case (Cons b bs)
  show ?case
  proof (cases "int (length (k_data d)) < k_mtu d")
    case True
    have "d\<lparr> k_escape := False, k_data := x \<rparr> = d\<lparr> k_data := x \<rparr>" for x
      using Cons.prems(2) by (cases d) simp
    then have "kiss_feedByte d b = (d\<lparr> k_data := k_data d @ [b] \<rparr>, [])"
      using Cons.prems True by (simp add: kiss_feedByte_def kiss_assembling_def)
    moreover have "run_bytes kiss_feedByte (d\<lparr> k_data := k_data d @ [b] \<rparr>) bs
        = (kiss_reset (d\<lparr> k_data := k_data d @ [b] \<rparr>), [])"
      using Cons.prems True by (intro Cons.IH) (auto simp: kiss_assembling_def)
    ultimately show ?thesis by (simp add: kiss_reset_def)
  next
    case False
    then have "kiss_feedByte d b = (kiss_reset d, [])"
      using Cons.prems by (simp add: kiss_feedByte_def kiss_assembling_def)
    moreover have "run_bytes kiss_feedByte (kiss_reset d) bs = (kiss_reset d, [])"
      by (rule run_bytes_skip_all) (use Cons.prems(3) in \<open>auto simp: kiss_feedByte_def kiss_reset_def\<close>)
    ultimately show ?thesis by simp
  qed
qed simp

section \<open>Properties\<close>



text \<open>
  C29: an oversized KISS frame costs the rest of the read. When a frame longer than the MTU (without
  escapes) and the following frames arrive in one read, the block-wise loop delivers none of the
  following frames, while feeding the same bytes one at a time drops only the oversized frame and
  delivers the others.
\<close>

theorem kiss_overflow_discards_read:
  assumes "0 < mtu" "mtu < int (length big)" "\<forall>b \<in> set big. b \<noteq> KISSFend \<and> b \<noteq> KISSFesc"
    "\<forall>p \<in> set payloads. int (length p) \<le> mtu"
  shows "snd (kiss_feed (newKISSStreamDecoder mtu True)
                (appendFrameKISS [] big @ concat (map (appendFrameKISS []) payloads))) = []
    \<and> snd (run_bytes kiss_feedByte (newKISSStreamDecoder mtu True)
                (appendFrameKISS [] big @ concat (map (appendFrameKISS []) payloads))) = payloads"
proof -
  let ?rest = "concat (map (appendFrameKISS []) payloads)"
  let ?d = "newKISSStreamDecoder mtu True"
  let ?d1 = "?d\<lparr> k_inFrame := True, k_command := KISSCmdData, k_haveCmd := True \<rparr>"
  have "next_special KISSFend KISSFesc (big @ KISSFend # ?rest) = length big"
    using assms(3) by (intro next_special_clean_prefix) auto
  moreover obtain b bs where big: "big = b # bs" using assms(1,2) by (cases big) auto
  ultimately have stop: "snd (kiss_feed ?d1 (big @ KISSFend # ?rest)) = []"
    using assms(1,2) by (simp add: newKISSStreamDecoder_def kiss_assembling_def)
  have split: "appendFrameKISS [] big @ ?rest = KISSFend # KISSCmdData # big @ KISSFend # ?rest"
    using assms(3) by (simp add: appendFrameKISS_def escapeKISS_clean)
  have open_steps: "kiss_feedByte ?d KISSFend = (?d\<lparr> k_inFrame := True \<rparr>, [])"
    "kiss_feedByte (?d\<lparr> k_inFrame := True \<rparr>) KISSCmdData = (?d1, [])"
    by (simp_all add: kiss_feedByte_def newKISSStreamDecoder_def)
  have block: "snd (kiss_feed ?d (appendFrameKISS [] big @ ?rest)) = []"
    using stop open_steps unfolding split
    by (simp add: kiss_assembling_def Let_def newKISSStreamDecoder_def split: prod.splits)
  let ?d2 = "(kiss_reset ?d1)\<lparr> k_inFrame := True \<rparr>"
  have "run_bytes kiss_feedByte ?d1 big = (kiss_reset ?d1, [])"
    using assms by (intro kiss_run_overflow) (auto simp: kiss_assembling_def newKISSStreamDecoder_def)
  moreover have "kiss_feedByte (kiss_reset ?d1) KISSFend = (?d2, [])"
    by (simp add: kiss_feedByte_def kiss_reset_def newKISSStreamDecoder_def)
  moreover have "snd (run_bytes kiss_feedByte ?d2 ?rest) = payloads"
    using kiss_codec.frames [of ?d2 payloads] assms(1,4)
    by (auto simp: kiss_idle_def kiss_assembling_def kiss_reset_def kiss_ok_def newKISSStreamDecoder_def)
  ultimately have "snd (run_bytes kiss_feedByte ?d (appendFrameKISS [] big @ ?rest)) = payloads"
    using open_steps unfolding split by (simp add: run_bytes_append split: prod.splits)
  with block show ?thesis by blast
qed

theorem kiss_overflow_discards_read_witness:
  "snd (kiss_feed (newKISSStreamDecoder 2 True)
          (appendFrameKISS [] [1, 2, 3] @ concat (map (appendFrameKISS []) [[7]]))) = []
   \<and> snd (run_bytes kiss_feedByte (newKISSStreamDecoder 2 True)
          (appendFrameKISS [] [1, 2, 3] @ concat (map (appendFrameKISS []) [[7]]))) = [[7]]"
  by (rule kiss_overflow_discards_read) (simp_all add: kiss_consts)

end
