(* ===== verification/Hashlist.thy ===== *)
theory Hashlist
  imports Packet
begin

text \<open>
  The duplicate filter of \<open>pkg/transport/packet_hashlist.go\<close>: the open-addressing hash set
  \<open>hashGen\<close> (linear probing, doubling at load one half) and the two-generation \<open>packetHashList\<close>
  built on it. The probe loops have no bound in the code, so they are partial functions: \<open>None\<close>
  means that a loop does not return or indexes out of range. The set implementation is proved to
  refine a finite set, with termination of every probe; the hash list is proved to remember the
  last additions, to forget nothing it should know, and to stay bounded.
\<close>

section \<open>The hash set\<close>

record hashGen =
  g_slots :: "bytes list"
  g_occ :: "byte list"
  g_n :: nat
  g_mask :: nat

definition emptyGen :: hashGen where
  "emptyGen = \<lparr> g_slots = [], g_occ = [], g_n = 0, g_mask = 0 \<rparr>"

text \<open>\<open>binary.LittleEndian.Uint64\<close> of an 8-byte slice.\<close>

fun le64 :: "bytes \<Rightarrow> u64" where
  "le64 [] = 0"
| "le64 (b # bs) = ucast b OR push_bit 8 (le64 bs)"

definition hashSlot :: "bytes \<Rightarrow> int \<Rightarrow> nat" where
  "hashSlot k msk =
     (let x = le64 (take 8 k);
          x = x XOR le64 (take 8 (drop 8 k));
          x = x XOR le64 (take 8 (drop 16 k));
          x = x XOR le64 (take 8 (drop 24 k))
      in if msk < 0 then 0
         else (let slot = x AND word_of_int msk
               in if uint slot > 2 ^ 63 - 1 then 0 else nat (uint slot)))"

partial_function (option) has_loop :: "hashGen \<Rightarrow> bytes \<Rightarrow> nat \<Rightarrow> bool option" where
  "has_loop g k i = do {
     o1 \<leftarrow> go_index (g_occ g) i;
     if o1 = 0 then Some False
     else do {
       s \<leftarrow> go_index (g_slots g) i;
       if s = k then Some True else has_loop g k ((i + 1) AND g_mask g) } }"

definition hash_has :: "hashGen \<Rightarrow> bytes \<Rightarrow> bool option" where
  "hash_has g k =
     (if g_slots g = [] then Some False else has_loop g k (hashSlot k (int (g_mask g))))"

partial_function (option) insert_loop :: "hashGen \<Rightarrow> bytes \<Rightarrow> nat \<Rightarrow> hashGen option" where
  "insert_loop g k i = do {
     o1 \<leftarrow> go_index (g_occ g) i;
     if o1 = 0 then do {
       sl \<leftarrow> go_set (g_slots g) i k;
       oc \<leftarrow> go_set (g_occ g) i 1;
       Some (g\<lparr> g_slots := sl, g_occ := oc, g_n := g_n g + 1 \<rparr>) }
     else do {
       s \<leftarrow> go_index (g_slots g) i;
       if s = k then Some g else insert_loop g k ((i + 1) AND g_mask g) } }"

definition hash_insert :: "hashGen \<Rightarrow> bytes \<Rightarrow> hashGen option" where
  "hash_insert g k = insert_loop g k (hashSlot k (int (g_mask g)))"

fun grow_loop :: "hashGen \<Rightarrow> byte list \<Rightarrow> nat \<Rightarrow> hashGen \<Rightarrow> hashGen option" where
  "grow_loop g [] i ng = Some ng"
| "grow_loop g (o1 # os) i ng =
     (if o1 \<noteq> 0 then do {
        s \<leftarrow> go_index (g_slots g) i;
        ng' \<leftarrow> hash_insert ng s;
        grow_loop g os (i + 1) ng' }
      else grow_loop g os (i + 1) ng)"

definition hash_grow :: "hashGen \<Rightarrow> hashGen option" where
  "hash_grow g =
     (let ns = (if length (g_slots g) > 0 then length (g_slots g) * 2 else 8);
          ng = \<lparr> g_slots = replicate ns (replicate 32 0), g_occ = replicate ns 0, g_n = 0, g_mask = ns - 1 \<rparr>
      in grow_loop g (g_occ g) 0 ng)"

definition hash_put :: "hashGen \<Rightarrow> bytes \<Rightarrow> hashGen option" where
  "hash_put g k = do {
     g' \<leftarrow> (if g_slots g = [] \<or> (g_n g + 1) * 2 > length (g_slots g) then hash_grow g else Some g);
     hash_insert g' k }"

section \<open>The two-generation list\<close>

record packetHashList =
  hl_max :: int
  hl_cur :: hashGen
  hl_prev :: hashGen

definition HashlistMaxSize :: int where "HashlistMaxSize = 1000000"

definition newPacketHashList :: "int \<Rightarrow> packetHashList" where
  "newPacketHashList limit =
     \<lparr> hl_max = (if limit \<le> 0 then HashlistMaxSize else limit), hl_cur = emptyGen, hl_prev = emptyGen \<rparr>"

definition hash32FromSlice :: "bytes \<Rightarrow> bytes" where
  "hash32FromSlice h = fixed 32 h"

definition hl_seen :: "packetHashList \<Rightarrow> bytes \<Rightarrow> bool option" where
  "hl_seen hl h =
     (if h = [] then Some False
      else do {
        let k = hash32FromSlice h;
        c \<leftarrow> hash_has (hl_cur hl) k;
        if c then Some True else hash_has (hl_prev hl) k })"

definition hl_add :: "packetHashList \<Rightarrow> bytes \<Rightarrow> packetHashList option" where
  "hl_add hl h =
     (if h = [] then Some hl
      else do {
        let k = hash32FromSlice h;
        cur \<leftarrow> hash_put (hl_cur hl) k;
        let rotateAt = max (hl_max hl div 2) 1;
        if int (g_n cur) > rotateAt then Some (hl\<lparr> hl_prev := cur, hl_cur := emptyGen \<rparr>)
        else Some (hl\<lparr> hl_cur := cur \<rparr>) })"

definition hl_Len :: "packetHashList \<Rightarrow> nat" where
  "hl_Len hl = g_n (hl_cur hl) + g_n (hl_prev hl)"

section \<open>Linear probing\<close>

abbreviation gN :: "hashGen \<Rightarrow> nat" where
  "gN g \<equiv> length (g_occ g)"

definition occd :: "hashGen \<Rightarrow> nat \<Rightarrow> bool" where
  "occd g i \<longleftrightarrow> g_occ g ! i \<noteq> 0"

definition occset :: "hashGen \<Rightarrow> nat set" where
  "occset g = {i. i < gN g \<and> occd g i}"

definition gen_abs :: "hashGen \<Rightarrow> bytes set" where
  "gen_abs g = (\<lambda>i. g_slots g ! i) ` occset g"

definition home :: "hashGen \<Rightarrow> bytes \<Rightarrow> nat" where
  "home g k = hashSlot k (int (g_mask g))"

definition probe :: "hashGen \<Rightarrow> bytes \<Rightarrow> nat \<Rightarrow> nat" where
  "probe g k d = (home g k + d) mod gN g"

text \<open>
  The table invariant: a power-of-two size, a correct count, no key stored twice, and every stored
  key reachable from its home slot over occupied slots.
\<close>

definition gen_table :: "hashGen \<Rightarrow> bool" where
  "gen_table g \<longleftrightarrow> (\<exists>e. gN g = 2 ^ e) \<and> length (g_slots g) = gN g \<and> g_mask g = gN g - 1
     \<and> g_n g = card (occset g) \<and> inj_on (\<lambda>i. g_slots g ! i) (occset g)
     \<and> (\<forall>i \<in> occset g. \<exists>d < gN g. i = probe g (g_slots g ! i) d
            \<and> (\<forall>e < d. occd g (probe g (g_slots g ! i) e)))"

definition gen_inv :: "hashGen \<Rightarrow> bool" where
  "gen_inv g \<longleftrightarrow> g = emptyGen \<or> (gen_table g \<and> 2 * g_n g \<le> gN g)"

lemma hashSlot_le: "hashSlot k (int m) \<le> m"
proof -
  have "uint (x AND word_of_int (int m) :: u64) \<le> int m" for x
  proof -
    have "uint (x AND word_of_int (int m) :: u64) = uint x AND uint (word_of_int (int m) :: u64)"
      by (simp add: uint_and)
    also have "\<dots> \<le> uint (word_of_int (int m) :: u64)" by (rule AND_upper2) simp
    also have "\<dots> \<le> int m"
      by (simp add: unsigned_of_nat take_bit_nat_less_eq_self)
    finally show ?thesis .
  qed
  then have "nat (uint (x AND word_of_int (int m) :: u64)) \<le> m" for x by (simp only: nat_le_iff)
  then show ?thesis unfolding hashSlot_def Let_def by auto
qed

lemma table_pos: "gen_table g \<Longrightarrow> 0 < gN g"
  by (auto simp: gen_table_def)

lemma table_slots: "gen_table g \<Longrightarrow> length (g_slots g) = gN g"
  by (simp add: gen_table_def)

lemma home_lt: "gen_table g \<Longrightarrow> home g k < gN g"
proof -
  assume t: "gen_table g"
  then have "g_mask g = gN g - 1" by (simp add: gen_table_def)
  then show ?thesis using hashSlot_le [of k "g_mask g"] table_pos [OF t] unfolding home_def by linarith
qed

lemma probe_lt: "gen_table g \<Longrightarrow> probe g k d < gN g"
  using table_pos by (simp add: probe_def)

lemma probe_0: "gen_table g \<Longrightarrow> probe g k 0 = hashSlot k (int (g_mask g))"
  using home_lt [of g k] by (simp add: probe_def) (simp add: home_def)

lemma probe_Suc: "gen_table g \<Longrightarrow> (probe g k d + 1) AND g_mask g = probe g k (Suc d)"
proof -
  assume t: "gen_table g"
  then obtain e where e: "gN g = 2 ^ e" "g_mask g = 2 ^ e - 1" by (auto simp: gen_table_def)
  have "(probe g k d + 1) AND g_mask g = take_bit e (probe g k d + 1)"
    by (simp add: e take_bit_eq_mask mask_nat_def)
  also have "\<dots> = probe g k (Suc d)"
    by (simp add: probe_def e take_bit_eq_mod mod_Suc_eq)
  finally show ?thesis .
qed

lemma probe_surj:
  assumes "gen_table g" "i < gN g"
  obtains d where "d < gN g" "probe g k d = i"
proof
  let ?d = "(i + (gN g - home g k)) mod gN g"
  show "?d < gN g" using table_pos [OF assms(1)] by simp
  have "home g k + (i + (gN g - home g k)) = i + gN g" using home_lt [OF assms(1), of k] by simp
  then show "probe g k ?d = i" using assms(2) by (simp add: probe_def mod_add_right_eq)
qed

text \<open>Where a probe for \<open>k\<close> stops: at a free slot or at \<open>k\<close> itself.\<close>

definition stops :: "hashGen \<Rightarrow> bytes \<Rightarrow> nat \<Rightarrow> bool" where
  "stops g k i \<longleftrightarrow> \<not> occd g i \<or> g_slots g ! i = k"

lemma free_slot:
  assumes "gen_table g" "g_n g < gN g"
  obtains i where "i < gN g" "\<not> occd g i"
proof -
  have "occset g \<noteq> {..<gN g}" using assms by (auto simp: gen_table_def)
  moreover have "occset g \<subseteq> {..<gN g}" by (auto simp: occset_def)
  ultimately show ?thesis using that by (auto simp: occset_def)
qed

lemma first_stop:
  assumes "gen_table g" "g_n g < gN g"
  obtains d where "d < gN g" "stops g k (probe g k d)" "\<And>e. e < d \<Longrightarrow> \<not> stops g k (probe g k e)"
proof -
  obtain i where i: "i < gN g" "\<not> occd g i" using free_slot [OF assms] .
  obtain d0 where d0: "d0 < gN g" "probe g k d0 = i" using probe_surj [OF assms(1) i(1)] .
  define d where "d = (LEAST d. stops g k (probe g k d))"
  have st: "stops g k (probe g k d0)" using i d0 by (simp add: stops_def)
  show ?thesis
  proof (rule that [of d])
    show "d < gN g" using Least_le [of "\<lambda>d. stops g k (probe g k d)", OF st] d0 by (simp add: d_def)
    show "stops g k (probe g k d)" unfolding d_def by (rule LeastI) (rule st)
    show "\<not> stops g k (probe g k e)" if "e < d" for e using not_less_Least that unfolding d_def by blast
  qed
qed

text \<open>Both loops walk the probe sequence to its first stop.\<close>

lemma has_loop_walk:
  assumes "gen_table g" "stops g k (probe g k d)" "\<And>e. e < d \<Longrightarrow> \<not> stops g k (probe g k e)" "e \<le> d"
  shows "has_loop g k (probe g k e) = Some (occd g (probe g k d))"
  using assms(4)
proof (induction "d - e" arbitrary: e)
  case 0
  then show ?case
    using assms(1,2) probe_lt [OF assms(1), of k d] table_slots [OF assms(1)]
    by (subst has_loop.simps) (auto simp: stops_def occd_def)
next
  case (Suc n)
  then have "e < d" by simp
  then have "\<not> stops g k (probe g k e)" using assms(3) by blast
  then have "has_loop g k (probe g k e) = has_loop g k ((probe g k e + 1) AND g_mask g)"
    using probe_lt [OF assms(1), of k e] table_slots [OF assms(1)]
    by (subst has_loop.simps) (auto simp: stops_def occd_def)
  also have "\<dots> = Some (occd g (probe g k d))"
    using Suc probe_Suc [OF assms(1), of k e] by (simp del: add_Suc_right)
  finally show ?case .
qed

lemma insert_loop_walk:
  assumes "gen_table g" "stops g k (probe g k d)" "\<And>e. e < d \<Longrightarrow> \<not> stops g k (probe g k e)" "e \<le> d"
  shows "insert_loop g k (probe g k e) = Some
    (if occd g (probe g k d) then g
     else g\<lparr> g_slots := (g_slots g)[probe g k d := k], g_occ := (g_occ g)[probe g k d := 1], g_n := g_n g + 1 \<rparr>)"
  using assms(4)
proof (induction "d - e" arbitrary: e)
  case 0
  then show ?case
    using assms(1,2) probe_lt [OF assms(1), of k d] table_slots [OF assms(1)]
    by (subst insert_loop.simps) (auto simp: stops_def occd_def)
next
  case (Suc n)
  then have "e < d" by simp
  then have "\<not> stops g k (probe g k e)" using assms(3) by blast
  then have "insert_loop g k (probe g k e) = insert_loop g k ((probe g k e + 1) AND g_mask g)"
    using probe_lt [OF assms(1), of k e] table_slots [OF assms(1)]
    by (subst insert_loop.simps) (auto simp: stops_def occd_def)
  also have "\<dots> = Some
    (if occd g (probe g k d) then g
     else g\<lparr> g_slots := (g_slots g)[probe g k d := k], g_occ := (g_occ g)[probe g k d := 1], g_n := g_n g + 1 \<rparr>)"
    using Suc probe_Suc [OF assms(1), of k e] by (simp del: add_Suc_right)
  finally show ?case .
qed

lemma gen_absI: "i < gN g \<Longrightarrow> occd g i \<Longrightarrow> g_slots g ! i = k \<Longrightarrow> k \<in> gen_abs g"
  unfolding gen_abs_def occset_def by blast

lemma hash_has_table:
  assumes "gen_table g" "g_n g < gN g"
  shows "hash_has g k = Some (k \<in> gen_abs g)"
proof -
  obtain d where d: "d < gN g" "stops g k (probe g k d)" "\<And>e. e < d \<Longrightarrow> \<not> stops g k (probe g k e)"
    using first_stop [OF assms] by metis
  have "occd g (probe g k d) \<longleftrightarrow> k \<in> gen_abs g"
  proof
    assume "occd g (probe g k d)"
    then show "k \<in> gen_abs g"
      using d(2) gen_absI [OF probe_lt [OF assms(1)]] by (auto simp: stops_def)
  next
    assume "k \<in> gen_abs g"
    then obtain i where i: "i \<in> occset g" "g_slots g ! i = k" by (auto simp: gen_abs_def)
    then obtain d' where d': "i = probe g k d'" "\<forall>e < d'. occd g (probe g k e)"
      using assms(1) by (auto simp: gen_table_def)
    then have "stops g k (probe g k d')" "occd g (probe g k d')"
      using i by (auto simp: stops_def occset_def)
    then have "d \<le> d'" using d(3) not_le by blast
    then show "occd g (probe g k d)" using d' \<open>occd g (probe g k d')\<close> le_eq_less_or_eq by blast
  qed
  moreover have "g_slots g \<noteq> []" using table_pos [OF assms(1)] table_slots [OF assms(1)] by auto
  moreover have "has_loop g k (probe g k 0) = Some (occd g (probe g k d))"
    using has_loop_walk [OF assms(1) d(2,3)] by blast
  ultimately show ?thesis using probe_0 [OF assms(1), of k] by (simp add: hash_has_def)
qed

lemma hash_insert_old:
  assumes "gen_table g" "k \<in> gen_abs g" "g_n g < gN g"
  shows "hash_insert g k = Some g"
proof -
  obtain d where d: "d < gN g" "stops g k (probe g k d)" "\<And>e. e < d \<Longrightarrow> \<not> stops g k (probe g k e)"
    using first_stop [OF assms(1,3)] by metis
  have "has_loop g k (probe g k 0) = Some (occd g (probe g k d))"
    using has_loop_walk [OF assms(1) d(2,3)] by blast
  moreover have "g_slots g \<noteq> []" using table_pos [OF assms(1)] table_slots [OF assms(1)] by auto
  ultimately have "occd g (probe g k d)"
    using hash_has_table [OF assms(1,3), of k] assms(2) probe_0 [OF assms(1), of k] by (simp add: hash_has_def)
  then show ?thesis
    using insert_loop_walk [OF assms(1) d(2,3), of 0] probe_0 [OF assms(1), of k] by (simp add: hash_insert_def)
qed

text \<open>Storing a new key at the free slot where its probe stops.\<close>

lemma store_table:
  assumes t: "gen_table g" and new: "k \<notin> gen_abs g" and free: "\<not> occd g (probe g k d)" and d: "d < gN g"
    and path: "\<And>e. e < d \<Longrightarrow> occd g (probe g k e)"
  defines "j \<equiv> probe g k d"
  defines "g' \<equiv> g\<lparr> g_slots := (g_slots g)[j := k], g_occ := (g_occ g)[j := 1], g_n := g_n g + 1 \<rparr>"
  shows "gen_table g'" "gen_abs g' = insert k (gen_abs g)"
proof -
  have j: "j < gN g" unfolding j_def by (rule probe_lt [OF t])
  have sl: "length (g_slots g) = gN g" by (rule table_slots [OF t])
  have occ': "occd g' i \<longleftrightarrow> i = j \<or> occd g i" if "i < gN g" for i
    using that j by (auto simp: occd_def g'_def nth_list_update)
  have set': "occset g' = insert j (occset g)" using j occ' by (auto simp: occset_def g'_def)
  have jn: "j \<notin> occset g" using free by (simp add: occset_def j_def)
  have at: "g_slots g' ! j = k" using j sl by (simp add: g'_def)
  have keep: "g_slots g' ! i = g_slots g ! i" if "i \<in> occset g" for i
    using that jn by (cases "i = j") (auto simp: g'_def)
  have pr: "probe g' x e = probe g x e" for x e by (simp add: probe_def home_def g'_def)
  have N: "gN g' = gN g" by (simp add: g'_def)
  have img: "(\<lambda>i. g_slots g' ! i) ` occset g = gen_abs g" using keep by (auto simp: gen_abs_def)
  show "gen_abs g' = insert k (gen_abs g)" using img at set' by (simp add: gen_abs_def)
  have fin: "finite (occset g)" by (simp add: occset_def)
  have inj0: "inj_on (\<lambda>i. g_slots g' ! i) (occset g)"
    using t keep by (auto simp: gen_table_def inj_on_def)
  have inj: "inj_on (\<lambda>i. g_slots g' ! i) (occset g')"
    using inj0 new img at jn by (simp add: set')
  have reach: "\<exists>d < gN g'. i = probe g' (g_slots g' ! i) d \<and> (\<forall>e < d. occd g' (probe g' (g_slots g' ! i) e))"
    if "i \<in> occset g'" for i
  proof (cases "i = j")
    case True
    then show ?thesis using d path at occ' probe_lt [OF t] by (auto simp: pr N j_def)
  next
    case False
    then have i: "i \<in> occset g" using that set' by simp
    then obtain d1 where "d1 < gN g" "i = probe g (g_slots g ! i) d1" "\<forall>e < d1. occd g (probe g (g_slots g ! i) e)"
      using t unfolding gen_table_def by blast
    then show ?thesis using keep [OF i] occ' probe_lt [OF t] by (auto simp: pr N)
  qed
  show "gen_table g'"
    unfolding gen_table_def
  proof (intro conjI ballI)
    show "\<exists>e. gN g' = 2 ^ e" "length (g_slots g') = gN g'" "g_mask g' = gN g' - 1"
      using t by (simp_all add: gen_table_def g'_def)
    show "g_n g' = card (occset g')" using t set' jn fin by (simp add: gen_table_def g'_def)
  qed (use inj reach in blast)+
qed

lemma hash_insert_table:
  assumes "gen_table g" "g_n g < gN g"
  shows "\<exists>g'. hash_insert g k = Some g' \<and> gen_table g' \<and> gN g' = gN g \<and> gen_abs g' = insert k (gen_abs g)
            \<and> g_n g' \<le> g_n g + 1"
proof (cases "k \<in> gen_abs g")
  case True
  then show ?thesis using hash_insert_old [OF assms(1) True assms(2)] assms(1) by auto
next
  case False
  obtain d where d: "d < gN g" "stops g k (probe g k d)" "\<And>e. e < d \<Longrightarrow> \<not> stops g k (probe g k e)"
    using first_stop [OF assms] by metis
  have free: "\<not> occd g (probe g k d)"
    using d(2) False gen_absI [OF probe_lt [OF assms(1)]] by (auto simp: stops_def)
  have path: "occd g (probe g k e)" if "e < d" for e using d(3) [OF that] by (simp add: stops_def)
  show ?thesis
    using store_table [OF assms(1) False free d(1) path] insert_loop_walk [OF assms(1) d(2,3), of 0]
      probe_0 [OF assms(1), of k] free by (simp add: hash_insert_def)
qed

section \<open>Growing\<close>

text \<open>The empty table of a given power-of-two size.\<close>

lemma fresh_table:
  assumes "ng = \<lparr> g_slots = replicate ns x, g_occ = replicate ns 0, g_n = 0, g_mask = ns - 1 \<rparr>" "ns = 2 ^ e"
  shows "gen_table ng" "gen_abs ng = {}" "gN ng = ns" "g_n ng = 0"
proof -
  have "occset ng = {}" using assms by (auto simp: occset_def occd_def)
  then show "gen_table ng" "gen_abs ng = {}" "gN ng = ns" "g_n ng = 0"
    using assms by (auto simp: gen_table_def gen_abs_def)
qed

text \<open>The keys stored at the occupied positions from \<open>i\<close> on, for the occupancy bytes \<open>os\<close>.\<close>

definition keys_from :: "hashGen \<Rightarrow> nat \<Rightarrow> byte list \<Rightarrow> bytes set" where
  "keys_from g i os = {x. \<exists>j < length os. os ! j \<noteq> 0 \<and> x = g_slots g ! (i + j)}"

lemma keys_from_simps:
  "keys_from g i [] = {}"
  "keys_from g i (o1 # os) = (if o1 \<noteq> 0 then {g_slots g ! i} else {}) \<union> keys_from g (i + 1) os"
  by (auto simp: keys_from_def Ex_less_Suc2)

lemma grow_loop_table:
  assumes "gen_table ng" "g_n ng + length (filter (\<lambda>x. x \<noteq> 0) os) < gN ng" "i + length os \<le> length (g_slots g)"
  shows "\<exists>ng'. grow_loop g os i ng = Some ng' \<and> gen_table ng' \<and> gN ng' = gN ng
     \<and> gen_abs ng' = gen_abs ng \<union> keys_from g i os
     \<and> g_n ng' \<le> g_n ng + length (filter (\<lambda>x. x \<noteq> 0) os)"
  using assms
proof (induction os arbitrary: i ng)
  case (Cons o1 os)
  show ?case
  proof (cases "o1 = 0")
    case True
    then show ?thesis using Cons.IH [of ng "i + 1"] Cons.prems by (auto simp: keys_from_simps)
  next
    case False
    obtain ng1 where n1: "hash_insert ng (g_slots g ! i) = Some ng1" "gen_table ng1" "gN ng1 = gN ng"
      "gen_abs ng1 = insert (g_slots g ! i) (gen_abs ng)" "g_n ng1 \<le> g_n ng + 1"
      using hash_insert_table [of ng "g_slots g ! i"] Cons.prems(1,2) by auto
    obtain ng2 where n2: "grow_loop g os (i + 1) ng1 = Some ng2" "gen_table ng2" "gN ng2 = gN ng1"
      "gen_abs ng2 = gen_abs ng1 \<union> keys_from g (i + 1) os"
      "g_n ng2 \<le> g_n ng1 + length (filter (\<lambda>x. x \<noteq> 0) os)"
      using Cons.IH [OF n1(2), of "i + 1"] Cons.prems n1(3,5) False by auto
    have "grow_loop g (o1 # os) i ng = Some ng2" using False n1(1) n2(1) Cons.prems(3) by simp
    moreover have "gen_abs ng2 = gen_abs ng \<union> keys_from g i (o1 # os)"
      unfolding n2(4) n1(4) using False by (auto simp: keys_from_simps)
    ultimately show ?thesis using n1(3,5) n2(2,3,5) False by auto
  qed
qed (simp add: keys_from_simps)

lemma occ_count: "card (occset g) = length (filter (\<lambda>x. x \<noteq> 0) (g_occ g))"
  by (simp add: occset_def occd_def length_filter_conv_card)

lemma hash_grow_inv:
  assumes "gen_inv g"
  shows "\<exists>g'. hash_grow g = Some g' \<and> gen_table g' \<and> gen_abs g' = gen_abs g \<and> g_n g' \<le> g_n g
            \<and> gN g' = (if g_slots g = [] then 8 else 2 * gN g)"
proof -
  let ?ns = "if length (g_slots g) > 0 then length (g_slots g) * 2 else 8"
  define ng where "ng = \<lparr> g_slots = replicate ?ns (replicate 32 (0 :: byte)), g_occ = replicate ?ns 0, g_n = 0, g_mask = ?ns - 1 \<rparr>"
  have sizes: "length (g_slots g) = gN g" "g_n g = card (occset g)" "2 * g_n g \<le> gN g"
    using assms by (auto simp: gen_inv_def gen_table_def emptyGen_def occset_def)
  have pow: "\<exists>e. ?ns = 2 ^ e"
  proof (cases "g_slots g = []")
    case True
    then show ?thesis by (intro exI [of _ 3]) simp
  next
    case False
    then obtain e where "gN g = 2 ^ e" using assms by (auto simp: gen_inv_def gen_table_def emptyGen_def)
    then show ?thesis using False sizes by (intro exI [of _ "Suc e"]) simp
  qed
  then obtain e where e: "?ns = 2 ^ e" by blast
  note ng = fresh_table [OF ng_def e]
  have cnt: "length (filter (\<lambda>x. x \<noteq> 0) (g_occ g)) = g_n g" using occ_count [of g] sizes by simp
  have "g_n g < ?ns" using sizes by (cases "g_occ g") auto
  then obtain g' where g': "grow_loop g (g_occ g) 0 ng = Some g'" "gen_table g'" "gN g' = ?ns"
    "gen_abs g' = keys_from g 0 (g_occ g)" "g_n g' \<le> g_n g"
    using grow_loop_table [OF ng(1), of "g_occ g" 0 g] ng cnt sizes by auto
  have "gen_abs g' = gen_abs g" unfolding g'(4) by (auto simp: keys_from_def gen_abs_def occset_def occd_def)
  moreover have "hash_grow g = Some g'" using g'(1) by (simp add: hash_grow_def ng_def Let_def)
  ultimately show ?thesis using g' sizes by auto
qed

lemma hash_put_inv:
  assumes "gen_inv g"
  shows "\<exists>g'. hash_put g k = Some g' \<and> gen_inv g' \<and> gen_abs g' = insert k (gen_abs g)"
proof -
  obtain g1 where g1: "(if g_slots g = [] \<or> (g_n g + 1) * 2 > length (g_slots g) then hash_grow g else Some g) = Some g1"
    "gen_table g1" "gen_abs g1 = gen_abs g" "2 * (g_n g1 + 1) \<le> gN g1"
  proof (cases "g_slots g = [] \<or> (g_n g + 1) * 2 > length (g_slots g)")
    case True
    obtain g' where g': "hash_grow g = Some g'" "gen_table g'" "gen_abs g' = gen_abs g" "g_n g' \<le> g_n g"
      "gN g' = (if g_slots g = [] then 8 else 2 * gN g)"
      using hash_grow_inv [OF assms] by blast
    have "2 * (g_n g' + 1) \<le> gN g'"
    proof (cases "g_slots g = []")
      case True
      then have "g_n g = 0" using assms by (auto simp: gen_inv_def emptyGen_def gen_table_def)
      then show ?thesis using g'(4,5) True by simp
    next
      case False
      then have "2 * g_n g \<le> gN g" "0 < gN g"
        using assms by (auto simp: gen_inv_def emptyGen_def gen_table_def)
      then have "g_n g + 1 \<le> gN g" by (cases "g_n g"; cases "g_occ g") auto
      moreover have "gN g' = 2 * gN g" using g'(5) False by simp
      ultimately show ?thesis using g'(4) by simp
    qed
    then show ?thesis using that [of g'] g' True by simp
  next
    case False
    then have "gen_table g" using assms by (auto simp: gen_inv_def emptyGen_def)
    then show ?thesis using that [of g] False by (simp add: table_slots)
  qed
  obtain g2 where g2: "hash_insert g1 k = Some g2" "gen_table g2" "gN g2 = gN g1" "gen_abs g2 = insert k (gen_abs g1)"
    "g_n g2 \<le> g_n g1 + 1"
    using hash_insert_table [OF g1(2), of k] g1(4) by auto
  have "hash_put g k = Some g2" using g1(1) g2(1) by (simp add: hash_put_def)
  moreover have "gen_inv g2" using g2 g1(4) by (simp add: gen_inv_def)
  ultimately show ?thesis using g1(3) g2(4) by auto
qed

lemma hash_has_inv: "gen_inv g \<Longrightarrow> hash_has g k = Some (k \<in> gen_abs g)"
proof (cases "g = emptyGen")
  case True
  then show ?thesis by (simp add: hash_has_def emptyGen_def gen_abs_def occset_def)
next
  case False
  assume "gen_inv g"
  then have "gen_table g" "2 * g_n g \<le> gN g" using False by (auto simp: gen_inv_def)
  moreover from this have "g_n g < gN g" using table_pos [of g] by linarith
  ultimately show ?thesis by (simp add: hash_has_table)
qed

lemma gen_size: "gen_inv g \<Longrightarrow> g_n g = card (gen_abs g)"
  by (auto simp: gen_inv_def gen_table_def gen_abs_def card_image emptyGen_def occset_def)

lemma gen_finite: "finite (gen_abs g)"
  by (simp add: gen_abs_def occset_def)

section \<open>The contract of a set of seen keys\<close>

locale seen_set =
  fixes empty_s :: 's
    and has_s :: "'s \<Rightarrow> 'k \<Rightarrow> bool option"
    and put_s :: "'s \<Rightarrow> 'k \<Rightarrow> 's option"
    and size_s :: "'s \<Rightarrow> nat"
    and inv_s :: "'s \<Rightarrow> bool"
    and abs_s :: "'s \<Rightarrow> 'k set"
  assumes empty_inv: "inv_s empty_s" and empty_abs: "abs_s empty_s = {}"
    and has_eq: "inv_s s \<Longrightarrow> has_s s k = Some (k \<in> abs_s s)"
    and put_ex: "inv_s s \<Longrightarrow> \<exists>s'. put_s s k = Some s' \<and> inv_s s' \<and> abs_s s' = insert k (abs_s s)"
    and size_eq: "inv_s s \<Longrightarrow> size_s s = card (abs_s s)" and abs_finite: "inv_s s \<Longrightarrow> finite (abs_s s)"
begin

lemma put_obtain:
  assumes "inv_s s"
  obtains s' where "put_s s k = Some s'" "inv_s s'" "abs_s s' = insert k (abs_s s)"
    "size_s s' \<le> size_s s + 1" "k \<in> abs_s s \<Longrightarrow> size_s s' = size_s s"
proof -
  obtain s' where s': "put_s s k = Some s'" "inv_s s'" "abs_s s' = insert k (abs_s s)"
    using put_ex [OF assms] by blast
  then show ?thesis
    using that [of s'] assms size_eq abs_finite by (simp add: card_insert_if insert_absorb)
qed

lemma put_all:
  "inv_s s \<Longrightarrow> \<exists>s'. fold (\<lambda>k a. Option.bind a (\<lambda>s. put_s s k)) ks (Some s) = Some s' \<and> inv_s s'
      \<and> abs_s s' = abs_s s \<union> set ks"
proof (induction ks arbitrary: s)
  case (Cons k ks)
  obtain s1 where "put_s s k = Some s1" "inv_s s1" "abs_s s1 = insert k (abs_s s)" using put_ex [OF Cons.prems] by blast
  then show ?case using Cons.IH [of s1] by auto
qed simp

end

interpretation gen_set: seen_set emptyGen hash_has hash_put g_n gen_inv gen_abs
  by unfold_locales
    (simp_all add: hash_has_inv hash_put_inv gen_size gen_finite, simp_all add: gen_inv_def emptyGen_def gen_abs_def occset_def)

section \<open>The generations\<close>

definition hl_rotateAt :: "packetHashList \<Rightarrow> nat" where
  "hl_rotateAt hl = nat (max (hl_max hl div 2) 1)"

definition hl_inv :: "packetHashList \<Rightarrow> bool" where
  "hl_inv hl \<longleftrightarrow> gen_inv (hl_cur hl) \<and> gen_inv (hl_prev hl) \<and> g_n (hl_cur hl) \<le> hl_rotateAt hl
     \<and> g_n (hl_prev hl) \<le> hl_rotateAt hl + 1"

definition hl_known :: "packetHashList \<Rightarrow> bytes set" where
  "hl_known hl = gen_abs (hl_cur hl) \<union> gen_abs (hl_prev hl)"

lemma hl_new_inv: "hl_inv (newPacketHashList limit)" "hl_known (newPacketHashList limit) = {}"
  using gen_set.empty_inv gen_set.empty_abs
  by (simp_all add: hl_inv_def hl_known_def newPacketHashList_def) (simp add: emptyGen_def)

lemma hl_seen_eq: "hl_inv hl \<Longrightarrow> hl_seen hl h = Some (h \<noteq> [] \<and> hash32FromSlice h \<in> hl_known hl)"
  by (simp add: hl_seen_def hl_inv_def hl_known_def gen_set.has_eq Let_def)

text \<open>One addition: either the key joins the current generation, or the generations rotate.\<close>

lemma hl_add_cases:
  assumes "hl_inv hl" "h \<noteq> []"
  obtains cur hl' where "hl_add hl h = Some hl'" "hl_inv hl'" "hl_max hl' = hl_max hl"
    "gen_abs cur = insert (hash32FromSlice h) (gen_abs (hl_cur hl))" "g_n cur \<le> g_n (hl_cur hl) + 1"
    "(g_n cur \<le> hl_rotateAt hl \<and> hl_cur hl' = cur \<and> hl_prev hl' = hl_prev hl)
     \<or> (g_n cur > hl_rotateAt hl \<and> hl_cur hl' = emptyGen \<and> hl_prev hl' = cur)"
proof -
  obtain cur where c: "hash_put (hl_cur hl) (hash32FromSlice h) = Some cur" "gen_inv cur"
    "gen_abs cur = insert (hash32FromSlice h) (gen_abs (hl_cur hl))" "g_n cur \<le> g_n (hl_cur hl) + 1"
    using gen_set.put_obtain [of "hl_cur hl"] assms(1) by (metis hl_inv_def)
  have rot: "int (g_n cur) > max (hl_max hl div 2) 1 \<longleftrightarrow> g_n cur > hl_rotateAt hl"
    unfolding hl_rotateAt_def by linarith
  have e0: "gen_inv emptyGen" "g_n emptyGen = 0" by (simp_all add: gen_inv_def emptyGen_def)
  show ?thesis
  proof (cases "g_n cur > hl_rotateAt hl")
    case True
    then show ?thesis
      using that [of "hl\<lparr> hl_prev := cur, hl_cur := emptyGen \<rparr>" cur] assms c rot e0
      by (auto simp: hl_add_def Let_def hl_inv_def hl_rotateAt_def)
  next
    case False
    then show ?thesis
      using that [of "hl\<lparr> hl_cur := cur \<rparr>" cur] assms c rot
      by (auto simp: hl_add_def Let_def hl_inv_def hl_rotateAt_def)
  qed
qed

fun hl_addAll :: "packetHashList \<Rightarrow> bytes list \<Rightarrow> packetHashList option" where
  "hl_addAll hl [] = Some hl"
| "hl_addAll hl (h # hs) = Option.bind (hl_add hl h) (\<lambda>hl'. hl_addAll hl' hs)"

lemma hl_addAll_snoc: "hl_addAll hl (hs @ [h]) = Option.bind (hl_addAll hl hs) (\<lambda>hl'. hl_add hl' h)"
  by (induction hs arbitrary: hl) (auto split: bind_splits)

text \<open>
  The history invariant: what is known was added, and a hash followed by at most \<open>rotateAt\<close>
  additions is in the current generation, or in the previous one while the current one is still
  too small to rotate.
\<close>

definition hl_history :: "nat \<Rightarrow> bytes list \<Rightarrow> packetHashList \<Rightarrow> bool" where
  "hl_history R hs hl \<longleftrightarrow> hl_inv hl \<and> hl_rotateAt hl = R \<and> hl_known hl \<subseteq> hash32FromSlice ` (set hs - {[]})
     \<and> (\<forall>a h b. hs = a @ h # b \<longrightarrow> h \<noteq> [] \<longrightarrow> length b \<le> R \<longrightarrow>
          hash32FromSlice h \<in> gen_abs (hl_cur hl)
          \<or> (hash32FromSlice h \<in> gen_abs (hl_prev hl) \<and> g_n (hl_cur hl) \<le> length b))"

lemma snoc_split:
  "hs @ [x] = a @ h # b \<Longrightarrow> (b = [] \<and> h = x) \<or> (\<exists>b'. b = b' @ [x] \<and> hs = a @ h # b')"
  by (cases b rule: rev_cases) auto

lemma hl_history_add:
  assumes "hl_history R hs hl"
  shows "\<exists>hl'. hl_add hl x = Some hl' \<and> hl_history R (hs @ [x]) hl'"
proof (cases "x = []")
  case True
  have "hash32FromSlice h \<in> gen_abs (hl_cur hl)
      \<or> (hash32FromSlice h \<in> gen_abs (hl_prev hl) \<and> g_n (hl_cur hl) \<le> length b)"
    if s: "hs @ [x] = a @ h # b" "h \<noteq> []" "length b \<le> R" for a h b
  proof -
    obtain b' where "b = b' @ [x]" "hs = a @ h # b'" using snoc_split [OF s(1)] s(2) True by auto
    then show ?thesis using assms s(2,3) unfolding hl_history_def by fastforce
  qed
  then have "hl_history R (hs @ [x]) hl" using assms True unfolding hl_history_def by auto
  then show ?thesis using True by (simp add: hl_add_def)
next
  case False
  have inv: "hl_inv hl" and R: "hl_rotateAt hl = R" using assms by (simp_all add: hl_history_def)
  obtain cur hl' where c: "hl_add hl x = Some hl'" "hl_inv hl'" "hl_max hl' = hl_max hl"
    "gen_abs cur = insert (hash32FromSlice x) (gen_abs (hl_cur hl))" "g_n cur \<le> g_n (hl_cur hl) + 1"
    "(g_n cur \<le> R \<and> hl_cur hl' = cur \<and> hl_prev hl' = hl_prev hl)
     \<or> (g_n cur > R \<and> hl_cur hl' = emptyGen \<and> hl_prev hl' = cur)"
    using hl_add_cases [OF inv False] R by metis
  have e: "gen_abs emptyGen = {}" "g_n emptyGen = 0" by (simp_all add: gen_set.empty_abs) (simp add: emptyGen_def)
  have "hl_known hl' \<subseteq> insert (hash32FromSlice x) (hl_known hl)" using c(4,6) e by (auto simp: hl_known_def)
  then have known: "hl_known hl' \<subseteq> hash32FromSlice ` (set (hs @ [x]) - {[]})"
    using assms False unfolding hl_history_def by auto
  have "hash32FromSlice h \<in> gen_abs (hl_cur hl')
      \<or> (hash32FromSlice h \<in> gen_abs (hl_prev hl') \<and> g_n (hl_cur hl') \<le> length b)"
    if s: "hs @ [x] = a @ h # b" "h \<noteq> []" "length b \<le> R" for a h b
  proof (cases "b = [] \<and> h = x")
    case True
    then show ?thesis using c(4,6) e by auto
  next
    case False
    then obtain b' where b: "b = b' @ [x]" "hs = a @ h # b'" using snoc_split [OF s(1)] by auto
    then have "hash32FromSlice h \<in> gen_abs (hl_cur hl)
        \<or> (hash32FromSlice h \<in> gen_abs (hl_prev hl) \<and> g_n (hl_cur hl) \<le> length b')"
      using assms s(2,3) unfolding hl_history_def by auto
    then show ?thesis using c(4-6) e b(1) s(3) by auto
  qed
  then have "hl_history R (hs @ [x]) hl'"
    using known c(2,3) R unfolding hl_history_def by (auto simp: hl_rotateAt_def)
  then show ?thesis using c(1) by blast
qed

lemma hl_history_addAll:
  "\<exists>hl. hl_addAll (newPacketHashList limit) hs = Some hl \<and> hl_history (hl_rotateAt (newPacketHashList limit)) hs hl"
proof (induction hs rule: rev_induct)
  case Nil
  show ?case using hl_new_inv by (simp add: hl_history_def)
next
  case (snoc x hs)
  then obtain hl where "hl_addAll (newPacketHashList limit) hs = Some hl"
    "hl_history (hl_rotateAt (newPacketHashList limit)) hs hl" by blast
  then show ?case using hl_history_add [of _ hs hl x] by (simp add: hl_addAll_snoc)
qed

section \<open>Properties\<close>

text \<open>
  C5: the open-addressing table implements a set. From an empty table, any sequence of \<open>put\<close>s returns
  (every probe loop and every rehash ends), membership afterwards is exactly having been put, \<open>has\<close>
  always returns, and the element count is the number of distinct keys.
\<close>

theorem hashGen_is_a_set:
  "\<exists>g. fold (\<lambda>k a. Option.bind a (\<lambda>g. hash_put g k)) ks (Some emptyGen) = Some g
     \<and> (\<forall>k. hash_has g k = Some (k \<in> set ks)) \<and> g_n g = card (set ks)"
  using gen_set.put_all [OF gen_set.empty_inv, of ks] gen_set.has_eq gen_set.size_eq gen_set.empty_abs by fastforce

text \<open>
  C6: the duplicate filter over any history of additions. All additions return; a hash is reported as
  seen only if it was added; the last \<open>rotateAt + 1\<close> added hashes (half the configured maximum, plus
  one) are all reported as seen; and at most \<open>2 * rotateAt + 1\<close> hashes are kept.
\<close>

theorem hashlist_remembers_recent:
  fixes limit :: int
  defines "R \<equiv> hl_rotateAt (newPacketHashList limit)"
  shows "\<exists>hl. hl_addAll (newPacketHashList limit) hs = Some hl
     \<and> (\<forall>h. hl_seen hl h = Some True \<longrightarrow> h \<noteq> [] \<and> hash32FromSlice h \<in> hash32FromSlice ` set hs)
     \<and> (\<forall>h \<in> set (drop (length hs - (R + 1)) hs). h \<noteq> [] \<longrightarrow> hl_seen hl h = Some True)
     \<and> hl_Len hl \<le> 2 * R + 1"
proof -
  obtain hl where hl: "hl_addAll (newPacketHashList limit) hs = Some hl" "hl_history R hs hl"
    using hl_history_addAll unfolding R_def by blast
  then have inv: "hl_inv hl" and R: "hl_rotateAt hl = R" by (simp_all add: hl_history_def)
  have "hl_seen hl h = Some True" if h: "h \<in> set (drop (length hs - (R + 1)) hs)" "h \<noteq> []" for h
  proof -
    obtain p b where pb: "drop (length hs - (R + 1)) hs = p @ h # b" using split_list [OF h(1)] by blast
    then have "length (p @ h # b) = length hs - (length hs - (R + 1))" by (metis length_drop)
    then have "length b \<le> R" by simp
    moreover have "hs = (take (length hs - (R + 1)) hs @ p) @ h # b" by (simp add: pb [symmetric])
    ultimately show ?thesis
      using hl(2) h(2) unfolding hl_history_def hl_seen_eq [OF inv] hl_known_def by fastforce
  qed
  moreover have "hl_Len hl \<le> 2 * R + 1" using inv R by (simp add: hl_Len_def hl_inv_def)
  moreover have "h \<noteq> [] \<and> hash32FromSlice h \<in> hash32FromSlice ` set hs" if "hl_seen hl h = Some True" for h
    using that hl(2) unfolding hl_history_def hl_seen_eq [OF inv] by auto
  ultimately show ?thesis using hl(1) by blast
qed

theorem hashlist_remembers_recent_witness:
  "\<exists>hl. hl_addAll (newPacketHashList 2) [[1], [2]] = Some hl
     \<and> (\<forall>h. hl_seen hl h = Some True \<longrightarrow> h \<noteq> [] \<and> hash32FromSlice h \<in> hash32FromSlice ` set [[1], [2]])
     \<and> hl_seen hl [1] = Some True \<and> hl_Len hl \<le> 3"
  using hashlist_remembers_recent [of 2 "[[1], [2]]"] by (auto simp: hl_rotateAt_def newPacketHashList_def)

end
