(* ===== verification/Channel.thy ===== *)
theory Channel
  imports RNS_Prelude Complex_Main
begin

text \<open>
  Reliable message channels, \<open>pkg/channel/channel.go\<close>: the envelope format, the send path with its
  window, retransmission on timeout, delivery confirmation, and the receive path with its
  reordering ring. The mutexes make each operation atomic; an operation is a function of the
  channel record that also returns what it asks of the link (timers, resends, receipts), and the
  link's answers (status, round-trip time, MDU, the sent packet) are arguments. Round-trip times
  are rational numbers. A message is either an instance a registered constructor unpacked or a
  \<open>GenericMessage\<close>.
\<close>

section \<open>Constants\<close>

definition WindowInitial :: int where "WindowInitial = 2"
definition WindowMinSlow :: int where "WindowMinSlow = 2"
definition WindowMinMedium :: int where "WindowMinMedium = 5"
definition WindowMinFast :: int where "WindowMinFast = 16"
definition WindowMaxSlow :: int where "WindowMaxSlow = 5"
definition WindowMaxMedium :: int where "WindowMaxMedium = 12"
definition WindowMaxFast :: int where "WindowMaxFast = 48"
definition WindowMax :: int where "WindowMax = WindowMaxFast"
definition WindowFlexibility :: int where "WindowFlexibility = 4"
definition FastRateThreshold :: int where "FastRateThreshold = 10"
definition SeqModulus :: int where "SeqModulus = 65536"
definition SeqMax :: int where "SeqMax = 65535"
definition ChannelHeaderSize :: nat where "ChannelHeaderSize = 6"
definition DefaultMaxTries :: int where "DefaultMaxTries = 5"
definition DefaultOutletMDU :: int where "DefaultOutletMDU = 500"
definition SystemMessageTypeMin :: u16 where "SystemMessageTypeMin = 0xf000"

definition RTTFast :: rat where "RTTFast = 18 / 100"
definition RTTMedium :: rat where "RTTMedium = 75 / 100"
definition RTTSlow :: rat where "RTTSlow = 145 / 100"

lemmas window_consts =
  WindowInitial_def WindowMinSlow_def WindowMinMedium_def WindowMinFast_def WindowMaxSlow_def
  WindowMaxMedium_def WindowMaxFast_def WindowMax_def WindowFlexibility_def

section \<open>State\<close>

datatype 'a message = GenericMessage u16 bytes u16 | Typed 'a

record 'a envelope =
  e_Sequence :: u16
  e_Message :: 'a
  e_Raw :: bytes
  e_Packet :: nat
  e_Tries :: int

record 'a channel =
  c_txRing :: "'a envelope list"
  c_rxRing :: "(u16 \<times> 'a message) list"
  c_window :: int
  c_windowMax :: int
  c_windowMin :: int
  c_windowFlexibility :: int
  c_fastRateRounds :: int
  c_mediumRateRounds :: int
  c_nextSequence :: u16
  c_nextRxSequence :: u16
  c_maxTries :: int
  c_messageHandlers :: "(int \<times> ('a message \<Rightarrow> bool) option) list"
  c_nextHandlerID :: int
  c_factories :: "u16 \<Rightarrow> (bytes \<Rightarrow> 'a option) option"

text \<open>The link as an operation sees it; \<open>None\<close> for the nil link.\<close>

record outlet =
  o_status :: byte
  o_rtt :: rat
  o_mdu :: "int option"

datatype link_op =
    SetPacketTimeout nat int
  | SetPacketDelivered nat
  | ResendPacket nat
  | DropPacketReceipt nat

datatype channel_error =
    ErrLinkNotReady
  | ErrTooBig
  | BodyTooLarge nat
  | PackFailed
  | PacketTooShort
  | PacketIncomplete
  | UnpackFailed
  | NilConstructor
  | SystemReserved u16
  | NotSystemType u16

definition NewChannel :: "outlet option \<Rightarrow> 'a channel" where
  "NewChannel link =
     (let c = \<lparr> c_txRing = [], c_rxRing = [], c_window = WindowInitial, c_windowMax = WindowMaxSlow,
               c_windowMin = WindowMinSlow, c_windowFlexibility = WindowFlexibility, c_fastRateRounds = 0,
               c_mediumRateRounds = 0, c_nextSequence = 0, c_nextRxSequence = 0, c_maxTries = DefaultMaxTries,
               c_messageHandlers = [], c_nextHandlerID = 0, c_factories = (\<lambda>_. None) \<rparr>
      in case link of
           None \<Rightarrow> c
         | Some l \<Rightarrow> if o_rtt l > RTTSlow
                    then c\<lparr> c_window := 1, c_windowMax := 1, c_windowMin := 1, c_windowFlexibility := 1 \<rparr> else c)"

definition bindMessageFactory ::
  "'a channel \<Rightarrow> u16 \<Rightarrow> (bytes \<Rightarrow> 'a option) option \<Rightarrow> bool \<Rightarrow> 'a channel \<times> channel_error option" where
  "bindMessageFactory c msgType ctor system =
     (if ctor = None then (c, Some NilConstructor)
      else if msgType \<ge> SystemMessageTypeMin \<and> \<not> system then (c, Some (SystemReserved msgType))
      else if msgType < SystemMessageTypeMin \<and> system then (c, Some (NotSystemType msgType))
      else (c\<lparr> c_factories := (c_factories c)(msgType := ctor) \<rparr>, None))"

definition RegisterMessageType ::
  "'a channel \<Rightarrow> u16 \<Rightarrow> (bytes \<Rightarrow> 'a option) option \<Rightarrow> 'a channel \<times> channel_error option" where
  "RegisterMessageType c msgType ctor = bindMessageFactory c msgType ctor False"

definition RegisterSystemMessageType ::
  "'a channel \<Rightarrow> u16 \<Rightarrow> (bytes \<Rightarrow> 'a option) option \<Rightarrow> 'a channel \<times> channel_error option" where
  "RegisterSystemMessageType c msgType ctor = bindMessageFactory c msgType ctor True"

section \<open>Sending\<close>

definition packEnvelope :: "u16 \<Rightarrow> u16 \<Rightarrow> bytes \<Rightarrow> channel_error + bytes" where
  "packEnvelope msgType sequence body =
     (if length body > 0xffff then Inl (BodyTooLarge (length body))
      else Inr (put_uint16 msgType @ put_uint16 sequence @ put_uint16 (of_nat (length body)) @ body))"

definition StatusActive :: byte where "StatusActive = 1"

definition outletReady :: "byte \<Rightarrow> bool" where
  "outletReady status \<longleftrightarrow> status = StatusActive \<or> status = 0x02"

definition IsReadyToSend :: "outlet option \<Rightarrow> 'a channel \<Rightarrow> bool" where
  "IsReadyToSend link c =
     (case link of None \<Rightarrow> False
      | Some l \<Rightarrow> outletReady (o_status l) \<and> int (length (c_txRing c)) < c_window c)"

definition outletMDU :: "outlet option \<Rightarrow> int" where
  "outletMDU link =
     (case link of None \<Rightarrow> DefaultOutletMDU
      | Some l \<Rightarrow> (case o_mdu l of Some n \<Rightarrow> if n > 0 then n else DefaultOutletMDU | None \<Rightarrow> DefaultOutletMDU))"

definition channel_MDU :: "outlet option \<Rightarrow> int" where
  "channel_MDU link = max (min (outletMDU link - int ChannelHeaderSize) 0xFFFF) 1"

definition packetTimeoutSeconds :: "int \<Rightarrow> rat \<Rightarrow> int \<Rightarrow> rat" where
  "packetTimeoutSeconds tries rtt txRingLen =
     (let tries = (if tries < 1 then 1 else tries); txRingLen = (if txRingLen < 0 then 0 else txRingLen)
      in (3 / 2) ^ nat (tries - 1) * max (rtt * (5 / 2)) (25 / 1000) * (of_int txRingLen + 3 / 2))"

definition packetTimeoutLocked :: "outlet option \<Rightarrow> 'a channel \<Rightarrow> int \<Rightarrow> int" where
  "packetTimeoutLocked link c tries =
     (let rtt = (case link of None \<Rightarrow> 0 | Some l \<Rightarrow> o_rtt l);
          timeout = packetTimeoutSeconds tries rtt (int (length (c_txRing c)))
      in \<lfloor>timeout * 1000000000\<rfloor>)"

text \<open>
  \<open>Send\<close>. \<open>body\<close> is the result of \<open>msg.Pack()\<close> and \<open>sent\<close> the packet the link returns, \<open>None\<close>
  where \<open>packetTransmitted\<close> rejects it.
\<close>

definition channel_Send ::
  "outlet option \<Rightarrow> 'a channel \<Rightarrow> 'a \<Rightarrow> u16 \<Rightarrow> bytes option \<Rightarrow> (bytes \<Rightarrow> nat option)
     \<Rightarrow> 'a channel \<times> channel_error option \<times> link_op list" where
  "channel_Send link c msg msgType body transmit =
     (if \<not> IsReadyToSend link c then (c, Some ErrLinkNotReady, [])
      else case body of
        None \<Rightarrow> (c, Some PackFailed, [])
      | Some body \<Rightarrow>
          (let reserved = c_nextSequence c in
           case packEnvelope msgType reserved body of
             Inl e \<Rightarrow> (c, Some e, [])
           | Inr raw \<Rightarrow>
               if int (length raw) > outletMDU link then (c, Some ErrTooBig, [])
               else
                 (let c1 = c\<lparr> c_nextSequence := word_of_int ((uint reserved + 1) mod SeqModulus) \<rparr> in
                  case transmit raw of
                    None \<Rightarrow> (c1\<lparr> c_nextSequence := reserved \<rparr>, Some ErrLinkNotReady, [])
                  | Some pkt \<Rightarrow>
                      (let env = \<lparr> e_Sequence = reserved, e_Message = msg, e_Raw = raw, e_Packet = pkt, e_Tries = 1 \<rparr>;
                           c2 = c1\<lparr> c_txRing := c_txRing c1 @ [env] \<rparr>
                       in (c2, None, [SetPacketTimeout pkt (packetTimeoutLocked link c2 (e_Tries env)),
                                      SetPacketDelivered pkt])))))"

section \<open>Windows\<close>

definition adjustWindowOnDeliveredLocked :: "'a channel \<Rightarrow> rat \<Rightarrow> 'a channel" where
  "adjustWindowOnDeliveredLocked c0 rtt =
     (let c = (if c_window c0 < c_windowMax c0 then c0\<lparr> c_window := c_window c0 + 1 \<rparr> else c0) in
      if rtt = 0 then c
      else if rtt > RTTFast then
        (let c = c\<lparr> c_fastRateRounds := 0 \<rparr> in
         if rtt > RTTMedium then c\<lparr> c_mediumRateRounds := 0 \<rparr>
         else
           (let c = c\<lparr> c_mediumRateRounds := c_mediumRateRounds c + 1 \<rparr> in
            if c_windowMax c < WindowMaxMedium \<and> c_mediumRateRounds c = FastRateThreshold
            then c\<lparr> c_windowMax := WindowMaxMedium, c_windowMin := WindowMinMedium \<rparr> else c))
      else
        (let c = c\<lparr> c_fastRateRounds := c_fastRateRounds c + 1 \<rparr> in
         if c_windowMax c < WindowMaxFast \<and> c_fastRateRounds c = FastRateThreshold
         then c\<lparr> c_windowMax := WindowMaxFast, c_windowMin := WindowMinFast \<rparr> else c))"

definition shrinkWindowOnTimeoutLocked :: "'a channel \<Rightarrow> 'a channel" where
  "shrinkWindowOnTimeoutLocked c0 =
     (let c = (if c_window c0 > c_windowMin c0 then c0\<lparr> c_window := c_window c0 - 1 \<rparr> else c0)
      in if c_windowMax c > c_windowMin c + c_windowFlexibility c
         then c\<lparr> c_windowMax := c_windowMax c - 1 \<rparr> else c)"

text \<open>The index of the first envelope of the ring that carries \<open>pkt\<close>.\<close>

fun find_packet :: "'a envelope list \<Rightarrow> nat \<Rightarrow> nat option" where
  "find_packet [] pkt = None"
| "find_packet (e # es) pkt = (if e_Packet e = pkt then Some 0 else map_option Suc (find_packet es pkt))"

definition remove_at :: "nat \<Rightarrow> 'b list \<Rightarrow> 'b list" where
  "remove_at i xs = take i xs @ drop (i + 1) xs"

text \<open>\<open>handleTimeout\<close>; \<open>resendErr\<close> tells whether \<open>link.Resend\<close> fails.\<close>

definition handleTimeout :: "outlet option \<Rightarrow> 'a channel \<Rightarrow> nat \<Rightarrow> bool \<Rightarrow> 'a channel \<times> link_op list" where
  "handleTimeout link c pkt resendErr =
     (case find_packet (c_txRing c) pkt of
        None \<Rightarrow> (c, [])
      | Some i \<Rightarrow>
          (let c1 = shrinkWindowOnTimeoutLocked c; env = c_txRing c1 ! i in
           if e_Tries env \<ge> c_maxTries c1
           then (c1\<lparr> c_txRing := remove_at i (c_txRing c1) \<rparr>, [DropPacketReceipt pkt])
           else
             (let env' = env\<lparr> e_Tries := e_Tries env + 1 \<rparr>;
                  c2 = c1\<lparr> c_txRing := (c_txRing c1)[i := env'] \<rparr>
              in if resendErr
                 then (c2\<lparr> c_txRing := remove_at i (c_txRing c2) \<rparr>, [ResendPacket pkt, DropPacketReceipt pkt])
                 else (c2, [ResendPacket pkt, SetPacketTimeout pkt (packetTimeoutLocked link c2 (e_Tries env'))]))))"

definition handleDelivered :: "outlet option \<Rightarrow> 'a channel \<Rightarrow> nat \<Rightarrow> 'a channel" where
  "handleDelivered link c pkt =
     (let rtt = (case link of None \<Rightarrow> 0 | Some l \<Rightarrow> o_rtt l) in
      case find_packet (c_txRing c) pkt of
        None \<Rightarrow> c
      | Some i \<Rightarrow> adjustWindowOnDeliveredLocked (c\<lparr> c_txRing := remove_at i (c_txRing c) \<rparr>) rtt)"

definition channel_Close :: "'a channel \<Rightarrow> 'a channel \<times> link_op list" where
  "channel_Close c = (c\<lparr> c_txRing := [], c_rxRing := [] \<rparr>, map (\<lambda>e. DropPacketReceipt (e_Packet e)) (c_txRing c))"

section \<open>Message handlers\<close>

definition AddMessageHandler :: "'a channel \<Rightarrow> ('a message \<Rightarrow> bool) option \<Rightarrow> 'a channel \<times> int" where
  "AddMessageHandler c handler =
     (c\<lparr> c_nextHandlerID := c_nextHandlerID c + 1,
         c_messageHandlers := c_messageHandlers c @ [(c_nextHandlerID c, handler)] \<rparr>, c_nextHandlerID c)"

fun remove_handler :: "int \<Rightarrow> (int \<times> 'h) list \<Rightarrow> (int \<times> 'h) list" where
  "remove_handler i [] = []"
| "remove_handler i (e # es) = (if fst e = i then es else e # remove_handler i es)"

definition RemoveMessageHandler :: "'a channel \<Rightarrow> int \<Rightarrow> 'a channel" where
  "RemoveMessageHandler c i = c\<lparr> c_messageHandlers := remove_handler i (c_messageHandlers c) \<rparr>"

text \<open>The calls made for one message: handlers in order until one returns true.\<close>

fun dispatch :: "(int \<times> ('a message \<Rightarrow> bool) option) list \<Rightarrow> 'a message \<Rightarrow> (int \<times> 'a message) list" where
  "dispatch [] m = []"
| "dispatch ((i, None) # hs) m = dispatch hs m"
| "dispatch ((i, Some h) # hs) m = (i, m) # (if h m then [] else dispatch hs m)"

section \<open>Receiving\<close>

definition staleRXSequence :: "u16 \<Rightarrow> u16 \<Rightarrow> bool" where
  "staleRXSequence seq next =
     (if seq \<ge> next then False
      else (let windowOverflow = (word_of_int ((uint next + WindowMax) mod SeqModulus) :: u16)
            in if windowOverflow < next then seq > windowOverflow else True))"

definition farAheadRXSequence :: "u16 \<Rightarrow> u16 \<Rightarrow> bool" where
  "farAheadRXSequence seq next \<longleftrightarrow> uint seq > uint next + WindowMax"

fun emplaceRX :: "u16 \<Rightarrow> u16 \<times> 'm \<Rightarrow> (u16 \<times> 'm) list \<Rightarrow> (u16 \<times> 'm) list option" where
  "emplaceRX next env [] = Some [env]"
| "emplaceRX next env (x # xs) =
     (if fst env = fst x then None
      else
        (let dist = uint next - uint (fst env) in
         if fst env < fst x \<and> dist \<le> SeqMax div 2 then Some (env # x # xs)
         else map_option (\<lambda>ys. x # ys) (emplaceRX next env xs)))"

fun take_seq :: "u16 \<Rightarrow> (u16 \<times> 'm) list \<Rightarrow> ('m \<times> (u16 \<times> 'm) list) option" where
  "take_seq s [] = None"
| "take_seq s (x # xs) =
     (if fst x = s then Some (snd x, xs) else map_option (\<lambda>(m, ys). (m, x # ys)) (take_seq s xs))"

lemma take_seq_length: "take_seq s xs = Some (m, ys) \<Longrightarrow> length xs = Suc (length ys)"
  by (induction xs arbitrary: ys) (auto split: if_splits)

function drainRX :: "u16 \<Rightarrow> (u16 \<times> 'm) list \<Rightarrow> u16 \<times> (u16 \<times> 'm) list \<times> 'm list" where
  "drainRX next ring =
     (case take_seq next ring of
        None \<Rightarrow> (next, ring, [])
      | Some (m, ring') \<Rightarrow>
          (let (n2, r2, out) = drainRX (word_of_int ((uint next + 1) mod SeqModulus)) ring' in (n2, r2, m # out)))"
  by pat_completeness auto
termination
  by (relation "measure (\<lambda>(next, ring). length ring)") (auto dest: take_seq_length)

declare drainRX.simps [simp del]

definition HandleInbound ::
  "'a channel \<Rightarrow> bytes \<Rightarrow> ('a channel \<times> channel_error option \<times> 'a message list \<times> (int \<times> 'a message) list) option" where
  "HandleInbound c data =
     (if length data < ChannelHeaderSize then Some (c, Some PacketTooShort, [], [])
      else do {
        msgType \<leftarrow> Option.bind (go_slice data 0 2) uint16_of;
        sequence \<leftarrow> Option.bind (go_slice data 2 4) uint16_of;
        len \<leftarrow> Option.bind (go_slice data 4 6) uint16_of;
        if length data < ChannelHeaderSize + unat len then Some (c, Some PacketIncomplete, [], [])
        else if staleRXSequence sequence (c_nextRxSequence c) \<or> farAheadRXSequence sequence (c_nextRxSequence c)
        then Some (c, None, [], [])
        else do {
          msgData \<leftarrow> go_slice data ChannelHeaderSize (ChannelHeaderSize + unat len);
          case (case c_factories c msgType of
                  Some ctor \<Rightarrow> map_option Typed (ctor msgData)
                | None \<Rightarrow> Some (GenericMessage msgType msgData sequence)) of
            None \<Rightarrow> Some (c, Some UnpackFailed, [], [])
          | Some msg \<Rightarrow>
              (case emplaceRX (c_nextRxSequence c) (sequence, msg) (c_rxRing c) of
                 None \<Rightarrow> Some (c, None, [], [])
               | Some ring \<Rightarrow>
                   (let (n2, r2, delivered) = drainRX (c_nextRxSequence c) ring
                    in Some (c\<lparr> c_nextRxSequence := n2, c_rxRing := r2 \<rparr>, None, delivered,
                             concat (map (dispatch (c_messageHandlers c)) delivered)))) } })"

section \<open>The receive window\<close>

definition accepts :: "u16 \<Rightarrow> u16 \<Rightarrow> bool" where
  "accepts seq next \<longleftrightarrow> \<not> (staleRXSequence seq next \<or> farAheadRXSequence seq next)"

lemma uint_u16_range: "0 \<le> uint (w :: u16)" "uint (w :: u16) < 65536"
  using uint_lt2p [of w] by simp_all

lemma u16_diff: "uint (a - b :: u16) = (if uint b \<le> uint a then uint a - uint b else uint a - uint b + 65536)"
  using uint_u16_range [of a] uint_u16_range [of b] uint_sub_if' [of a b] by auto

lemma uint_u16_of_int: "0 \<le> x \<Longrightarrow> x < 65536 \<Longrightarrow> uint (word_of_int x :: u16) = x"
  by (simp add: uint_word_of_int)

lemma window_arith:
  fixes s n w :: int
  assumes "0 \<le> s" "s < 65536" "0 \<le> n" "n < 65536" "w = (if n + 48 < 65536 then n + 48 else n - 65488)"
  shows "(\<not> ((if n \<le> s then False else if w < n then w < s else True) \<or> n + 48 < s))
     \<longleftrightarrow> (if n \<le> s then s - n else s - n + 65536) \<le> 48"
proof (cases "n \<le> s")
  case True
  then show ?thesis using assms by simp linarith
next
  case False
  then show ?thesis using assms by (cases "n + 48 < 65536") (simp_all, linarith+)
qed

lemma accepts_iff: "accepts seq next \<longleftrightarrow> uint (seq - next) \<le> WindowMax"
proof -
  have m: "(uint next + 48) mod 65536 = (if uint next + 48 < 65536 then uint next + 48 else uint next - 65488)"
  proof (cases "uint next + 48 < 65536")
    case False
    have "(uint next + 48) mod 65536 = (uint next + 48 - 65536) mod 65536"
      by (rule minus_mod_self2 [symmetric])
    also have "\<dots> = uint next + 48 - 65536"
      using False uint_u16_range [of "next"] by (intro mod_pos_pos_trivial) auto
    finally show ?thesis using False by simp
  qed (use uint_u16_range [of "next"] in simp)
  have w: "uint (word_of_int ((uint next + 48) mod 65536) :: u16)
      = (if uint next + 48 < 65536 then uint next + 48 else uint next - 65488)"
    unfolding m using uint_u16_range [of "next"] by (intro uint_u16_of_int) auto
  show ?thesis
    using window_arith [OF uint_u16_range [of seq] uint_u16_range [of "next"] w]
    unfolding accepts_def staleRXSequence_def farAheadRXSequence_def Let_def window_consts SeqModulus_def
      word_less_def word_le_def u16_diff .
qed

lemma next_seq: "word_of_int ((uint n + 1) mod SeqModulus) = (n + 1 :: u16)"
proof -
  have "(word_of_int ((uint n + 1) mod 2 ^ LENGTH(16)) :: u16) = word_of_int (uint n + 1)"
    by (rule word_of_int_eq_iff [THEN iffD2]) (simp add: take_bit_eq_mod)
  then show ?thesis by (simp add: SeqModulus_def)
qed

text \<open>Absolute message numbers: a packet of number \<open>i\<close> at a receiver that waits for number \<open>R\<close>.\<close>

lemma uint_u16_of_nat: "n < 65536 \<Longrightarrow> uint (of_nat n :: u16) = int n"
  by (simp add: unsigned_of_nat take_bit_nat_eq_self)

lemma accepts_ahead: "R \<le> i \<Longrightarrow> i \<le> R + 48 \<Longrightarrow> accepts (of_nat i) (of_nat R)"
proof -
  assume a: "R \<le> i" "i \<le> R + 48"
  have "(of_nat i - of_nat R :: u16) = of_nat (i - R)" using a(1) by (simp add: of_nat_diff)
  then have "uint (of_nat i - of_nat R :: u16) = int (i - R)"
    using uint_u16_of_nat [of "i - R"] a by (simp only:)
  then show ?thesis using a by (simp add: accepts_iff window_consts)
qed

lemma rejects_behind: "i < R \<Longrightarrow> R \<le> i + 65487 \<Longrightarrow> \<not> accepts (of_nat i) (of_nat R)"
proof -
  assume a: "i < R" "R \<le> i + 65487"
  have "(of_nat i - of_nat R :: u16) = of_nat (65536 + i - R)"
    using a by (simp add: of_nat_diff)
  then have "uint (of_nat i - of_nat R :: u16) = int (65536 + i - R)"
    using uint_u16_of_nat [of "65536 + i - R"] a by (simp only:)
  then show ?thesis using a by (simp add: accepts_iff window_consts)
qed

section \<open>The reordering ring\<close>

abbreviation seqs :: "(u16 \<times> 'm) list \<Rightarrow> u16 set" where
  "seqs ring \<equiv> fst ` set ring"

lemma emplaceRX_new:
  assumes "fst env \<notin> seqs ring" "distinct (map fst ring)"
  shows "\<exists>ring'. emplaceRX next env ring = Some ring' \<and> set ring' = insert env (set ring)
           \<and> distinct (map fst ring') \<and> length ring' = Suc (length ring)"
  using assms
proof (induction ring)
  case (Cons x xs)
  then obtain r where r: "emplaceRX next env xs = Some r" "set r = insert env (set xs)" "distinct (map fst r)"
    "length r = Suc (length xs)" by auto
  show ?case
  proof (cases "fst env < fst x \<and> uint next - uint (fst env) \<le> SeqMax div 2")
    case True
    then show ?thesis using Cons.prems by (auto simp: Let_def)
  next
    case False
    then have "emplaceRX next env (x # xs) = Some (x # r)" using Cons.prems r by (auto simp: Let_def)
    then show ?thesis using r Cons.prems by auto
  qed
qed simp

text \<open>A ring in ascending order finds duplicates, as long as the window does not wrap.\<close>

lemma emplaceRX_dup_sorted:
  assumes "fst env \<in> seqs ring" "sorted_wrt (\<lambda>a b. fst a < fst b) ring"
  shows "emplaceRX next env ring = None"
  using assms
proof (induction ring)
  case (Cons x xs)
  show ?case
  proof (cases "fst env = fst x")
    case False
    then have "fst env \<in> seqs xs" "fst x < fst env" using Cons.prems by auto
    then show ?thesis using Cons False by (auto simp: Let_def)
  qed simp
qed simp

lemma emplaceRX_sorted:
  assumes "emplaceRX next env ring = Some ring'" "sorted_wrt (\<lambda>a b. fst a < fst b) ring"
    "uint next - uint (fst env) \<le> SeqMax div 2"
  shows "sorted_wrt (\<lambda>a b. fst a < fst b) ring'"
  using assms
proof (induction ring arbitrary: ring')
  case (Cons x xs)
  have eq: "fst env \<noteq> fst x" using Cons.prems(1) by auto
  show ?case
  proof (cases "fst env < fst x")
    case True
    then have "ring' = env # x # xs" using Cons.prems eq by (simp add: Let_def)
    then show ?thesis using True Cons.prems(2) by auto
  next
    case False
    then obtain r where r: "emplaceRX next env xs = Some r" "ring' = x # r"
      using Cons.prems eq by (auto simp: Let_def)
    have "set r \<subseteq> insert env (set xs)"
      using r(1) by (induction xs arbitrary: r) (auto simp: Let_def split: if_splits)
    moreover have "fst x < fst env" using False eq by simp
    ultimately show ?thesis using Cons.IH [OF r(1)] Cons.prems r(2) by auto
  qed
qed simp

lemma take_seq_None: "take_seq s ring = None \<longleftrightarrow> s \<notin> seqs ring"
  by (induction ring) auto

lemma take_seq_Some:
  "take_seq s ring = Some (m, ring') \<Longrightarrow> distinct (map fst ring) \<Longrightarrow>
     (s, m) \<in> set ring \<and> set ring' = set ring - {(s, m)} \<and> distinct (map fst ring')"
proof (induction ring arbitrary: ring')
  case (Cons x xs)
  show ?case
  proof (cases "fst x = s")
    case True
    then show ?thesis using Cons.prems by (cases x) (force simp: image_iff)
  next
    case False
    then obtain ys where ys: "take_seq s xs = Some (m, ys)" "ring' = x # ys" using Cons.prems(1) by auto
    then have "(s, m) \<in> set xs \<and> set ys = set xs - {(s, m)} \<and> distinct (map fst ys)"
      using Cons.IH [OF ys(1)] Cons.prems(2) by simp
    then show ?thesis using ys False Cons.prems(2) by (cases x) auto
  qed
qed simp

lemma take_seq_sorted:
  "take_seq s ring = Some (m, ring') \<Longrightarrow> sorted_wrt P ring \<Longrightarrow> sorted_wrt P ring' \<and> set ring' \<subseteq> set ring"
  by (induction ring arbitrary: ring') (auto split: if_splits, blast)

section \<open>Simulation by absolute message numbers\<close>

text \<open>
  The receiver in terms of absolute numbers: it waits for message \<open>R\<close> and holds the messages
  \<open>B\<close>, all within the window above \<open>R\<close>; \<open>msg i\<close> is the message of number \<open>i\<close>.
\<close>

definition rx_rel :: "(nat \<Rightarrow> 'm) \<Rightarrow> nat \<Rightarrow> nat set \<Rightarrow> u16 \<Rightarrow> (u16 \<times> 'm) list \<Rightarrow> bool" where
  "rx_rel msg R B next ring \<longleftrightarrow> next = of_nat R \<and> distinct (map fst ring)
     \<and> set ring = (\<lambda>i. (of_nat i, msg i)) ` B \<and> B \<subseteq> {R..R + 48}"

lemma seq_inj: "i \<in> {R..R + 48} \<Longrightarrow> j \<in> {R..R + 48} \<Longrightarrow> (of_nat i :: u16) = of_nat j \<Longrightarrow> i = j"
proof -
  have *: "i = j" if "i \<in> {R..R + 48}" "j \<in> {R..R + 48}" "(of_nat i :: u16) = of_nat j" "i \<le> j" for i j
  proof -
    have "(of_nat (j - i) :: u16) = 0" using that by (simp add: of_nat_diff)
    then have "uint (of_nat (j - i) :: u16) = 0" by (simp only: unsigned_0)
    moreover have "j - i < 65536" using that by auto
    ultimately show "i = j" using that(4) uint_u16_of_nat [of "j - i"] by simp
  qed
  show "i \<in> {R..R + 48} \<Longrightarrow> j \<in> {R..R + 48} \<Longrightarrow> (of_nat i :: u16) = of_nat j \<Longrightarrow> i = j"
    using * [of i j] * [of j i] by (cases "i \<le> j") auto
qed

lemma rx_seqs:
  assumes "rx_rel msg R B next ring" "i \<in> {R..R + 48}"
  shows "of_nat i \<in> seqs ring \<longleftrightarrow> i \<in> B"
proof -
  have "seqs ring = of_nat ` B" using assms(1) by (auto simp: rx_rel_def image_iff)
  then show ?thesis using assms seq_inj [of i R] unfolding rx_rel_def by (auto simp: subset_iff)
qed

text \<open>The first number from \<open>R\<close> on that is missing.\<close>

definition first_gap :: "nat set \<Rightarrow> nat \<Rightarrow> nat" where
  "first_gap B R = (LEAST n. R \<le> n \<and> n \<notin> B)"

lemma first_gap_missing: "R \<notin> B \<Longrightarrow> first_gap B R = R"
  unfolding first_gap_def by (rule Least_equality) auto

lemma first_gap_step:
  assumes "R \<in> B" "finite B"
  shows "first_gap (B - {R}) (Suc R) = first_gap B R"
proof -
  have "(\<lambda>n. Suc R \<le> n \<and> n \<notin> B - {R}) = (\<lambda>n. R \<le> n \<and> n \<notin> B)"
    using assms(1) by (auto simp: fun_eq_iff Suc_le_eq order_le_less)
  then show ?thesis by (simp add: first_gap_def)
qed

lemma first_gap_props:
  assumes "finite B"
  shows "R \<le> first_gap B R" "first_gap B R \<notin> B" "{R..<first_gap B R} \<subseteq> B"
proof -
  obtain n where "R \<le> n \<and> n \<notin> B"
    using assms by (metis finite_nat_set_iff_bounded_le le_cases not_less_eq_eq Suc_n_not_le_n order_trans)
  then have "R \<le> first_gap B R \<and> first_gap B R \<notin> B" unfolding first_gap_def by (rule LeastI)
  then show "R \<le> first_gap B R" "first_gap B R \<notin> B" by auto
  show "{R..<first_gap B R} \<subseteq> B" using not_less_Least unfolding first_gap_def by fastforce
qed

lemma drain_rel:
  assumes "rx_rel msg R B next ring" "finite B"
  shows "\<exists>ring'. drainRX next ring = (of_nat (first_gap B R), ring', map msg [R..<first_gap B R])
     \<and> rx_rel msg (first_gap B R) (B - {..<first_gap B R}) (of_nat (first_gap B R)) ring'
     \<and> (\<forall>P. sorted_wrt P ring \<longrightarrow> sorted_wrt P ring')"
  using assms
proof (induction "card B" arbitrary: R B "next" ring)
  case 0
  then have "B = {}" by simp
  moreover from this have "ring = []" "next = of_nat R" using 0 by (auto simp: rx_rel_def)
  ultimately show ?case using 0 by (simp add: drainRX.simps [of "of_nat R" "[]"] first_gap_missing)
next
  case (Suc n)
  have nx: "next = of_nat R" using Suc.prems(1) by (simp add: rx_rel_def)
  show ?case
  proof (cases "R \<in> B")
    case False
    then have "take_seq next ring = None"
      using rx_seqs [OF Suc.prems(1), of R] nx by (simp add: take_seq_None)
    moreover have "B - {..<R} = B" using Suc.prems(1) by (auto simp: rx_rel_def)
    ultimately show ?thesis
      using False Suc.prems(1) nx by (intro exI [of _ ring]) (simp add: drainRX.simps [of "of_nat R" ring] first_gap_missing)
  next
    case True
    then have "next \<in> seqs ring" using rx_seqs [OF Suc.prems(1), of R] nx by simp
    then obtain m r where t: "take_seq next ring = Some (m, r)"
      using take_seq_None [of "next" ring] by (cases "take_seq next ring") auto
    have d: "distinct (map fst ring)" using Suc.prems(1) by (simp add: rx_rel_def)
    note ts = take_seq_Some [OF t d]
    have "(next, m) \<in> (\<lambda>i. (of_nat i, msg i)) ` B" using ts Suc.prems(1) by (auto simp: rx_rel_def)
    then have m: "m = msg R"
      using seq_inj [of R R] nx Suc.prems(1) True unfolding rx_rel_def by (auto simp: subset_iff)
    have "set r = (\<lambda>i. (of_nat i, msg i)) ` (B - {R})"
    proof -
      have "inj_on (\<lambda>i. (of_nat i :: u16, msg i)) B"
        using Suc.prems(1) seq_inj [of _ R] unfolding rx_rel_def by (auto simp: inj_on_def subset_iff)
      then have "(\<lambda>i. (of_nat i :: u16, msg i)) ` (B - {R}) = (\<lambda>i. (of_nat i, msg i)) ` B - {(of_nat R, msg R)}"
        using True by (simp add: inj_on_image_set_diff [of _ B])
      then show ?thesis using ts m nx Suc.prems(1) by (simp add: rx_rel_def)
    qed
    moreover have "B - {R} \<subseteq> {Suc R..Suc R + 48}"
      using Suc.prems(1) by (auto simp: rx_rel_def)
    ultimately have rel: "rx_rel msg (Suc R) (B - {R}) (of_nat (Suc R)) r"
      using ts by (simp add: rx_rel_def)
    have "n = card (B - {R})" using Suc.hyps(2) True Suc.prems(2) by simp
    then obtain r' where r': "drainRX (of_nat (Suc R)) r = (of_nat (first_gap B R), r', map msg [Suc R..<first_gap B R])"
      "rx_rel msg (first_gap B R) (B - {R} - {..<first_gap B R}) (of_nat (first_gap B R)) r'"
      "\<forall>P. sorted_wrt P r \<longrightarrow> sorted_wrt P r'"
      using Suc.hyps(1) [OF _ rel] Suc.prems(2) first_gap_step [OF True] by auto
    have gt: "R < first_gap B R" using first_gap_props [OF Suc.prems(2), of R] True by (metis le_neq_implies_less)
    then have "B - {R} - {..<first_gap B R} = B - {..<first_gap B R}" by auto
    moreover have "drainRX next ring = (of_nat (first_gap B R), r', map msg [R..<first_gap B R])"
      using t r'(1) m nx gt next_seq [of "next"]
      by (simp add: drainRX.simps [of "of_nat R" ring] upt_conv_Cons add.commute)
    ultimately show ?thesis using r' take_seq_sorted [OF t] by auto
  qed
qed

section \<open>Inbound packets\<close>

text \<open>What the receiver makes of a message body.\<close>

definition decode_message :: "(u16 \<Rightarrow> (bytes \<Rightarrow> 'a option) option) \<Rightarrow> u16 \<Rightarrow> u16 \<Rightarrow> bytes \<Rightarrow> 'a message option" where
  "decode_message fs msgType sequence body =
     (case fs msgType of Some ctor \<Rightarrow> map_option Typed (ctor body) | None \<Rightarrow> Some (GenericMessage msgType body sequence))"

lemma packEnvelope_Inr:
  "packEnvelope t s body = Inr raw \<Longrightarrow>
     length body \<le> 0xffff \<and> raw = put_uint16 t @ put_uint16 s @ put_uint16 (of_nat (length body)) @ body"
  by (auto simp: packEnvelope_def split: if_splits)

text \<open>The receiver reads back type, sequence and body of a packed envelope.\<close>

lemma HandleInbound_envelope:
  assumes "packEnvelope t s body = Inr raw"
  shows "HandleInbound c raw =
    (if \<not> accepts s (c_nextRxSequence c) then Some (c, None, [], [])
     else case decode_message (c_factories c) t s body of
       None \<Rightarrow> Some (c, Some UnpackFailed, [], [])
     | Some msg \<Rightarrow>
         (case emplaceRX (c_nextRxSequence c) (s, msg) (c_rxRing c) of
            None \<Rightarrow> Some (c, None, [], [])
          | Some ring \<Rightarrow>
              (let (n2, r2, delivered) = drainRX (c_nextRxSequence c) ring
               in Some (c\<lparr> c_nextRxSequence := n2, c_rxRing := r2 \<rparr>, None, delivered,
                        concat (map (dispatch (c_messageHandlers c)) delivered)))))"
proof -
  have b: "length body \<le> 0xffff" and raw: "raw = put_uint16 t @ put_uint16 s @ put_uint16 (of_nat (length body)) @ body"
    using packEnvelope_Inr [OF assms] by auto
  have len: "unat (of_nat (length body) :: u16) = length body"
    using b by (simp add: unsigned_of_nat take_bit_nat_eq_self)
  have sl: "take 2 raw = put_uint16 t" "take 2 (drop 2 raw) = put_uint16 s"
    "take 2 (drop 4 raw) = put_uint16 (of_nat (length body))" "drop 6 raw = body"
    "length raw = 6 + length body"
    by (simp_all add: raw)
  have u: "uint16_of (put_uint16 w) = Some w" for w using uint16_of_put [of w "[]"] by simp
  have h: "go_slice raw 0 2 = Some (put_uint16 t)" "go_slice raw 2 4 = Some (put_uint16 s)"
    "go_slice raw 4 6 = Some (put_uint16 (of_nat (length body)))" "go_slice raw 6 (6 + length body) = Some body"
    using sl by simp_all
  show ?thesis
    unfolding HandleInbound_def ChannelHeaderSize_def h bind.bind_lunit u len decode_message_def accepts_def
    by (simp add: sl(5) h(4) len)
qed

fun run_inbound :: "'a channel \<Rightarrow> bytes list \<Rightarrow> ('a channel \<times> 'a message list) option" where
  "run_inbound c [] = Some (c, [])"
| "run_inbound c (d # ds) =
     (case HandleInbound c d of None \<Rightarrow> None
      | Some (c1, e, ms, calls) \<Rightarrow> map_option (\<lambda>(c2, ms'). (c2, ms @ ms')) (run_inbound c1 ds))"

lemma run_inbound_snoc:
  "run_inbound c ds = Some (c1, ms) \<Longrightarrow> HandleInbound c1 d = Some (c2, e, ms', calls) \<Longrightarrow>
     run_inbound c (ds @ [d]) = Some (c2, ms @ ms')"
proof (induction ds arbitrary: c ms)
  case (Cons x xs)
  then show ?case by (auto split: option.splits)
qed simp

text \<open>
  One arrival of message number \<open>i\<close>, given that a duplicate of a buffered message is recognised.
\<close>

lemma inbound_step:
  assumes "rx_rel msg R B (c_nextRxSequence c) (c_rxRing c)" "finite B" "R \<notin> B"
    "packEnvelope t (of_nat i) body = Inr raw" "decode_message (c_factories c) t (of_nat i) body = Some (msg i)"
    "i \<le> R + 48" "R \<le> i + 65487"
    "i \<in> B \<Longrightarrow> emplaceRX (c_nextRxSequence c) (of_nat i, msg i) (c_rxRing c) = None"
  defines "B' \<equiv> (if i < R then B else insert i B)"
  defines "R' \<equiv> first_gap B' R"
  shows "\<exists>c' calls. HandleInbound c raw = Some (c', None, map msg [R..<R'], calls)
     \<and> rx_rel msg R' (B' - {..<R'}) (c_nextRxSequence c') (c_rxRing c') \<and> c_factories c' = c_factories c
     \<and> (sorted_wrt (\<lambda>a b. fst a < fst b) (c_rxRing c) \<longrightarrow> uint (c_nextRxSequence c) \<le> uint (of_nat i :: u16) \<longrightarrow>
        sorted_wrt (\<lambda>a b. fst a < fst b) (c_rxRing c'))
     \<and> (i < R \<longrightarrow> c' = c)"
proof -
  have nx: "c_nextRxSequence c = of_nat R" using assms(1) by (simp add: rx_rel_def)
  have keep: "B - {..<R} = B" using assms(1) by (auto simp: rx_rel_def)
  consider (old) "i < R" | (dup) "R \<le> i" "i \<in> B" | (new) "R \<le> i" "i \<notin> B" by linarith
  then show ?thesis
  proof cases
    case old
    then have "R' = R" "B' = B" using assms(3) by (simp_all add: R'_def B'_def first_gap_missing)
    then show ?thesis
      using old assms(1,7) keep rejects_behind [of i R] by (auto simp: HandleInbound_envelope [OF assms(4)] nx)
  next
    case dup
    then have "R' = R" "B' = B" using assms(3) by (simp_all add: R'_def B'_def first_gap_missing insert_absorb)
    then show ?thesis
      using dup assms(1,5,6,8) keep accepts_ahead [of R i] by (auto simp: HandleInbound_envelope [OF assms(4)] nx)
  next
    case new
    have fresh: "fst (of_nat i :: u16, msg i) \<notin> seqs (c_rxRing c)"
      using rx_seqs [OF assms(1), of i] new assms(6) by simp
    have d: "distinct (map fst (c_rxRing c))" using assms(1) by (simp add: rx_rel_def)
    obtain ring where ring: "emplaceRX (c_nextRxSequence c) (of_nat i, msg i) (c_rxRing c) = Some ring"
      "set ring = insert (of_nat i, msg i) (set (c_rxRing c))" "distinct (map fst ring)"
      using emplaceRX_new [OF fresh d] by blast
    have B': "B' = insert i B" using new by (simp add: B'_def)
    have rel: "rx_rel msg R B' (c_nextRxSequence c) ring"
      using assms(1,6) new ring by (auto simp: rx_rel_def B')
    obtain ring' where r': "drainRX (c_nextRxSequence c) ring = (of_nat R', ring', map msg [R..<R'])"
      "rx_rel msg R' (B' - {..<R'}) (of_nat R') ring'" "\<forall>P. sorted_wrt P ring \<longrightarrow> sorted_wrt P ring'"
      using drain_rel [OF rel] assms(2) unfolding R'_def B' by auto
    have "sorted_wrt (\<lambda>a b. fst a < fst b) (c_rxRing c) \<Longrightarrow> uint (c_nextRxSequence c) \<le> uint (of_nat i :: u16) \<Longrightarrow>
        sorted_wrt (\<lambda>a b. fst a < fst b) ring"
      using emplaceRX_sorted [OF ring(1)] by (simp add: SeqMax_def)
    then show ?thesis
      using new assms(5) ring(1) r' accepts_ahead [of R i] assms(6) nx
      by (simp add: HandleInbound_envelope [OF assms(4)])
  qed
qed

section \<open>Histories of arrivals\<close>

lemma first_gap_unique:
  assumes "n \<notin> A" "{R..<n} \<subseteq> A" "R \<le> n"
  shows "first_gap A R = n"
  unfolding first_gap_def by (rule Least_equality) (use assms in \<open>auto simp: subset_iff not_le [symmetric]\<close>)

lemma gap_insert:
  assumes "finite A" "R = first_gap A 0" "B = {j \<in> A. R < j}" "B' = (if i < R then B else insert i B)" "R' = first_gap B' R"
  shows "first_gap (insert i A) 0 = R'" "B' - {..<R'} = {j \<in> insert i A. R' < j}" "R' \<notin> B'" "R \<le> R'"
proof -
  have fin: "finite B'" using assms(1,3,4) by simp
  note R = first_gap_props [OF assms(1), of 0, folded assms(2)]
  note R' = first_gap_props [OF fin, of R, folded assms(5)]
  show "R' \<notin> B'" "R \<le> R'" using R' by auto
  have nin: "R' \<notin> insert i A"
  proof
    assume "R' \<in> insert i A"
    then have "R' = i \<and> R \<le> i \<or> R < R' \<and> R' \<in> A" using R R' by (metis insertE le_neq_implies_less)
    then show False using R'(2) by (auto simp: assms(3,4) split: if_splits)
  qed
  have "B' \<subseteq> insert i A" by (auto simp: assms(3,4))
  moreover have "{0..<R'} \<subseteq> {0..<R} \<union> {R..<R'}" by auto
  ultimately have "{0..<R'} \<subseteq> insert i A" using R(3) R'(3) by blast
  then show "first_gap (insert i A) 0 = R'" using nin by (intro first_gap_unique) auto
  show "B' - {..<R'} = {j \<in> insert i A. R' < j}"
  proof (intro equalityI subsetI)
    fix j assume j: "j \<in> B' - {..<R'}"
    then have "j \<noteq> R'" using R'(2) by auto
    then show "j \<in> {j \<in> insert i A. R' < j}" using j by (auto simp: assms(3,4) split: if_splits)
  next
    fix j assume j: "j \<in> {j \<in> insert i A. R' < j}"
    then show "j \<in> B' - {..<R'}" using R'(1) by (auto simp: assms(3,4))
  qed
qed

text \<open>
  The packets of a conversation: message number \<open>i\<close> is sent as the envelope \<open>raw i\<close> and read as
  \<open>msg i\<close>. A history of arrivals respects the window when every arriving number is at most 48
  ahead of what the receiver waits for and less than a sequence cycle behind it.
\<close>

definition conversation :: "(u16 \<Rightarrow> (bytes \<Rightarrow> 'a option) option) \<Rightarrow> (nat \<Rightarrow> bytes) \<Rightarrow> (nat \<Rightarrow> 'a message) \<Rightarrow> bool" where
  "conversation fs raw msg \<longleftrightarrow> (\<forall>i. \<exists>t body. packEnvelope t (of_nat i) body = Inr (raw i)
      \<and> decode_message fs t (of_nat i) body = Some (msg i))"

fun in_window :: "nat set \<Rightarrow> nat list \<Rightarrow> bool" where
  "in_window A [] = True"
| "in_window A (i # is) =
     (i \<le> first_gap A 0 + 48 \<and> first_gap A 0 \<le> i + 65487 \<and> in_window (insert i A) is)"

lemma in_window_snoc:
  "in_window A (is @ [i]) \<longleftrightarrow> in_window A is \<and> i \<le> first_gap (A \<union> set is) 0 + 48
     \<and> first_gap (A \<union> set is) 0 \<le> i + 65487"
  by (induction "is" arbitrary: A) (auto simp: Un_commute)

definition rx_after :: "(nat \<Rightarrow> 'a message) \<Rightarrow> nat list \<Rightarrow> 'a channel \<Rightarrow> bool" where
  "rx_after msg is c \<longleftrightarrow>
     rx_rel msg (first_gap (set is) 0) {j \<in> set is. first_gap (set is) 0 < j} (c_nextRxSequence c) (c_rxRing c)"

lemma rx_after_step:
  assumes "rx_after msg is c" "conversation (c_factories c) raw msg" "in_window {} (is @ [i])"
    "i \<in> set is \<Longrightarrow> first_gap (set is) 0 < i \<Longrightarrow>
       emplaceRX (c_nextRxSequence c) (of_nat i, msg i) (c_rxRing c) = None"
  shows "\<exists>c' calls. HandleInbound c (raw i) =
      Some (c', None, map msg [first_gap (set is) 0..<first_gap (set (is @ [i])) 0], calls)
     \<and> rx_after msg (is @ [i]) c' \<and> c_factories c' = c_factories c
     \<and> (sorted_wrt (\<lambda>a b. fst a < fst b) (c_rxRing c) \<longrightarrow> uint (c_nextRxSequence c) \<le> uint (of_nat i :: u16) \<longrightarrow>
        sorted_wrt (\<lambda>a b. fst a < fst b) (c_rxRing c'))
     \<and> (i < first_gap (set is) 0 \<longrightarrow> c' = c)"
proof -
  define R where "R = first_gap (set is) 0"
  define B where "B = {j \<in> set is. R < j}"
  obtain t body where tb: "packEnvelope t (of_nat i) body = Inr (raw i)"
    "decode_message (c_factories c) t (of_nat i) body = Some (msg i)"
    using assms(2) unfolding conversation_def by blast
  have win: "i \<le> R + 48" "R \<le> i + 65487" using assms(3) by (simp_all add: in_window_snoc R_def)
  have rel: "rx_rel msg R B (c_nextRxSequence c) (c_rxRing c)"
    using assms(1) by (simp add: rx_after_def R_def B_def)
  note st = inbound_step [OF rel _ _ tb win]
  note g = gap_insert [OF finite_set R_def B_def refl refl, of i]
  show ?thesis
    using st g assms(4) by (simp add: rx_after_def R_def [symmetric] B_def insert_commute)
qed

lemma rx_history:
  assumes "c_nextRxSequence c = 0" "c_rxRing c = []" "conversation (c_factories c) raw msg" "in_window {} is"
    "distinct is \<or> (\<forall>i \<in> set is. i < 65536)"
  shows "\<exists>c'. run_inbound c (map raw is) = Some (c', map msg [0..<first_gap (set is) 0])
     \<and> rx_after msg is c' \<and> c_factories c' = c_factories c
     \<and> ((\<forall>i \<in> set is. i < 65536) \<longrightarrow> sorted_wrt (\<lambda>a b. fst a < fst b) (c_rxRing c'))"
  using assms(4,5)
proof (induction "is" rule: rev_induct)
  case Nil
  show ?case using assms(1,2) by (simp add: rx_after_def rx_rel_def first_gap_missing)
next
  case (snoc i "is")
  let ?R = "first_gap (set is) 0" and ?R' = "first_gap (set (is @ [i])) 0"
  obtain c1 where c1: "run_inbound c (map raw is) = Some (c1, map msg [0..<?R])" "rx_after msg is c1"
    "c_factories c1 = c_factories c"
    "(\<forall>i \<in> set is. i < 65536) \<longrightarrow> sorted_wrt (\<lambda>a b. fst a < fst b) (c_rxRing c1)"
    using snoc.IH snoc.prems by (auto simp: in_window_snoc)
  have win: "i \<le> ?R + 48" using snoc.prems(1) by (simp add: in_window_snoc)
  have dup: "emplaceRX (c_nextRxSequence c1) (of_nat i, msg i) (c_rxRing c1) = None"
    if "i \<in> set is" "?R < i"
  proof -
    have "\<forall>i \<in> set is. i < 65536" using snoc.prems(2) that(1) by auto
    moreover have "of_nat i \<in> seqs (c_rxRing c1)"
      using rx_seqs [OF c1(2) [unfolded rx_after_def], of i] that win by simp
    ultimately show ?thesis using c1(4) by (intro emplaceRX_dup_sorted) auto
  qed
  obtain c2 calls where c2: "HandleInbound c1 (raw i) = Some (c2, None, map msg [?R..<?R'], calls)"
    "rx_after msg (is @ [i]) c2" "c_factories c2 = c_factories c1"
    "sorted_wrt (\<lambda>a b. fst a < fst b) (c_rxRing c1) \<longrightarrow> uint (c_nextRxSequence c1) \<le> uint (of_nat i :: u16) \<longrightarrow>
        sorted_wrt (\<lambda>a b. fst a < fst b) (c_rxRing c2)" "i < ?R \<longrightarrow> c2 = c1"
    using rx_after_step [OF c1(2) _ snoc.prems(1) dup, of raw] assms(3) c1(3) by auto
  have "?R \<le> ?R'"
    using gap_insert(1,4) [OF finite_set [of "is"] refl refl refl refl, of i] by (simp add: insert_commute)
  then have "[0..<?R] @ [?R..<?R'] = [0..<?R']" using upt_add_eq_append [of 0 ?R "?R' - ?R"] by simp
  then have "run_inbound c (map raw (is @ [i])) = Some (c2, map msg [0..<?R'])"
    using run_inbound_snoc [OF c1(1) c2(1)] by (metis map_append list.simps(8,9))
  moreover have "sorted_wrt (\<lambda>a b. fst a < fst b) (c_rxRing c2)" if small: "\<forall>j \<in> set (is @ [i]). j < 65536"
  proof (cases "i < ?R")
    case True
    then show ?thesis using c1(4) c2(5) small by simp
  next
    case False
    have "c_nextRxSequence c1 = of_nat ?R" using c1(2) by (simp add: rx_after_def rx_rel_def)
    then have "uint (c_nextRxSequence c1) \<le> uint (of_nat i :: u16)"
      using False small uint_u16_of_nat [of ?R] uint_u16_of_nat [of i] by simp
    then show ?thesis using c1(4) c2(4) small by simp
  qed
  ultimately show ?case using c2(2,3) c1(3) by auto
qed

section \<open>Properties\<close>


definition sample_raw :: "nat \<Rightarrow> bytes" where
  "sample_raw i = put_uint16 1 @ put_uint16 (of_nat i) @ put_uint16 0"

definition sample_msg :: "nat \<Rightarrow> unit message" where
  "sample_msg i = GenericMessage 1 [] (of_nat i)"

lemma sample_conversation: "conversation (c_factories (NewChannel None :: unit channel)) sample_raw sample_msg"
  unfolding conversation_def
  by (intro allI exI [of _ 1] exI [of _ "[]"])
    (simp add: NewChannel_def packEnvelope_def sample_raw_def sample_msg_def decode_message_def)

lemma sample_gaps: "first_gap {} 0 = 0" "first_gap {1} 0 = 0" "first_gap {0, 1} 0 = 2" "first_gap {1, 0} 0 = 2"
proof -
  have "{0..<2} \<subseteq> {0, 1 :: nat}" by auto
  then show "first_gap {} 0 = 0" "first_gap {1} 0 = 0" "first_gap {0, 1} 0 = 2" "first_gap {1, 0} 0 = 2"
    by (auto intro!: first_gap_unique)
qed


text \<open>
  The receiver accepts a sequence number exactly when it is at most 48 ahead of the expected one in
  modular distance, although the code decides it with plain comparisons and a wrapped window end.
\<close>

theorem accept_window_modular:
  "\<not> staleRXSequence seq next \<and> \<not> farAheadRXSequence seq next \<longleftrightarrow> uint (seq - next) \<le> WindowMax"
  using accepts_iff [of seq "next"] by (simp add: accepts_def)


end
