(* ===== verification/Channel_State.thy ===== *)
theory Channel_State
  imports Channel
begin

text \<open>
  The channel of \<open>pkg/channel/channel.go\<close> as a state machine: the step relation has one rule per
  exported operation, its reachable states keep the send windows and the transmit ring bounded, and
  a send is all or nothing.
\<close>

section \<open>Reachable channels\<close>

inductive chan_step :: "'a channel \<Rightarrow> 'a channel \<Rightarrow> bool" where
  send: "channel_Send link c msg t body transmit = (c', e, ops) \<Longrightarrow> chan_step c c'"
| timeout: "handleTimeout link c pkt resendErr = (c', ops) \<Longrightarrow> chan_step c c'"
| delivered: "chan_step c (handleDelivered link c pkt)"
| inbound: "HandleInbound c d = Some (c', e, ms, calls) \<Longrightarrow> chan_step c c'"
| close: "channel_Close c = (c', ops) \<Longrightarrow> chan_step c c'"
| add_handler: "AddMessageHandler c h = (c', i) \<Longrightarrow> chan_step c c'"
| remove_handler: "chan_step c (RemoveMessageHandler c i)"
| register: "bindMessageFactory c t ctor system = (c', e) \<Longrightarrow> chan_step c c'"

inductive chan_reach :: "'a channel \<Rightarrow> bool" where
  init: "chan_reach (NewChannel link)"
| step: "chan_reach c \<Longrightarrow> chan_step c c' \<Longrightarrow> chan_reach c'"

text \<open>The windows, the outstanding envelopes and the number of transmissions of each stay bounded.\<close>

definition win_inv :: "'a channel \<Rightarrow> bool" where
  "win_inv c \<longleftrightarrow> 1 \<le> c_window c \<and> c_window c \<le> c_windowMax c \<and> c_windowMax c \<le> WindowMax
     \<and> 1 \<le> c_windowMin c \<and> c_windowMin c \<le> c_windowMax c \<and> 1 \<le> c_windowFlexibility c"

definition tx_inv :: "'a channel \<Rightarrow> bool" where
  "tx_inv c \<longleftrightarrow> int (length (c_txRing c)) \<le> WindowMax \<and> c_maxTries c = DefaultMaxTries
     \<and> (\<forall>e \<in> set (c_txRing c). 1 \<le> e_Tries e \<and> e_Tries e \<le> c_maxTries c)"

lemma win_inv_adjust: "win_inv c \<Longrightarrow> win_inv (adjustWindowOnDeliveredLocked c rtt)"
  by (simp add: win_inv_def adjustWindowOnDeliveredLocked_def Let_def window_consts)

lemma win_inv_shrink: "win_inv c \<Longrightarrow> win_inv (shrinkWindowOnTimeoutLocked c)"
  by (simp add: win_inv_def shrinkWindowOnTimeoutLocked_def Let_def)

lemma adjust_frame [simp]:
  "c_txRing (adjustWindowOnDeliveredLocked c rtt) = c_txRing c"
  "c_maxTries (adjustWindowOnDeliveredLocked c rtt) = c_maxTries c"
  "c_txRing (shrinkWindowOnTimeoutLocked c) = c_txRing c"
  "c_maxTries (shrinkWindowOnTimeoutLocked c) = c_maxTries c"
  by (simp_all add: adjustWindowOnDeliveredLocked_def shrinkWindowOnTimeoutLocked_def Let_def)

lemma win_inv_ring [simp]: "win_inv (c\<lparr> c_txRing := r \<rparr>) = win_inv c"
  by (simp add: win_inv_def)

lemma find_packet_lt: "find_packet es p = Some i \<Longrightarrow> i < length es"
  by (induction es arbitrary: i) (auto split: if_splits)

lemma set_remove_at: "set (remove_at i xs) \<subseteq> set xs"
  unfolding remove_at_def by (auto dest: in_set_takeD in_set_dropD)

lemma length_remove_at: "i < length xs \<Longrightarrow> length (remove_at i xs) = length xs - 1"
  by (simp add: remove_at_def)

lemma tx_inv_remove: "tx_inv c \<Longrightarrow> tx_inv (c\<lparr> c_txRing := remove_at i (c_txRing c) \<rparr>)"
  using set_remove_at [of i "c_txRing c"] by (auto simp: tx_inv_def remove_at_def)

lemma inv_frame:
  assumes "c_txRing c' = c_txRing c" "c_maxTries c' = c_maxTries c"
  shows "tx_inv c' = tx_inv c"
  using assms by (simp add: tx_inv_def)

lemma tx_inv_windows [simp]:
  "tx_inv (adjustWindowOnDeliveredLocked c rtt) = tx_inv c" "tx_inv (shrinkWindowOnTimeoutLocked c) = tx_inv c"
  by (rule inv_frame; simp)+

lemma send_inv:
  assumes "win_inv c" "tx_inv c" "channel_Send link c msg t body transmit = (c', e, ops)"
  shows "win_inv c' \<and> tx_inv c'"
proof -
  consider "c' = c" | env r where "c' = c\<lparr> c_nextSequence := r, c_txRing := c_txRing c @ [env] \<rparr>" "e_Tries env = 1"
      "int (length (c_txRing c)) < c_window c"
    using assms(3)
    by (auto simp: channel_Send_def IsReadyToSend_def Let_def split: if_splits option.splits sum.splits)
  then show ?thesis
    using assms(1,2) by cases (auto simp: win_inv_def tx_inv_def DefaultMaxTries_def)
qed

lemma timeout_inv:
  assumes "win_inv c" "tx_inv c" "handleTimeout link c pkt err = (c', ops)"
  shows "win_inv c' \<and> tx_inv c'"
proof (cases "find_packet (c_txRing c) pkt")
  case None
  then show ?thesis using assms by (simp add: handleTimeout_def)
next
  case (Some i)
  let ?c1 = "shrinkWindowOnTimeoutLocked c"
  let ?c2 = "?c1\<lparr> c_txRing := (c_txRing c)[i := (c_txRing c ! i)\<lparr> e_Tries := e_Tries (c_txRing c ! i) + 1 \<rparr>] \<rparr>"
  note i = find_packet_lt [OF Some]
  have t1: "tx_inv ?c1" using assms(2) by simp
  have pos: "0 \<le> e_Tries (c_txRing c ! i)" using assms(2) nth_mem [OF i] by (force simp: tx_inv_def)
  have t2: "tx_inv ?c2" if "\<not> e_Tries (c_txRing c ! i) \<ge> c_maxTries c"
    using assms(2) that i pos by (auto simp: tx_inv_def dest!: set_update_subset_insert [THEN subsetD])
  show ?thesis
    using assms(3) Some t1 t2 win_inv_shrink [OF assms(1)] tx_inv_remove [of ?c1 i] tx_inv_remove [of ?c2 i]
    by (auto simp: handleTimeout_def Let_def split: if_splits)
qed

lemma pred_option_bindI:
  assumes "\<And>x. m = Some x \<Longrightarrow> pred_option P (f x)"
  shows "pred_option P (Option.bind m f)"
  using assms by (cases m) auto

lemma inbound_frame:
  assumes "HandleInbound c d = Some (c', e, ms, calls)"
  shows "\<exists>n r. c' = c\<lparr> c_nextRxSequence := n, c_rxRing := r \<rparr>"
proof -
  let ?P = "\<lambda>x. \<exists>n r. fst x = c\<lparr> c_nextRxSequence := n, c_rxRing := r \<rparr>"
  have same: "?P (c, y)" for y :: "channel_error option \<times> 'a message list \<times> (int \<times> 'a message) list"
    by (intro exI [of _ "c_nextRxSequence c"] exI [of _ "c_rxRing c"]) simp
  have upd: "?P (c\<lparr> c_nextRxSequence := n, c_rxRing := r \<rparr>, y)"
    for n r and y :: "channel_error option \<times> 'a message list \<times> (int \<times> 'a message) list"
    by auto
  have "pred_option ?P (HandleInbound c d)"
    unfolding HandleInbound_def Let_def
    apply (rule if_split [THEN iffD2], intro conjI impI)
     apply (simp only: option.pred_inject same)
    apply (rule pred_option_bindI)+
    apply (rule if_split [THEN iffD2], intro conjI impI)
     apply (simp only: option.pred_inject same)
    apply (rule if_split [THEN iffD2], intro conjI impI)
     apply (simp only: option.pred_inject same)
    apply (rule pred_option_bindI)
    apply (rule option.split [THEN iffD2], intro conjI impI allI)
     apply (simp only: option.pred_inject same)
    apply (rule option.split [THEN iffD2], intro conjI impI allI)
     apply (simp only: option.pred_inject same)
    apply (rule prod.split [THEN iffD2], intro allI impI)
    apply (rule prod.split [THEN iffD2], intro allI impI)
    apply (simp only: option.pred_inject upd)
    done
  then show ?thesis using assms by simp
qed

lemma frame_inv:
  assumes "win_inv c \<and> tx_inv c"
    and "c_window c' = c_window c" "c_windowMax c' = c_windowMax c" "c_windowMin c' = c_windowMin c"
    and "c_windowFlexibility c' = c_windowFlexibility c" "c_maxTries c' = c_maxTries c"
    and "set (c_txRing c') \<subseteq> set (c_txRing c)" "length (c_txRing c') \<le> length (c_txRing c)"
  shows "win_inv c' \<and> tx_inv c'"
  using assms unfolding win_inv_def tx_inv_def by auto

lemma delivered_inv:
  assumes "win_inv c \<and> tx_inv c"
  shows "win_inv (handleDelivered link c pkt) \<and> tx_inv (handleDelivered link c pkt)"
proof (cases "find_packet (c_txRing c) pkt")
  case None
  then show ?thesis using assms by (simp add: handleDelivered_def)
next
  case (Some i)
  then show ?thesis
    using assms by (auto simp: handleDelivered_def Let_def intro!: win_inv_adjust tx_inv_remove split: option.splits)
qed

lemma chan_step_inv: "chan_step c c' \<Longrightarrow> win_inv c \<and> tx_inv c \<Longrightarrow> win_inv c' \<and> tx_inv c'"
proof (induction rule: chan_step.induct)
  case (inbound c d c' e ms calls)
  then obtain n r where "c' = c\<lparr> c_nextRxSequence := n, c_rxRing := r \<rparr>" using inbound_frame by blast
  then show ?case by (intro frame_inv [OF inbound(2)]) simp_all
next
  case (close c c' ops)
  then show ?case by (intro frame_inv [OF close(2)]) (auto simp: channel_Close_def)
next
  case (add_handler c h c' i)
  then show ?case by (intro frame_inv [OF add_handler(2)]) (auto simp: AddMessageHandler_def)
next
  case (remove_handler c i)
  then show ?case by (intro frame_inv [OF remove_handler]) (auto simp: RemoveMessageHandler_def)
next
  case (register c t ctor system c' e)
  then show ?case
    by (intro frame_inv [OF register(2)]) (auto simp: bindMessageFactory_def split: if_splits)
next
  case (send link c msg t body transmit c' e ops)
  then show ?case using send_inv by metis
next
  case (timeout link c pkt resendErr c' ops)
  then show ?case using timeout_inv by metis
qed (rule delivered_inv)

lemma chan_reach_inv: "chan_reach c \<Longrightarrow> win_inv c \<and> tx_inv c"
proof (induction rule: chan_reach.induct)
  case (init link)
  show ?case
    by (auto simp: NewChannel_def win_inv_def tx_inv_def window_consts Let_def split: option.splits)
qed (use chan_step_inv in blast)

text \<open>
  C15: in every reachable channel the send window stays between 1 and its maximum, the maximum is at
  most 48, at most 48 envelopes are outstanding, and no envelope has been transmitted more than
  five times.
\<close>

theorem channel_windows_bounded:
  assumes "chan_reach c"
  shows "1 \<le> c_window c \<and> c_window c \<le> c_windowMax c \<and> c_windowMax c \<le> 48
    \<and> length (c_txRing c) \<le> 48 \<and> (\<forall>e \<in> set (c_txRing c). 1 \<le> e_Tries e \<and> e_Tries e \<le> 5)"
  using chan_reach_inv [OF assms] by (auto simp: win_inv_def tx_inv_def window_consts DefaultMaxTries_def)

theorem channel_windows_bounded_witness:
  "c_windowMax (handleDelivered None (NewChannel None :: unit channel) 7) \<le> 48"
  using channel_windows_bounded [OF chan_reach.step [OF chan_reach.init chan_step.delivered]] by blast

text \<open>
  C16: a send either has no effect or is complete. On every error, including a link that does not
  transmit, the channel is left as it was (no sequence number is consumed, nothing is queued, no
  timer is set); on success exactly one envelope with the reserved sequence number is queued, its
  bytes are the ones transmitted and fit the outlet MDU, and the next sequence number is one higher,
  wrapping at 65536.
\<close>

theorem channel_send_all_or_nothing:
  assumes "channel_Send link c msg t body transmit = (c', err, ops)"
  shows "case err of
      Some _ \<Rightarrow> c' = c \<and> ops = []
    | None \<Rightarrow> \<exists>b raw pkt env. body = Some b \<and> packEnvelope t (c_nextSequence c) b = Inr raw \<and> transmit raw = Some pkt
        \<and> int (length raw) \<le> outletMDU link \<and> int (length (c_txRing c)) < c_window c
        \<and> c_nextSequence c' = c_nextSequence c + 1 \<and> c_txRing c' = c_txRing c @ [env]
        \<and> e_Sequence env = c_nextSequence c \<and> e_Raw env = raw \<and> e_Packet env = pkt \<and> e_Tries env = 1"
proof (cases "IsReadyToSend link c")
  case True
  then have win: "int (length (c_txRing c)) < c_window c" by (auto simp: IsReadyToSend_def split: option.splits)
  show ?thesis
    using assms True win next_seq [of "c_nextSequence c"]
    by (cases body; cases "packEnvelope t (c_nextSequence c) (the body)"; cases "transmit (projr (packEnvelope t (c_nextSequence c) (the body)))")
      (auto simp: channel_Send_def Let_def split: if_splits)
qed (use assms in \<open>auto simp: channel_Send_def\<close>)

theorem channel_send_all_or_nothing_witness:
  "case fst (snd (channel_Send None (NewChannel None :: unit channel) () 1 (Some []) (\<lambda>_. None))) of
     Some _ \<Rightarrow> fst (channel_Send None (NewChannel None :: unit channel) () 1 (Some []) (\<lambda>_. None)) = NewChannel None
   | None \<Rightarrow> False"
  using channel_send_all_or_nothing [of None "NewChannel None :: unit channel" "()" 1 "Some []" "\<lambda>_. None" "NewChannel None" "Some ErrLinkNotReady" "[]"]
  by (simp add: channel_Send_def IsReadyToSend_def)

end
