(* ===== verification/Crypto.thy ===== *)
theory Crypto
  imports Hashing
begin

text \<open>
  The symmetric cryptography of \<open>pkg/cryptography\<close>: HKDF (\<open>hkdf.go\<close>) with the reader of
  \<open>golang.org/x/crypto/hkdf\<close> that \<open>group_key.go\<close> and \<open>identity_hkdf.go\<close> use, PKCS#7 padding
  (\<open>pkcs7.go\<close>), CBC mode (\<open>cbc.go\<close>), AES-CBC with a prepended IV (\<open>aes.go\<close>) and the
  encrypt-then-MAC token (\<open>token.go\<close>). The functions are those of the standard provider; the
  dispatch through \<open>ActiveProvider\<close> is dropped.

  \<open>aes.NewCipher\<close> is the parameter \<open>aes\<close>: a key gives no cipher (the error return) or a block
  cipher. What the code relies on is \<open>aes_ok\<close>: the three AES key sizes give a cipher on 16-byte
  blocks whose two directions are inverse to each other. \<open>crypto/rand\<close> is an argument: \<open>None\<close> for
  a failed read, the bytes read otherwise.
\<close>

section \<open>Constants and errors\<close>

definition SHA256Size :: nat where "SHA256Size = 32"
definition AES256KeySize :: nat where "AES256KeySize = 32"
definition IdentityKeyMaterialSize :: nat where "IdentityKeyMaterialSize = SHA256Size + AES256KeySize"
definition TokenKeySize :: nat where "TokenKeySize = 64"
definition TokenKeySize128 :: nat where "TokenKeySize128 = 32"
definition TokenOverhead :: nat where "TokenOverhead = 48"
definition aesBlockSize :: nat where "aesBlockSize = 16"

lemmas crypto_consts = SHA256Size_def AES256KeySize_def IdentityKeyMaterialSize_def TokenKeySize_def
  TokenKeySize128_def TokenOverhead_def aesBlockSize_def

datatype crypto_error =
    PaddingEmpty | PaddingSize | PaddingTooLarge | PaddingBytes
  | CBCArgs | InvalidKeySize | NewCipherFailed | RandUnavailable | CiphertextTooShort | CiphertextNotBlocks
  | InvalidTokenKey | TokenTooShort | InvalidHMAC
  | InvalidOutputLength | EmptyInputMaterial | OutputTooLong | EntropyLimit
  | NoSessionKeys | DataTooShort | LengthMismatch | NoPrivateKey | InvalidTokenSize | SharedKeyFailed
  | RatchetEnforced | CryptoRefused

type_synonym 'a crypto = "(crypto_error + 'a) option"

definition IsPaddingError :: "crypto_error \<Rightarrow> bool" where
  "IsPaddingError e \<longleftrightarrow> e = PaddingEmpty \<or> e = PaddingSize \<or> e = PaddingTooLarge \<or> e = PaddingBytes"

section \<open>HMAC\<close>

definition ComputeHMAC :: "hashfn \<Rightarrow> bytes \<Rightarrow> bytes \<Rightarrow> bytes" where
  "ComputeHMAC H key message = hmac256 H key message"

text \<open>\<open>hmac.Equal\<close> and the comparison loop of \<open>ifac.go\<close>: lengths first, then every byte.\<close>

fun or_diff :: "bytes \<Rightarrow> bytes \<Rightarrow> byte \<Rightarrow> byte" where
  "or_diff (a # as) (b # bs) acc = or_diff as bs (acc OR (a XOR b))"
| "or_diff _ _ acc = acc"

definition constant_time_equal :: "bytes \<Rightarrow> bytes \<Rightarrow> bool" where
  "constant_time_equal a b \<longleftrightarrow> length a = length b \<and> or_diff a b 0 = 0"

definition ValidateHMAC :: "hashfn \<Rightarrow> bytes \<Rightarrow> bytes \<Rightarrow> bytes \<Rightarrow> bool" where
  "ValidateHMAC H key message messageHMAC = constant_time_equal messageHMAC (ComputeHMAC H key message)"

section \<open>HKDF\<close>

fun hkdf_expand :: "hashfn \<Rightarrow> bytes \<Rightarrow> bytes \<Rightarrow> nat \<Rightarrow> nat \<Rightarrow> bytes \<Rightarrow> nat \<Rightarrow> bytes \<Rightarrow> bytes" where
  "hkdf_expand H prk info 0 i block off dst = dst"
| "hkdf_expand H prk info (Suc n) i block off dst =
     (let block' = hmac256 H prk (block @ info @ [of_nat (i + 1)]);
          dst' = take off dst @ go_copy (drop off dst) block';
          off' = off + min (length (drop off dst)) (length block')
      in hkdf_expand H prk info n (i + 1) block' off' dst')"

definition implDeriveKeyWrite :: "hashfn \<Rightarrow> bytes \<Rightarrow> bytes \<Rightarrow> bytes \<Rightarrow> bytes \<Rightarrow> crypto_error + bytes" where
  "implDeriveKeyWrite H dst secret salt info =
     (if length dst < 1 then Inl InvalidOutputLength
      else if length secret = 0 then Inl EmptyInputMaterial
      else
        (let salt' = (if length salt = 0 then replicate 32 0 else salt);
             prk = hmac256 H salt' secret;
             iterations = (length dst + 31) div 32
         in if iterations > 255 then Inl OutputTooLong
            else Inr (hkdf_expand H prk info iterations 0 [] 0 dst)))"

definition implDeriveKey :: "hashfn \<Rightarrow> bytes \<Rightarrow> bytes \<Rightarrow> bytes \<Rightarrow> int \<Rightarrow> crypto_error + bytes" where
  "implDeriveKey H secret salt info len =
     (if len < 1 then Inl InvalidOutputLength
      else implDeriveKeyWrite H (replicate (nat len) 0) secret salt info)"

text \<open>
  The reader of \<open>golang.org/x/crypto/hkdf\<close>. \<open>Extract\<close> is the HMAC of the secret under the salt; an
  absent salt is HashLen zero bytes, which as an HMAC key equals the empty key.
\<close>

record hkdfReader =
  r_prk :: bytes
  r_info :: bytes
  r_counter :: byte
  r_prev :: bytes
  r_buf :: bytes

definition hkdf_New :: "hashfn \<Rightarrow> bytes \<Rightarrow> bytes \<Rightarrow> bytes \<Rightarrow> hkdfReader" where
  "hkdf_New H secret salt info =
     \<lparr> r_prk = hmac256 H salt secret, r_info = info, r_counter = 1, r_prev = [], r_buf = [] \<rparr>"

text \<open>
  The loop of \<open>Read\<close>: \<open>p\<close> counts the bytes still to fill, \<open>acc\<close> the bytes read so far and \<open>n\<close> the
  last number of copied bytes. Every round copies at least one byte, since a digest has 32.
\<close>

function hkdf_fill :: "hashfn \<Rightarrow> hkdfReader \<Rightarrow> nat \<Rightarrow> nat \<Rightarrow> bytes \<Rightarrow> hkdfReader \<times> nat \<times> bytes" where
  "hkdf_fill H f p n acc =
     (if p = 0 then (f, n, acc)
      else
        (let block = hmac256 H (r_prk f) (r_prev f @ r_info f @ [r_counter f]);
             f' = f\<lparr> r_prev := block, r_counter := r_counter f + 1, r_buf := block \<rparr>;
             n' = min p (length block)
         in hkdf_fill H f' (p - n') n' (acc @ take n' block)))"
  by pat_completeness auto
termination
  by (relation "measure (\<lambda>(_, _, p, _, _). p)") auto

declare hkdf_fill.simps [simp del]

definition hkdf_Read :: "hashfn \<Rightarrow> hkdfReader \<Rightarrow> nat \<Rightarrow> crypto_error + (hkdfReader \<times> bytes)" where
  "hkdf_Read H f need =
     (let remains = length (r_buf f) + unat (255 - r_counter f + 1) * 32 in
      if remains < need then Inl EntropyLimit
      else
        (let n = min need (length (r_buf f));
             (f', n', out) = hkdf_fill H f (need - n) n (take n (r_buf f))
         in Inr (f'\<lparr> r_buf := drop n' (r_buf f') \<rparr>, out)))"

definition encryptWithHMACInfo :: bytes where
  "encryptWithHMACInfo = map of_char ''identity.EncryptWithHMAC.v1''"

definition implExpandEncryptWithHMACKeyMaterial :: "hashfn \<Rightarrow> bytes \<Rightarrow> crypto_error + (bytes \<times> bytes)" where
  "implExpandEncryptWithHMACKeyMaterial H key32 =
     (case hkdf_Read H (hkdf_New H key32 (replicate SHA256Size 0) encryptWithHMACInfo) IdentityKeyMaterialSize of
        Inl e \<Rightarrow> Inl e
      | Inr (_, out) \<Rightarrow> Inr (take 32 out, drop 32 out))"

definition implDeriveIdentityKeyMaterial :: "hashfn \<Rightarrow> bytes \<Rightarrow> bytes \<Rightarrow> bytes \<Rightarrow> crypto_error + bytes" where
  "implDeriveIdentityKeyMaterial H sharedSecret salt context =
     (case hkdf_Read H (hkdf_New H sharedSecret salt context) IdentityKeyMaterialSize of
        Inl e \<Rightarrow> Inl e
      | Inr (_, key) \<Rightarrow> Inr key)"

section \<open>PKCS#7\<close>

definition RemovePKCS7Padding :: "bytes \<Rightarrow> crypto_error + bytes" where
  "RemovePKCS7Padding plaintext =
     (if length plaintext = 0 then Inl PaddingEmpty
      else if length plaintext mod aesBlockSize \<noteq> 0 then Inl PaddingSize
      else
        (let padding = unat (plaintext ! (length plaintext - 1)) in
         if padding > aesBlockSize \<or> padding = 0 then Inl PaddingSize
         else if length plaintext < padding then Inl PaddingTooLarge
         else
           (let bad = foldl (\<lambda>acc i. acc OR (plaintext ! i XOR of_nat padding)) 0
                        [length plaintext - padding ..< length plaintext]
            in if bad \<noteq> 0 then Inl PaddingBytes
               else Inr (take (length plaintext - padding) plaintext))))"

section \<open>CBC mode\<close>

record cipher =
  BlockSize :: nat
  Encrypt :: "bytes \<Rightarrow> bytes"
  Decrypt :: "bytes \<Rightarrow> bytes"

definition xor_bytes :: "bytes \<Rightarrow> bytes \<Rightarrow> bytes" where
  "xor_bytes x y = map2 (XOR) x y"

function encryptCBC_loop :: "cipher \<Rightarrow> bytes \<Rightarrow> bytes \<Rightarrow> bytes" where
  "encryptCBC_loop c prev buf =
     (if buf = [] \<or> BlockSize c = 0 then []
      else
        (let chunk = Encrypt c (xor_bytes (take (BlockSize c) buf) prev)
         in chunk @ encryptCBC_loop c chunk (drop (BlockSize c) buf)))"
  by pat_completeness auto
termination
  by (relation "measure (\<lambda>(_, _, buf). length buf)") auto

declare encryptCBC_loop.simps [simp del]

text \<open>\<open>None\<close> is the division by a zero block size.\<close>

definition EncryptCBC :: "cipher option \<Rightarrow> bytes \<Rightarrow> bytes \<Rightarrow> bytes crypto" where
  "EncryptCBC block iv buf =
     (case block of
        None \<Rightarrow> Some (Inl CBCArgs)
      | Some c \<Rightarrow>
          if length iv \<noteq> BlockSize c then Some (Inl CBCArgs)
          else if BlockSize c = 0 then None
          else if length buf mod BlockSize c \<noteq> 0 then Some (Inl CBCArgs)
          else Some (Inr (encryptCBC_loop c iv buf)))"

text \<open>
  The loop of \<open>DecryptCBC\<close> over the index \<open>i\<close>. With \<open>aliased\<close> the source and the destination are the
  same slice, so a block written is also the block seen by later reads; \<open>prev\<close> and \<open>ciph\<close> are
  the filled prefixes of the two scratch arrays.
\<close>

function decryptCBC_loop :: "cipher \<Rightarrow> bool \<Rightarrow> nat \<Rightarrow> bytes \<Rightarrow> bytes \<Rightarrow> bytes \<Rightarrow> bytes" where
  "decryptCBC_loop c aliased i prev src dst =
     (if length src \<le> i \<or> BlockSize c = 0 \<or> length dst \<noteq> length src then dst
      else
        (let bs = BlockSize c;
             ciph = take bs (drop i src);
             plain = xor_bytes (Decrypt c ciph) prev;
             dst' = take i dst @ go_copy (drop i dst) plain;
             src' = (if aliased then dst' else src)
         in decryptCBC_loop c aliased (i + bs) ciph src' dst'))"
  by pat_completeness auto
termination
  by (relation "measure (\<lambda>(_, _, i, _, src, _). length src - i)") auto

declare decryptCBC_loop.simps [simp del]

definition DecryptCBC :: "cipher option \<Rightarrow> bool \<Rightarrow> bytes \<Rightarrow> bytes \<Rightarrow> bytes \<Rightarrow> bytes crypto" where
  "DecryptCBC block aliased iv src dst =
     (case block of
        None \<Rightarrow> Some (Inl CBCArgs)
      | Some c \<Rightarrow>
          if length iv \<noteq> BlockSize c \<or> length src \<noteq> length dst then Some (Inl CBCArgs)
          else if BlockSize c = 0 then None
          else if length src mod BlockSize c \<noteq> 0 then Some (Inl CBCArgs)
          else if BlockSize c > 32 then Some (Inl CBCArgs)
          else Some (Inr (decryptCBC_loop c aliased 0 iv src dst)))"

section \<open>AES-CBC with a prepended IV\<close>

text \<open>
  The common tail of the encryption functions: padding, the random IV, CBC. \<open>rnd\<close> is the result
  of \<open>io.ReadFull(rand.Reader, out[:16])\<close>.
\<close>

definition pkcs7_pad :: "bytes \<Rightarrow> bytes" where
  "pkcs7_pad plaintext =
     (let padding = aesBlockSize - length plaintext mod aesBlockSize
      in plaintext @ replicate padding (of_nat padding))"

definition cbc_seal :: "cipher \<Rightarrow> bytes option \<Rightarrow> bytes \<Rightarrow> bytes crypto" where
  "cbc_seal block rnd plaintext =
     (case rnd of
        None \<Rightarrow> Some (Inl RandUnavailable)
      | Some r \<Rightarrow>
          (let iv = fixed aesBlockSize r in
           map_option (map_sum id (\<lambda>ct. iv @ ct)) (EncryptCBC (Some block) iv (pkcs7_pad plaintext))))"

definition cbc_open :: "cipher \<Rightarrow> bytes \<Rightarrow> bytes crypto" where
  "cbc_open block ciphertext =
     (if length ciphertext < aesBlockSize then Some (Inl CiphertextTooShort)
      else
        (let iv = take aesBlockSize ciphertext; ct = drop aesBlockSize ciphertext in
         if length ct mod aesBlockSize \<noteq> 0 then Some (Inl CiphertextNotBlocks)
         else map_option (\<lambda>r. case_sum Inl RemovePKCS7Padding r)
                (DecryptCBC (Some block) False iv ct (replicate (length ct) 0))))"

definition implEncryptAES256CBC :: "(bytes \<Rightarrow> cipher option) \<Rightarrow> bytes option \<Rightarrow> bytes \<Rightarrow> bytes \<Rightarrow> bytes crypto" where
  "implEncryptAES256CBC aes rnd key plaintext =
     (if length key \<noteq> AES256KeySize then Some (Inl InvalidKeySize)
      else case aes key of None \<Rightarrow> Some (Inl NewCipherFailed) | Some block \<Rightarrow> cbc_seal block rnd plaintext)"

definition implDecryptAES256CBC :: "(bytes \<Rightarrow> cipher option) \<Rightarrow> bytes \<Rightarrow> bytes \<Rightarrow> bytes crypto" where
  "implDecryptAES256CBC aes key ciphertext =
     (if length key \<noteq> AES256KeySize then Some (Inl InvalidKeySize)
      else case aes key of None \<Rightarrow> Some (Inl NewCipherFailed) | Some block \<Rightarrow> cbc_open block ciphertext)"

section \<open>Tokens\<close>

definition splitTokenKey :: "bytes \<Rightarrow> crypto_error + (bytes \<times> bytes)" where
  "splitTokenKey key =
     (if length key = TokenKeySize128 then Inr (take 16 key, drop 16 key)
      else if length key = TokenKeySize then Inr (take 32 key, drop 32 key)
      else Inl InvalidTokenKey)"

definition encryptAESCBC :: "(bytes \<Rightarrow> cipher option) \<Rightarrow> bytes option \<Rightarrow> bytes \<Rightarrow> bytes \<Rightarrow> bytes crypto" where
  "encryptAESCBC aes rnd key plaintext =
     (if length key = AES256KeySize then implEncryptAES256CBC aes rnd key plaintext
      else if length key \<noteq> 16 then Some (Inl InvalidKeySize)
      else case aes key of None \<Rightarrow> Some (Inl NewCipherFailed) | Some block \<Rightarrow> cbc_seal block rnd plaintext)"

definition decryptAESCBC :: "(bytes \<Rightarrow> cipher option) \<Rightarrow> bytes \<Rightarrow> bytes \<Rightarrow> bytes crypto" where
  "decryptAESCBC aes key ciphertext =
     (if length key = AES256KeySize then implDecryptAES256CBC aes key ciphertext
      else if length key \<noteq> 16 then Some (Inl InvalidKeySize)
      else case aes key of None \<Rightarrow> Some (Inl NewCipherFailed) | Some block \<Rightarrow> cbc_open block ciphertext)"

definition EncryptToken ::
  "hashfn \<Rightarrow> (bytes \<Rightarrow> cipher option) \<Rightarrow> bytes option \<Rightarrow> bytes \<Rightarrow> bytes \<Rightarrow> bytes crypto" where
  "EncryptToken H aes rnd key plaintext =
     (case splitTokenKey key of
        Inl e \<Rightarrow> Some (Inl e)
      | Inr (hmacKey, encKey) \<Rightarrow>
          map_option (map_sum id (\<lambda>ct. ct @ ComputeHMAC H hmacKey ct)) (encryptAESCBC aes rnd encKey plaintext))"

definition DecryptToken :: "hashfn \<Rightarrow> (bytes \<Rightarrow> cipher option) \<Rightarrow> bytes \<Rightarrow> bytes \<Rightarrow> bytes crypto" where
  "DecryptToken H aes key token =
     (case splitTokenKey key of
        Inl e \<Rightarrow> Some (Inl e)
      | Inr (hmacKey, encKey) \<Rightarrow>
          if length token < aesBlockSize + SHA256Size then Some (Inl TokenTooShort)
          else
            (let mac = drop (length token - SHA256Size) token; body = take (length token - SHA256Size) token in
             if \<not> ValidateHMAC H hmacKey body mac then Some (Inl InvalidHMAC)
             else decryptAESCBC aes encKey body))"

section \<open>Key derivation follows RFC 5869\<close>

text \<open>The standard: \<open>T(0)\<close> is empty, \<open>T(i+1) = HMAC(PRK, T(i) | info | i+1)\<close>, the output is a prefix of \<open>T(1) | T(2) | \<dots>\<close>.\<close>

fun rfc_T :: "hashfn \<Rightarrow> bytes \<Rightarrow> bytes \<Rightarrow> nat \<Rightarrow> bytes" where
  "rfc_T H prk info 0 = []"
| "rfc_T H prk info (Suc i) = hmac256 H prk (rfc_T H prk info i @ info @ [of_nat (Suc i)])"

definition rfc_blocks :: "hashfn \<Rightarrow> bytes \<Rightarrow> bytes \<Rightarrow> nat \<Rightarrow> nat \<Rightarrow> bytes" where
  "rfc_blocks H prk info i n = concat (map (rfc_T H prk info) [Suc i..<Suc i + n])"

definition rfc5869 :: "hashfn \<Rightarrow> bytes \<Rightarrow> bytes \<Rightarrow> bytes \<Rightarrow> nat \<Rightarrow> bytes" where
  "rfc5869 H secret salt info len =
     take len (rfc_blocks H (hmac256 H (if salt = [] then replicate 32 0 else salt) secret) info 0 ((len + 31) div 32))"

lemma rfc_blocks_0 [simp]: "rfc_blocks H prk info i 0 = []"
  by (simp add: rfc_blocks_def)

lemma rfc_blocks_Suc: "rfc_blocks H prk info i (Suc n) = rfc_T H prk info (Suc i) @ rfc_blocks H prk info (Suc i) n"
proof -
  have "[Suc i..<Suc i + Suc n] = Suc i # [Suc (Suc i)..<Suc (Suc i) + n]"
    by (simp add: upt_conv_Cons del: upt_Suc)
  then show ?thesis unfolding rfc_blocks_def by (simp del: rfc_T.simps upt_Suc)
qed

lemma length_rfc_T [simp]: "length (rfc_T H prk info (Suc i)) = 32"
  by simp

lemma length_rfc_blocks [simp]: "length (rfc_blocks H prk info i n) = 32 * n"
  by (induction n arbitrary: i) (simp_all add: rfc_blocks_Suc del: rfc_T.simps)

lemma go_copy_append:
  "go_copy d (a @ b) =
     take (min (length d) (length a)) (go_copy d a) @ go_copy (drop (min (length d) (length a)) (go_copy d a)) b"
  by (cases "length a \<le> length d") (simp_all add: go_copy_def min_def add.commute)

lemma hkdf_expand_blocks:
  "off \<le> length dst \<Longrightarrow> hkdf_expand H prk info n i (rfc_T H prk info i) off dst =
     take off dst @ go_copy (drop off dst) (rfc_blocks H prk info i n)"
proof (induction n arbitrary: i off dst)
  case 0
  then show ?case by (simp add: go_copy_def)
next
  case (Suc n)
  let ?b = "rfc_T H prk info (Suc i)"
  let ?d = "take off dst @ go_copy (drop off dst) ?b"
  let ?o = "off + min (length (drop off dst)) (length ?b)"
  have o: "?o \<le> length ?d" using Suc.prems by auto
  have "hkdf_expand H prk info (Suc n) i (rfc_T H prk info i) off dst = hkdf_expand H prk info n (Suc i) ?b ?o ?d"
    by (simp add: Let_def)
  also have "\<dots> = take ?o ?d @ go_copy (drop ?o ?d) (rfc_blocks H prk info (Suc i) n)"
    by (rule Suc.IH [OF o])
  also have "\<dots> = take off dst @ go_copy (drop off dst) (rfc_blocks H prk info i (Suc n))"
    using Suc.prems unfolding rfc_blocks_Suc go_copy_append [of "drop off dst" ?b]
    by (simp add: min_def del: rfc_T.simps)
  finally show ?case .
qed

lemma implDeriveKeyWrite_rfc:
  assumes "dst \<noteq> []" "secret \<noteq> []" "length dst \<le> 8160"
  shows "implDeriveKeyWrite H dst secret salt info = Inr (rfc5869 H secret salt info (length dst))"
proof -
  have "length dst \<le> 32 * ((length dst + 31) div 32)" by linarith
  moreover have "(length dst + 31) div 32 \<le> 255" using assms(3) by linarith
  ultimately show ?thesis
    using assms hkdf_expand_blocks [of 0 dst H _ info _ 0]
    by (simp add: implDeriveKeyWrite_def rfc5869_def go_copy_def Let_def)
qed

lemma hkdf_fill_blocks:
  "r_prev f = rfc_T H (r_prk f) (r_info f) k \<Longrightarrow> r_counter f = of_nat (Suc k) \<Longrightarrow>
   snd (snd (hkdf_fill H f p n acc)) = acc @ take p (rfc_blocks H (r_prk f) (r_info f) k ((p + 31) div 32))"
proof (induction H f p n acc arbitrary: k rule: hkdf_fill.induct)
  case (1 H f p n acc)
  show ?case
  proof (cases "p = 0")
    case True
    then show ?thesis by (subst hkdf_fill.simps) simp
  next
    case False
    let ?b = "rfc_T H (r_prk f) (r_info f) (Suc k)"
    let ?f = "f\<lparr> r_prev := ?b, r_counter := r_counter f + 1, r_buf := ?b \<rparr>"
    have b: "hmac256 H (r_prk f) (r_prev f @ r_info f @ [r_counter f]) = ?b" using "1.prems" by simp
    have "snd (snd (hkdf_fill H f p n acc)) = snd (snd (hkdf_fill H ?f (p - min p 32) (min p 32) (acc @ take (min p 32) ?b)))"
      using False by (subst hkdf_fill.simps) (simp add: Let_def b del: rfc_T.simps)
    also have "\<dots> = (acc @ take (min p 32) ?b) @ take (p - min p 32)
        (rfc_blocks H (r_prk f) (r_info f) (Suc k) ((p - min p 32 + 31) div 32))"
      using "1.IH" [OF False refl refl refl, unfolded b, of "Suc k"] "1.prems"(2)
      by (simp del: rfc_T.simps)
    also have "\<dots> = acc @ take p (rfc_blocks H (r_prk f) (r_info f) k (Suc ((p - min p 32 + 31) div 32)))"
      by (simp add: rfc_blocks_Suc min_def del: rfc_T.simps)
    also have "Suc ((p - min p 32 + 31) div 32) = (p + 31) div 32"
      using False by (cases "p \<le> 32") auto
    finally show ?thesis .
  qed
qed

lemma hkdf_Read_rfc:
  assumes "len \<le> 8160"
  shows "\<exists>f. hkdf_Read H (hkdf_New H secret salt info) len =
    Inr (f, take len (rfc_blocks H (hmac256 H salt secret) info 0 ((len + 31) div 32)))"
  using assms hkdf_fill_blocks [of "hkdf_New H secret salt info" H 0 len 0 "[]"]
  by (auto simp: hkdf_Read_def hkdf_New_def Let_def split: prod.splits)

lemma hmac_empty_key: "hmac256 H [] m = hmac256 H (replicate 32 0) m"
  by (simp add: hmac256_def hmac_key_def fixed_def go_copy_def flip: replicate_add)

text \<open>
  C31: the three key derivations are one function, HKDF-SHA256 of RFC 5869. For non-empty input
  material and every length up to the maximum of 255 blocks, the hand-written \<open>DeriveKey\<close> returns
  the standard's output; \<open>DeriveIdentityKeyMaterial\<close> is its 64-byte case, and the key expansion of
  \<open>EncryptWithHMAC\<close> is its 64-byte case with the zero salt, split in two halves.
\<close>

theorem key_derivations_are_rfc5869:
  assumes "secret \<noteq> []" "0 < len" "len \<le> 8160"
  shows "implDeriveKey H secret salt info (int len) = Inr (rfc5869 H secret salt info len)
    \<and> implDeriveIdentityKeyMaterial H secret salt info = implDeriveKey H secret salt info 64
    \<and> implExpandEncryptWithHMACKeyMaterial H secret =
        Inr (take 32 (rfc5869 H secret [] encryptWithHMACInfo 64), drop 32 (rfc5869 H secret [] encryptWithHMACInfo 64))"
proof -
  have drv: "implDeriveKey H secret salt info (int n) = Inr (rfc5869 H secret salt info n)"
    if "0 < n" "n \<le> 8160" for n
    using that assms(1) implDeriveKeyWrite_rfc [of "replicate n 0" secret H salt info]
    by (simp add: implDeriveKey_def)
  have id: "implDeriveIdentityKeyMaterial H secret salt info = Inr (rfc5869 H secret salt info 64)"
    using hkdf_Read_rfc [of 64 H secret salt info]
    by (auto simp: implDeriveIdentityKeyMaterial_def crypto_consts rfc5869_def hmac_empty_key)
  have ex: "implExpandEncryptWithHMACKeyMaterial H secret =
      Inr (take 32 (rfc5869 H secret [] encryptWithHMACInfo 64), drop 32 (rfc5869 H secret [] encryptWithHMACInfo 64))"
    using hkdf_Read_rfc [of 64 H secret "replicate 32 0" encryptWithHMACInfo]
    by (auto simp: implExpandEncryptWithHMACKeyMaterial_def crypto_consts rfc5869_def)
  show ?thesis using drv [OF assms(2,3)] drv [of 64] id ex by simp
qed

theorem key_derivations_are_rfc5869_witness:
  "implDeriveKey sample_hash [1, 2, 3] [9] [] 100 = Inr (rfc5869 sample_hash [1, 2, 3] [9] [] 100)"
  using key_derivations_are_rfc5869 [of "[1, 2, 3]" 100 sample_hash "[9]" "[]"] by simp

section \<open>Comparison and padding\<close>

lemma or_eq_0: "(a OR b = (0 :: byte)) = (a = 0 \<and> b = 0)"
  by (auto simp: or_eq_0_iff)

lemma xor_eq_0: "(a XOR b = (0 :: byte)) = (a = b)"
proof
  have "(a XOR b) XOR b = a" by (simp add: xor.assoc)
  moreover assume "a XOR b = 0"
  ultimately show "a = b" by simp
qed simp

lemma or_diff_0: "length a = length b \<Longrightarrow> or_diff a b acc = 0 \<longleftrightarrow> acc = 0 \<and> a = b"
  by (induction a b acc rule: or_diff.induct) (auto simp: or_eq_0 xor_eq_0)

lemma constant_time_equal_iff [simp]: "constant_time_equal a b \<longleftrightarrow> a = b"
  by (auto simp: constant_time_equal_def or_diff_0)

lemma fold_or_0:
  "foldl (\<lambda>acc i. acc OR (f i XOR w)) (acc :: byte) is = 0 \<longleftrightarrow> acc = 0 \<and> (\<forall>i \<in> set is. f i = w)"
  by (induction "is" arbitrary: acc) (auto simp: or_eq_0 xor_eq_0)

lemma next_multiple: "n + (16 - n mod 16) = 16 * (n div 16 + (1 :: nat))"
proof -
  define d where "d = n div 16"
  define m where "m = n mod 16"
  have n: "n = 16 * d + m" unfolding d_def m_def by simp
  have m: "m < 16" unfolding m_def by simp
  have "n + (16 - m) = 16 * (d + 1)" unfolding n using m by simp
  then show ?thesis unfolding d_def m_def .
qed

lemma length_pkcs7_pad: "length (pkcs7_pad p) = 16 * (length p div 16 + 1)"
  unfolding pkcs7_pad_def crypto_consts Let_def length_append length_replicate by (rule next_multiple)

lemma pad_size:
  fixes k n :: nat
  assumes "0 < k" "k \<le> 16" "16 dvd n" "k \<le> n"
  shows "16 - (n - k) mod 16 = k"
proof -
  obtain m where m: "n = 16 * Suc m"
    using assms by (metis dvd_def gr0_conv_Suc le_zero_eq mult_0_right not_gr_zero)
  then have "n - k = (16 - k) + 16 * m" using assms by simp
  then have "(n - k) mod 16 = (16 - k) mod 16" by (metis mod_mult_self2)
  then show ?thesis using assms(1,2) by (cases "k = 16") simp_all
qed

lemma RemovePKCS7Padding_pad: "RemovePKCS7Padding (pkcs7_pad q) = Inr q"
proof -
  define k where "k = 16 - length q mod 16"
  have k: "0 < k" "k \<le> 16" by (auto simp: k_def)
  have p: "pkcs7_pad q = q @ replicate k (of_nat k)" by (simp add: pkcs7_pad_def crypto_consts k_def)
  have last: "pkcs7_pad q ! (length (pkcs7_pad q) - 1) = of_nat k" and u: "unat (of_nat k :: byte) = k"
    using k by (auto simp: p nth_append unat_of_nat)
  have "16 dvd length (pkcs7_pad q)" "length (pkcs7_pad q) \<noteq> 0" by (simp_all add: length_pkcs7_pad)
  then show ?thesis
    unfolding RemovePKCS7Padding_def Let_def last u
    using k by (auto simp: fold_or_0 crypto_consts p nth_append)
qed

lemma RemovePKCS7Padding_sound:
  assumes "RemovePKCS7Padding p = Inr q"
  shows "p = pkcs7_pad q"
proof -
  define k where "k = unat (p ! (length p - 1))"
  note body = assms [unfolded RemovePKCS7Padding_def Let_def crypto_consts, folded k_def]
  have h: "length p mod 16 = 0" "0 < k" "k \<le> 16" "k \<le> length p" "q = take (length p - k) p"
    using body by (simp_all split: if_split_asm)
  have "foldl (\<lambda>acc i. acc OR (p ! i XOR word_of_nat k)) 0 [length p - k..<length p] = 0"
    using body by (simp split: if_split_asm)
  then have eq: "\<And>i. length p - k \<le> i \<Longrightarrow> i < length p \<Longrightarrow> p ! i = of_nat k"
    unfolding fold_or_0 by simp
  have "drop (length p - k) p = replicate k (of_nat k)"
    using h(4) eq by (intro nth_equalityI) auto
  then have "p = q @ replicate k (of_nat k)" using h(5) by (metis append_take_drop_id)
  moreover have "16 - length q mod 16 = k" using h pad_size [of k "length p"] by (simp add: mod_eq_0_iff_dvd)
  ultimately show ?thesis by (simp add: pkcs7_pad_def crypto_consts)
qed

lemma RemovePKCS7Padding_iff: "RemovePKCS7Padding p = Inr q \<longleftrightarrow> p = pkcs7_pad q"
  using RemovePKCS7Padding_pad RemovePKCS7Padding_sound by blast

section \<open>CBC is a bijection\<close>

definition block_ok :: "cipher \<Rightarrow> bool" where
  "block_ok c \<longleftrightarrow> BlockSize c = 16 \<and>
     (\<forall>b. length b = 16 \<longrightarrow> length (Encrypt c b) = 16 \<and> length (Decrypt c b) = 16
        \<and> Decrypt c (Encrypt c b) = b \<and> Encrypt c (Decrypt c b) = b)"

definition aes_ok :: "(bytes \<Rightarrow> cipher option) \<Rightarrow> bool" where
  "aes_ok aes \<longleftrightarrow> (\<forall>k. length k = 16 \<or> length k = 24 \<or> length k = 32 \<longrightarrow> (\<exists>c. aes k = Some c \<and> block_ok c))"

lemma block_okD:
  assumes "block_ok c"
  shows "BlockSize c = 16" "length b = 16 \<Longrightarrow> length (Encrypt c b) = 16" "length b = 16 \<Longrightarrow> length (Decrypt c b) = 16"
    "length b = 16 \<Longrightarrow> Decrypt c (Encrypt c b) = b" "length b = 16 \<Longrightarrow> Encrypt c (Decrypt c b) = b"
  using assms by (auto simp: block_ok_def)

lemma length_xor_bytes [simp]: "length (xor_bytes a b) = min (length a) (length b)"
  by (simp add: xor_bytes_def)

lemma xor_bytes_twice: "length a = length b \<Longrightarrow> xor_bytes (xor_bytes a b) b = a"
  unfolding xor_bytes_def by (induction a b rule: list_induct2) (simp_all add: xor.assoc)

text \<open>CBC decryption of a whole text at once: every block is decrypted and combined with its predecessor.\<close>

function cbc_plain :: "cipher \<Rightarrow> bytes \<Rightarrow> bytes \<Rightarrow> bytes" where
  "cbc_plain c prev ct =
     (if ct = [] \<or> BlockSize c = 0 then []
      else xor_bytes (Decrypt c (take (BlockSize c) ct)) prev
             @ cbc_plain c (take (BlockSize c) ct) (drop (BlockSize c) ct))"
  by pat_completeness auto
termination
  by (relation "measure (\<lambda>(_, _, ct). length ct)") auto

declare cbc_plain.simps [simp del]

lemma blocks_induct [consumes 1, case_names Nil block]:
  assumes "16 dvd length (xs :: bytes)"
    and "P []"
    and "\<And>b xs. length b = 16 \<Longrightarrow> 16 dvd length xs \<Longrightarrow> P xs \<Longrightarrow> P (b @ xs)"
  shows "P xs"
  using assms(1)
proof (induction "length xs" arbitrary: xs rule: less_induct)
  case less
  show ?case
  proof (cases "xs = []")
    case False
    then have len: "16 \<le> length xs" using less.prems by (auto dest: dvd_imp_le)
    then have "16 dvd length (drop 16 xs)" using less.prems by (simp add: dvd_diff_nat)
    then have "P (drop 16 xs)" using len by (intro less.hyps) auto
    then have "P (take 16 xs @ drop 16 xs)"
      using len \<open>16 dvd length (drop 16 xs)\<close> by (intro assms(3)) auto
    then show ?thesis by simp
  qed (simp add: assms(2))
qed

lemma cbc_plain_block:
  "block_ok c \<Longrightarrow> length b = 16 \<Longrightarrow> cbc_plain c prev (b @ ct) = xor_bytes (Decrypt c b) prev @ cbc_plain c b ct"
  by (subst cbc_plain.simps) (auto simp: block_okD)

lemma encryptCBC_block:
  "block_ok c \<Longrightarrow> length b = 16 \<Longrightarrow> encryptCBC_loop c prev (b @ buf) =
     (let chunk = Encrypt c (xor_bytes b prev) in chunk @ encryptCBC_loop c chunk buf)"
  by (subst encryptCBC_loop.simps) (auto simp: block_okD)

lemma cbc_nil [simp]: "cbc_plain c prev [] = []" "encryptCBC_loop c prev [] = []"
  by (simp_all add: cbc_plain.simps encryptCBC_loop.simps)

lemma length_encryptCBC:
  assumes "16 dvd length buf" "block_ok c" "length prev = 16"
  shows "length (encryptCBC_loop c prev buf) = length buf"
  using assms(1,3) by (induction buf arbitrary: prev rule: blocks_induct)
    (simp_all add: encryptCBC_block [OF assms(2)] block_okD [OF assms(2)] Let_def)

lemma length_cbc_plain:
  assumes "16 dvd length ct" "block_ok c" "length prev = 16"
  shows "length (cbc_plain c prev ct) = length ct"
  using assms(1,3) by (induction ct arbitrary: prev rule: blocks_induct)
    (simp_all add: cbc_plain_block [OF assms(2)] block_okD [OF assms(2)])

lemma cbc_plain_encrypt:
  assumes "16 dvd length buf" "block_ok c" "length prev = 16"
  shows "cbc_plain c prev (encryptCBC_loop c prev buf) = buf"
  using assms(1,3) by (induction buf arbitrary: prev rule: blocks_induct)
    (simp_all add: encryptCBC_block [OF assms(2)] cbc_plain_block [OF assms(2)] block_okD [OF assms(2)] Let_def xor_bytes_twice)

lemma encrypt_cbc_plain:
  assumes "16 dvd length ct" "block_ok c" "length prev = 16"
  shows "encryptCBC_loop c prev (cbc_plain c prev ct) = ct"
  using assms(1,3) by (induction ct arbitrary: prev rule: blocks_induct)
    (simp_all add: encryptCBC_block [OF assms(2)] cbc_plain_block [OF assms(2)] block_okD [OF assms(2)] Let_def xor_bytes_twice)

text \<open>The index loop computes this text, into a fresh buffer and in place.\<close>

lemma decryptCBC_loop_plain:
  assumes "block_ok c" "length prev = 16" "length dst = length src" "16 dvd length src" "16 dvd i" "i \<le> length src"
    and "aliased \<Longrightarrow> drop i src = drop i dst"
  shows "decryptCBC_loop c aliased i prev src dst = take i dst @ cbc_plain c prev (drop i src)"
  using assms(2-)
proof (induction "length src - i" arbitrary: i prev src dst rule: less_induct)
  case less
  note bo = block_okD [OF assms(1)]
  show ?case
  proof (cases "length src \<le> i")
    case True
    then show ?thesis using less.prems by (subst decryptCBC_loop.simps) simp
  next
    case False
    define b where "b = take 16 (drop i src)"
    define dst' where "dst' = take i dst @ go_copy (drop i dst) (xor_bytes (Decrypt c b) prev)"
    define src' where "src' = (if aliased then dst' else src)"
    have "16 dvd length src - i" using less.prems by (simp add: dvd_diff_nat)
    then have room: "16 \<le> length src - i" using False by (auto dest: dvd_imp_le)
    then have b: "length b = 16" "drop i src = b @ drop (i + 16) src"
      by (simp_all add: b_def) (metis add.commute append_take_drop_id drop_drop)
    have x: "length (xor_bytes (Decrypt c b) prev) = 16" using b less.prems bo by simp
    have d: "length dst' = length src" "take (i + 16) dst' = take i dst @ xor_bytes (Decrypt c b) prev"
        "drop (i + 16) dst' = drop (i + 16) dst"
      using less.prems room x by (auto simp: dst'_def go_copy_def add.commute)
    have al: "drop (i + 16) src' = drop (i + 16) src"
      using less.prems(6) d(3) by (auto simp: src'_def) (metis add.commute drop_drop)
    have "decryptCBC_loop c aliased i prev src dst = decryptCBC_loop c aliased (i + 16) b src' dst'"
      using False less.prems by (subst decryptCBC_loop.simps) (simp add: Let_def bo b_def dst'_def src'_def)
    also have "\<dots> = take (i + 16) dst' @ cbc_plain c b (drop (i + 16) src')"
    proof (rule less.hyps)
      show "length src' - (i + 16) < length src - i" "length dst' = length src'" "i + 16 \<le> length src'"
        using room d(1) by (auto simp: src'_def)
      show "16 dvd length src'" "16 dvd i + 16" using less.prems d(1) by (auto simp: src'_def)
      show "drop (i + 16) src' = drop (i + 16) dst'" if aliased using that by (simp add: src'_def)
    qed (rule b(1))
    also have "\<dots> = take i dst @ cbc_plain c prev (drop i src)"
      by (simp add: d(2) al b(2) cbc_plain_block [OF assms(1) b(1)])
    finally show ?thesis .
  qed
qed

lemma DecryptCBC_plain:
  assumes "block_ok c" "length iv = 16" "16 dvd length src" "length dst = length src" "aliased \<Longrightarrow> dst = src"
  shows "DecryptCBC (Some c) aliased iv src dst = Some (Inr (cbc_plain c iv src))"
  using assms decryptCBC_loop_plain [of c iv dst src 0 aliased] by (auto simp: DecryptCBC_def block_okD)

section \<open>Sealing and opening\<close>

lemma cbc_seal_Some:
  assumes "block_ok c"
  shows "cbc_seal c (Some r) p = Some (Inr (fixed 16 r @ encryptCBC_loop c (fixed 16 r) (pkcs7_pad p)))"
  using assms by (simp add: cbc_seal_def EncryptCBC_def block_okD length_pkcs7_pad crypto_consts Let_def)

text \<open>A text opens to \<open>p\<close> exactly if it is what sealing \<open>p\<close> with its own first 16 bytes as IV gives.\<close>

lemma cbc_open_iff:
  assumes "block_ok c"
  shows "cbc_open c t = Some (Inr p) \<longleftrightarrow> (\<exists>iv. length iv = 16 \<and> cbc_seal c (Some iv) p = Some (Inr t))"
proof
  assume "cbc_open c t = Some (Inr p)"
  then have len: "16 \<le> length t" "16 dvd length (drop 16 t)"
    and r: "map_option (\<lambda>r. case_sum Inl RemovePKCS7Padding r)
        (DecryptCBC (Some c) False (take 16 t) (drop 16 t) (replicate (length (drop 16 t)) 0)) = Some (Inr p)"
    by (auto simp: cbc_open_def Let_def crypto_consts mod_eq_0_iff_dvd split: if_splits)
  have iv: "length (take 16 t) = 16" using len(1) by simp
  have "RemovePKCS7Padding (cbc_plain c (take 16 t) (drop 16 t)) = Inr p"
    using r DecryptCBC_plain [OF assms iv len(2), of "replicate (length (drop 16 t)) 0" False] by simp
  then have "pkcs7_pad p = cbc_plain c (take 16 t) (drop 16 t)" by (simp add: RemovePKCS7Padding_iff)
  then have "cbc_seal c (Some (take 16 t)) p = Some (Inr (take 16 t @ drop 16 t))"
    using iv encrypt_cbc_plain [OF len(2) assms iv] by (simp add: cbc_seal_Some [OF assms])
  then show "\<exists>iv. length iv = 16 \<and> cbc_seal c (Some iv) p = Some (Inr t)" using iv append_take_drop_id by metis
next
  assume "\<exists>iv. length iv = 16 \<and> cbc_seal c (Some iv) p = Some (Inr t)"
  then obtain iv where iv: "length iv = 16" and t: "t = iv @ encryptCBC_loop c iv (pkcs7_pad p)"
    by (auto simp: cbc_seal_Some [OF assms])
  have pad: "16 dvd length (pkcs7_pad p)" by (simp add: length_pkcs7_pad)
  note len = length_encryptCBC [OF pad assms iv]
  show "cbc_open c t = Some (Inr p)"
    using iv len pad cbc_plain_encrypt [OF pad assms iv]
    by (simp add: t cbc_open_def crypto_consts mod_eq_0_iff_dvd DecryptCBC_plain [OF assms] RemovePKCS7Padding_iff)
qed

lemma length_cbc_seal:
  "block_ok c \<Longrightarrow> cbc_seal c (Some r) p = Some (Inr t) \<Longrightarrow> length t = 32 + 16 * (length p div 16)"
  by (auto simp: cbc_seal_Some length_encryptCBC length_pkcs7_pad)

lemma cbc_open_total:
  assumes "block_ok c"
  shows "cbc_open c t \<noteq> None"
proof (cases "length t < 16 \<or> \<not> 16 dvd length (drop 16 t)")
  case True
  then show ?thesis by (auto simp: cbc_open_def crypto_consts mod_eq_0_iff_dvd)
next
  case False
  then show ?thesis
    using DecryptCBC_plain [OF assms, of "take 16 t" "drop 16 t" "replicate (length (drop 16 t)) 0" False]
    by (simp add: cbc_open_def crypto_consts Let_def)
qed

text \<open>
  Encrypt-then-MAC boxes. A provider promises that with a usable key a box opens to a plaintext
  exactly if sealing that plaintext with some 16-byte IV gives the box, and that a seal succeeds for every
  IV. The client lemmas: every sealed box opens to its plaintext, whatever was not sealed under the
  key is refused, sealing is injective, and two boxes with one plaintext differ only by their IV.
\<close>

locale sealed_box =
  fixes usable :: "'k \<Rightarrow> bool"
    and seal :: "'k \<Rightarrow> bytes \<Rightarrow> bytes \<Rightarrow> bytes crypto"
    and unseal :: "'k \<Rightarrow> bytes \<Rightarrow> bytes crypto"
  assumes unseal_iff: "usable k \<Longrightarrow> unseal k t = Some (Inr p) \<longleftrightarrow> (\<exists>iv. length iv = 16 \<and> seal k iv p = Some (Inr t))"
    and seal_total: "usable k \<Longrightarrow> length iv = 16 \<Longrightarrow> \<exists>t. seal k iv p = Some (Inr t)"
    and seal_iv: "usable k \<Longrightarrow> length iv = 16 \<Longrightarrow> seal k iv p = Some (Inr t) \<Longrightarrow> take 16 t = iv"
begin

lemma roundtrip:
  assumes "usable k" "length iv = 16"
  shows "\<exists>t. seal k iv p = Some (Inr t) \<and> unseal k t = Some (Inr p)"
  using seal_total [OF assms] unseal_iff [OF assms(1)] assms(2) by blast

lemma refuses_unsealed:
  assumes "usable k" "\<And>iv p. length iv = 16 \<Longrightarrow> seal k iv p \<noteq> Some (Inr t)"
  shows "unseal k t \<noteq> Some (Inr p)"
  using assms unseal_iff by blast

lemma seal_injective:
  assumes "usable k" "length iv = 16" "length iv' = 16" "seal k iv p = Some (Inr t)" "seal k iv' p' = Some (Inr t)"
  shows "iv = iv' \<and> p = p'"
proof -
  have "unseal k t = Some (Inr p)" "unseal k t = Some (Inr p')"
    using unseal_iff [OF assms(1)] assms(2-) by blast+
  moreover have "take 16 t = iv" "take 16 t = iv'"
    using seal_iv [OF assms(1,2,4)] seal_iv [OF assms(1,3,5)] by simp_all
  ultimately show ?thesis by simp
qed

end

interpretation aes_box: sealed_box "block_ok" "\<lambda>c iv p. cbc_seal c (Some iv) p" cbc_open
proof
  fix c iv p t
  assume c: "block_ok c"
  show "cbc_open c t = Some (Inr p) \<longleftrightarrow> (\<exists>iv. length iv = 16 \<and> cbc_seal c (Some iv) p = Some (Inr t))"
    by (rule cbc_open_iff [OF c])
  show "\<exists>t. cbc_seal c (Some iv) p = Some (Inr t)" by (simp add: cbc_seal_Some [OF c])
  show "take 16 t = iv" if "length iv = 16" "cbc_seal c (Some iv) p = Some (Inr t)"
    using that by (auto simp: cbc_seal_Some [OF c])
qed

text \<open>Adding a MAC over the sealed text gives a box again.\<close>

definition mac_seal :: "(bytes \<Rightarrow> bytes) \<Rightarrow> bytes crypto \<Rightarrow> bytes crypto" where
  "mac_seal mac r = map_option (map_sum id (\<lambda>ct. ct @ mac ct)) r"

definition mac_open :: "(bytes \<Rightarrow> bytes) \<Rightarrow> (bytes \<Rightarrow> bytes crypto) \<Rightarrow> bytes \<Rightarrow> bytes crypto" where
  "mac_open mac open_ct t =
     (if length t < 32 \<or> drop (length t - 32) t \<noteq> mac (take (length t - 32) t) then Some (Inl InvalidHMAC)
      else open_ct (take (length t - 32) t))"

lemma mac_seal_Inr: "mac_seal mac r = Some (Inr t) \<longleftrightarrow> (\<exists>ct. r = Some (Inr ct) \<and> t = ct @ mac ct)"
  unfolding mac_seal_def
  by (cases r) (auto simp: map_sum_def split: sum.splits)

lemma mac_open_iff:
  assumes "\<And>b. length (mac b) = 32"
  shows "mac_open mac open_ct t = Some (Inr p) \<longleftrightarrow> (\<exists>ct. t = ct @ mac ct \<and> open_ct ct = Some (Inr p))"
proof
  let ?n = "length t - 32"
  assume "mac_open mac open_ct t = Some (Inr p)"
  then have "drop ?n t = mac (take ?n t)" "open_ct (take ?n t) = Some (Inr p)"
    by (simp_all add: mac_open_def split: if_split_asm)
  then have "t = take ?n t @ mac (take ?n t) \<and> open_ct (take ?n t) = Some (Inr p)"
    using append_take_drop_id [of ?n t] by simp
  then show "\<exists>ct. t = ct @ mac ct \<and> open_ct ct = Some (Inr p)" by blast
next
  assume "\<exists>ct. t = ct @ mac ct \<and> open_ct ct = Some (Inr p)"
  then show "mac_open mac open_ct t = Some (Inr p)" using assms by (auto simp: mac_open_def)
qed

lemma mac_cbc_iff:
  assumes "block_ok c" "\<And>b. length (mac b) = 32"
  shows "mac_open mac (cbc_open c) t = Some (Inr p) \<longleftrightarrow>
    (\<exists>iv. length iv = 16 \<and> mac_seal mac (cbc_seal c (Some iv) p) = Some (Inr t))"
  unfolding mac_open_iff [of mac, OF assms(2)] mac_seal_Inr cbc_open_iff [OF assms(1)] by blast

lemma mac_cbc_seal:
  assumes "block_ok c" "length iv = 16"
  shows "\<exists>ct. mac_seal mac (cbc_seal c (Some iv) p) = Some (Inr (iv @ ct @ mac (iv @ ct))) \<and> length ct = 16 * (length p div 16 + 1)"
  using assms
  by (intro exI [of _ "encryptCBC_loop c iv (pkcs7_pad p)"])
    (simp add: cbc_seal_Some mac_seal_def length_encryptCBC length_pkcs7_pad)

lemma mac_cbc_seal_iv:
  assumes "block_ok c" "length iv = 16" "mac_seal mac (cbc_seal c (Some iv) p) = Some (Inr t)"
  shows "take 16 t = iv"
  using mac_cbc_seal [OF assms(1,2), of mac p] assms(2,3) by auto

lemma mac_cbc_seal_length:
  assumes "block_ok c" "length iv = 16" "\<And>b. length (mac b) = 32" "mac_seal mac (cbc_seal c (Some iv) p) = Some (Inr t)"
  shows "length t = 48 + 16 * (length p div 16 + 1)"
  using mac_cbc_seal [OF assms(1,2), of mac p] assms(2-) by auto

subsection \<open>Tokens\<close>

type_synonym token_key = "hashfn \<times> (bytes \<Rightarrow> cipher option) \<times> bytes"

fun token_key_ok :: "token_key \<Rightarrow> bool" where
  "token_key_ok (H, aes, key) \<longleftrightarrow> aes_ok aes \<and> (length key = 32 \<or> length key = 64)"

definition token_seal :: "token_key \<Rightarrow> bytes \<Rightarrow> bytes \<Rightarrow> bytes crypto" where
  "token_seal k iv p = (case k of (H, aes, key) \<Rightarrow> EncryptToken H aes (Some iv) key p)"

definition token_open :: "token_key \<Rightarrow> bytes \<Rightarrow> bytes crypto" where
  "token_open k t = (case k of (H, aes, key) \<Rightarrow> DecryptToken H aes key t)"

lemma token_forms:
  assumes "token_key_ok (H, aes, key)"
  obtains c hk where "block_ok c"
    "\<And>r p. EncryptToken H aes r key p = mac_seal (hmac256 H hk) (cbc_seal c r p)"
    "\<And>t. DecryptToken H aes key t = (if length t < 48 then Some (Inl TokenTooShort) else mac_open (hmac256 H hk) (cbc_open c) t)"
proof (cases "length key = 32")
  case True
  then obtain c where "aes (drop 16 key) = Some c" "block_ok c"
    using assms by (auto simp: aes_ok_def dest: spec [of _ "drop 16 key"])
  then show ?thesis
    using True by (intro that [of c "take 16 key"])
      (auto simp: EncryptToken_def DecryptToken_def splitTokenKey_def encryptAESCBC_def decryptAESCBC_def crypto_consts
        mac_seal_def mac_open_def ComputeHMAC_def ValidateHMAC_def Let_def)
next
  case False
  then have len: "length key = 64" using assms by simp
  then obtain c where "aes (drop 32 key) = Some c" "block_ok c"
    using assms by (auto simp: aes_ok_def dest: spec [of _ "drop 32 key"])
  then show ?thesis
    using len by (intro that [of c "take 32 key"])
      (auto simp: EncryptToken_def DecryptToken_def splitTokenKey_def encryptAESCBC_def decryptAESCBC_def crypto_consts
        implEncryptAES256CBC_def implDecryptAES256CBC_def
        mac_seal_def mac_open_def ComputeHMAC_def ValidateHMAC_def Let_def)
qed

interpretation token_box: sealed_box token_key_ok token_seal token_open
proof
  fix k iv p t
  assume "token_key_ok k"
  then obtain H aes key c hk where k: "k = (H, aes, key)" and c: "block_ok c"
    and forms: "\<And>r p. EncryptToken H aes r key p = mac_seal (hmac256 H hk) (cbc_seal c r p)"
      "\<And>t. DecryptToken H aes key t = (if length t < 48 then Some (Inl TokenTooShort) else mac_open (hmac256 H hk) (cbc_open c) t)"
    using token_forms by (metis prod_cases3)
  note f = k forms token_seal_def token_open_def
  have long: "48 \<le> length t" if "length iv = 16" "mac_seal (hmac256 H hk) (cbc_seal c (Some iv) p) = Some (Inr t)" for iv
    using mac_cbc_seal_length [OF c that(1) _ that(2)] by simp
  show "token_open k t = Some (Inr p) \<longleftrightarrow> (\<exists>iv. length iv = 16 \<and> token_seal k iv p = Some (Inr t))"
    using mac_cbc_iff [OF c, of "hmac256 H hk" t p] long by (auto simp: f not_le [symmetric])
  show "\<exists>t. token_seal k iv p = Some (Inr t)" if "length iv = 16"
    using mac_cbc_seal [OF c that, of "hmac256 H hk" p] by (auto simp: f)
  show "take 16 t = iv" if "length iv = 16" "token_seal k iv p = Some (Inr t)"
    using mac_cbc_seal_iv [OF c that(1), of "hmac256 H hk" p t] that(2) by (simp add: f)
qed

text \<open>A block cipher for evaluating the operations: every block is combined with the key bytes.\<close>

definition sample_aes :: "bytes \<Rightarrow> cipher option" where
  "sample_aes k = Some \<lparr> BlockSize = 16, Encrypt = (\<lambda>b. xor_bytes b (fixed 16 k)), Decrypt = (\<lambda>b. xor_bytes b (fixed 16 k)) \<rparr>"

lemma sample_aes_ok [simp]: "aes_ok sample_aes"
  by (simp add: aes_ok_def sample_aes_def block_ok_def xor_bytes_twice)

text \<open>
  C32: a token key opens exactly the tokens sealed under it. With a key of 32 or 64 bytes,
  \<open>DecryptToken\<close> returns a plaintext if and only if \<open>EncryptToken\<close> with some IV turns that plaintext
  into exactly these bytes: every sealed token opens to what was sealed, and a token altered in IV,
  ciphertext, padding or MAC so that it is not the image of a seal is refused. Sealing succeeds for
  every IV and adds the IV, the padding to the next block boundary and the MAC.
\<close>

theorem token_opens_exactly_sealed:
  assumes "aes_ok aes" "length key = 32 \<or> length key = 64" "length iv = 16"
  shows "(DecryptToken H aes key t = Some (Inr p) \<longleftrightarrow> (\<exists>iv. length iv = 16 \<and> EncryptToken H aes (Some iv) key p = Some (Inr t)))
    \<and> (\<exists>t. EncryptToken H aes (Some iv) key p = Some (Inr t) \<and> DecryptToken H aes key t = Some (Inr p)
         \<and> take 16 t = iv \<and> length t = 48 + 16 * (length p div 16 + 1))"
proof -
  have ok: "token_key_ok (H, aes, key)" using assms by simp
  obtain t' where t: "EncryptToken H aes (Some iv) key p = Some (Inr t')" "DecryptToken H aes key t' = Some (Inr p)"
    using token_box.roundtrip [OF ok assms(3), of p] by (auto simp: token_open_def token_seal_def)
  moreover have "take 16 t' = iv" using token_box.seal_iv [OF ok assms(3), of p t'] t(1) by (simp add: token_seal_def)
  moreover have "length t' = 48 + 16 * (length p div 16 + 1)"
    using token_forms [OF ok] mac_cbc_seal_length assms(3) t(1) by (metis length_hmac256)
  ultimately show ?thesis
    using token_box.unseal_iff [OF ok, of t p] by (auto simp: token_open_def token_seal_def)
qed

theorem token_opens_exactly_sealed_witness:
  "\<exists>t. EncryptToken sample_hash sample_aes (Some (replicate 16 7)) (replicate 32 1) [1, 2, 3] = Some (Inr t)
     \<and> DecryptToken sample_hash sample_aes (replicate 32 1) t = Some (Inr [1, 2, 3]) \<and> length t = 64"
  using token_opens_exactly_sealed [of sample_aes "replicate 32 1" "replicate 16 7" sample_hash "[]" "[1, 2, 3]"]
  by (simp, blast)

end
