(* ===== verification/IFAC.thy ===== *)
theory IFAC
  imports Crypto
begin

text \<open>
  Interface access codes, \<open>pkg/ifac/ifac.go\<close>: a packet is prefixed with the tail of an Ed25519
  signature and masked with an HKDF stream derived from that tail and the interface key. The
  identity is used through its \<open>Sign\<close> method only, so an access-code identity carries the size, the key
  material and the signing function \<open>i_sign\<close> (\<open>None\<close> for an error). Ed25519 signing is
  deterministic, hence a function. The masking buffers of the identity (\<open>scratch\<close>) and the reuse of
  a large enough \<open>dst\<close> are not visible in the result, every byte of both being overwritten.
\<close>

definition IFACFlag :: byte where "IFACFlag = 0x80"
definition ifac_MinSize :: int where "ifac_MinSize = 1"
definition ifac_DefaultSize :: int where "ifac_DefaultSize = 16"
definition ifac_keyLen :: nat where "ifac_keyLen = 64"

text \<open>The salt, as the 32 bytes that \<open>SaltHex\<close> spells out.\<close>

definition ifac_Salt :: bytes where
  "ifac_Salt = [0xad, 0xf5, 0x4d, 0x88, 0x2c, 0x9a, 0x9b, 0x80, 0x77, 0x1e, 0xb4, 0x99, 0x5d, 0x70, 0x2d, 0x4a,
                0x3e, 0x73, 0x33, 0x91, 0xb2, 0xa0, 0xf5, 0x3f, 0x41, 0x6d, 0x9f, 0x90, 0x7e, 0x55, 0xcf, 0xf8]"

record ifac_identity =
  i_size :: nat
  i_key :: bytes
  i_sign :: "bytes \<Rightarrow> bytes option"

datatype ifac_error =
    NoNetworkName
  | DeriveFailed crypto_error
  | IdentityLoadFailed
  | BadKeyLength nat
  | IfacTooShort nat
  | IfacSignFailed
  | SignatureTooShort nat nat

definition ifac_clampSize :: "int \<Rightarrow> nat" where
  "ifac_clampSize sz =
     (let s1 = (if sz \<le> 0 then ifac_DefaultSize else sz);
          s2 = (if s1 < ifac_MinSize then ifac_MinSize else s1)
      in nat s2)"

text \<open>\<open>load\<close> is \<open>identity.FromBytes\<close>, reduced to the signing function of the loaded identity.\<close>

definition ifac_New ::
  "hashfn \<Rightarrow> (bytes \<Rightarrow> (bytes \<Rightarrow> bytes option) option) \<Rightarrow> int \<Rightarrow> bytes \<Rightarrow> bytes \<Rightarrow> ifac_error + ifac_identity" where
  "ifac_New H load sz netname netkey =
     (if netname = [] \<and> netkey = [] then Inl NoNetworkName
      else
        (let origin1 = (if netname \<noteq> [] then sum256 H netname else []);
             origin = (if netkey \<noteq> [] then origin1 @ sum256 H netkey else origin1);
             originHash = sum256 H origin
         in case implDeriveKey H originHash ifac_Salt [] (int ifac_keyLen) of
              Inl e \<Rightarrow> Inl (DeriveFailed e)
            | Inr key \<Rightarrow>
                (case load key of
                   None \<Rightarrow> Inl IdentityLoadFailed
                 | Some sign \<Rightarrow> Inr \<lparr> i_size = ifac_clampSize sz, i_key = key, i_sign = sign \<rparr>)))"

definition ifac_FromKey ::
  "(bytes \<Rightarrow> (bytes \<Rightarrow> bytes option) option) \<Rightarrow> int \<Rightarrow> bytes \<Rightarrow> ifac_error + ifac_identity" where
  "ifac_FromKey load sz key =
     (if length key \<noteq> ifac_keyLen then Inl (BadKeyLength (length key))
      else case load key of
             None \<Rightarrow> Inl IdentityLoadFailed
           | Some sign \<Rightarrow> Inr \<lparr> i_size = ifac_clampSize sz, i_key = key, i_sign = sign \<rparr>)"

definition ifac_Sign :: "ifac_identity \<Rightarrow> bytes \<Rightarrow> ifac_error + bytes" where
  "ifac_Sign i raw =
     (case i_sign i raw of
        None \<Rightarrow> Inl IfacSignFailed
      | Some sig \<Rightarrow>
          if length sig < i_size i then Inl (SignatureTooShort (length sig) (i_size i))
          else Inr (drop (length sig - i_size i) sig))"

definition mask_byte :: "nat \<Rightarrow> bytes \<Rightarrow> nat \<Rightarrow> byte \<Rightarrow> byte" where
  "mask_byte sz m k b =
     (if k = 0 then (b XOR m ! k) OR IFACFlag
      else if k = 1 \<or> k > sz + 1 then b XOR m ! k
      else b)"

definition ifac_Mask :: "hashfn \<Rightarrow> ifac_identity \<Rightarrow> bytes \<Rightarrow> ifac_error + bytes" where
  "ifac_Mask H i raw =
     (if length raw < 2 then Inl (IfacTooShort (length raw))
      else case ifac_Sign i raw of
             Inl e \<Rightarrow> Inl e
           | Inr ifacSig \<Rightarrow>
               (let maskLen = length raw + i_size i;
                    dst = [raw ! 0 OR IFACFlag, raw ! 1] @ ifacSig @ drop 2 raw
                in case implDeriveKeyWrite H (replicate maskLen 0) ifacSig (i_key i) [] of
                     Inl e \<Rightarrow> Inl (DeriveFailed e)
                   | Inr m \<Rightarrow> Inr (map (\<lambda>k. mask_byte (i_size i) m k (dst ! k)) [0..<maskLen])))"

definition ifac_Unmask :: "hashfn \<Rightarrow> ifac_identity \<Rightarrow> bytes \<Rightarrow> ifac_error + (bytes option \<times> bool)" where
  "ifac_Unmask H i raw =
     (if length raw < 2 then Inl (IfacTooShort (length raw))
      else if raw ! 0 AND IFACFlag \<noteq> IFACFlag then Inr (Some raw, True)
      else if length raw \<le> 2 + i_size i then Inr (None, False)
      else
        (let code = take (i_size i) (drop 2 raw) in
         case implDeriveKeyWrite H (replicate (length raw) 0) code (i_key i) [] of
           Inl e \<Rightarrow> Inl (DeriveFailed e)
         | Inr m \<Rightarrow>
             (let rebuilt = [(raw ! 0 XOR m ! 0) AND 0x7f, raw ! 1 XOR m ! 1]
                    @ map (\<lambda>src. raw ! src XOR m ! src) [2 + i_size i ..< length raw]
              in case ifac_Sign i rebuilt of
                   Inl e \<Rightarrow> Inl e
                 | Inr expected \<Rightarrow>
                     if \<not> constant_time_equal expected code then Inr (None, False)
                     else Inr (Some rebuilt, True))))"

section \<open>Masking in list form\<close>

lemma bit_IFACFlag [simp]: "bit IFACFlag n \<longleftrightarrow> n = 7"
proof -
  have eq: "IFACFlag = push_bit 7 1" by (simp add: IFACFlag_def push_bit_eq_mult)
  show ?thesis unfolding eq bit_push_bit_iff by (auto simp: bit_simps)
qed

lemma bit_low7: "bit (0x7f :: byte) n \<longleftrightarrow> n < 7"
proof -
  have eq: "(0x7f :: byte) = mask 7" by (simp add: mask_eq_exp_minus_1)
  show ?thesis unfolding eq bit_mask_iff by (auto simp: possible_bit_def)
qed

lemma bit_and_flag: "bit (x AND IFACFlag) n \<longleftrightarrow> n = 7 \<and> bit x 7"
  by (auto simp: bit_and_iff)

lemma bit_and_low7: "bit ((x :: byte) AND 0x7f) n \<longleftrightarrow> bit x n \<and> n < 7"
  by (simp only: bit_and_iff bit_low7)

lemma flag_clear_iff: "x AND IFACFlag = 0 \<longleftrightarrow> \<not> bit x 7"
proof
  assume "x AND IFACFlag = 0"
  then have "\<not> bit (x AND IFACFlag) 7" by simp
  then show "\<not> bit x 7" by (simp only: bit_and_flag simp_thms)
qed (auto intro: bit_eqI simp: bit_and_flag)

lemma flag_set_iff: "x AND IFACFlag = IFACFlag \<longleftrightarrow> bit x 7"
proof
  assume "x AND IFACFlag = IFACFlag"
  then have "bit (x AND IFACFlag) 7" by simp
  then show "bit x 7" by (simp only: bit_and_flag)
qed (auto intro: bit_eqI simp: bit_and_flag)

lemma bit_byte_7: "bit (x :: byte) n \<Longrightarrow> n \<noteq> 7 \<Longrightarrow> n < 7"
  using bit_imp_le_length [of x n] by simp

lemmas bit_mask_simps = bit_and_low7 bit_xor_iff bit_or_iff bit_IFACFlag

lemma unmask_mask_first: "\<not> bit x 7 \<Longrightarrow> ((((x OR IFACFlag) XOR m) OR IFACFlag) XOR m) AND 0x7f = x"
  by (rule bit_eqI) (auto simp only: bit_mask_simps dest: bit_byte_7)

lemma mask_unmask_first: "bit a 7 \<Longrightarrow> (((((a XOR m) AND 0x7f) OR IFACFlag) XOR m) OR IFACFlag) = a"
  by (rule bit_eqI) (auto simp only: bit_mask_simps dest: bit_byte_7)

text \<open>A masked packet: the two header bytes, the access code in the clear, the rest under the mask.\<close>

definition masked_form :: "nat \<Rightarrow> bytes \<Rightarrow> bytes \<Rightarrow> byte \<Rightarrow> byte \<Rightarrow> bytes \<Rightarrow> bytes" where
  "masked_form s m code x y rest =
     [(x XOR m ! 0) OR IFACFlag, y XOR m ! 1] @ code @ xor_bytes rest (drop (2 + s) m)"

lemma nth_map_upt_0: "k < n \<Longrightarrow> map f [0..<n] ! k = f k"
  by simp

lemma mask_list:
  assumes "length code = s" "length m = 2 + s + length rest"
  shows "map (\<lambda>k. mask_byte s m k (([x, y] @ code @ rest) ! k)) [0..<2 + s + length rest] = masked_form s m code x y rest"
proof (rule nth_equalityI)
  show "length (map (\<lambda>k. mask_byte s m k (([x, y] @ code @ rest) ! k)) [0..<2 + s + length rest]) = length (masked_form s m code x y rest)"
    using assms by (simp add: masked_form_def)
  fix k
  assume "k < length (map (\<lambda>k. mask_byte s m k (([x, y] @ code @ rest) ! k)) [0..<2 + s + length rest])"
  then have k: "k < 2 + s + length rest" by simp
  consider "k = 0" | "k = 1" | j where "k = 2 + j" "j < s" | j where "k = 2 + (s + j)" "j < length rest"
    using k by (metis One_nat_def add.assoc add_less_cancel_left less_2_cases_iff linorder_not_less nat_le_iff_add)
  then show "map (\<lambda>k. mask_byte s m k (([x, y] @ code @ rest) ! k)) [0..<2 + s + length rest] ! k = masked_form s m code x y rest ! k"
    unfolding nth_map_upt_0 [OF k]
    using assms k by cases (auto simp: masked_form_def mask_byte_def xor_bytes_def nth_append)
qed

lemma unmask_list:
  assumes "length m = length raw"
  shows "map (\<lambda>src. raw ! src XOR m ! src) [a ..< length raw] = xor_bytes (drop a raw) (drop a m)"
  using assms by (intro nth_equalityI) (auto simp: xor_bytes_def)

section \<open>Unmasking inverts masking\<close>

text \<open>The stream derived for a code and a length; it has that length.\<close>

lemma stream_length:
  "implDeriveKeyWrite H (replicate n 0) code key [] = Inr m \<Longrightarrow> length m = n \<and> n \<le> 8160 \<and> 0 < n \<and> code \<noteq> []"
proof -
  assume a: "implDeriveKeyWrite H (replicate n 0) code key [] = Inr m"
  then have c: "0 < n" "code \<noteq> []" "(n + 31) div 32 \<le> 255"
    by (auto simp: implDeriveKeyWrite_def Let_def split: if_split_asm)
  then have "n \<le> 8160" by linarith
  then show ?thesis using a c implDeriveKeyWrite_rfc [of "replicate n 0" code H key "[]"] by (auto simp: rfc5869_def)
qed

lemma stream_Some:
  "0 < n \<Longrightarrow> n \<le> 8160 \<Longrightarrow> code \<noteq> [] \<Longrightarrow> \<exists>m. implDeriveKeyWrite H (replicate n 0) code key [] = Inr m"
  using implDeriveKeyWrite_rfc [of "replicate n 0" code H key "[]"] by auto

lemma Sign_length: "ifac_Sign i raw = Inr code \<Longrightarrow> length code = i_size i"
  by (auto simp: ifac_Sign_def split: option.splits if_split_asm)

lemma ifac_Mask_form:
  assumes "ifac_Sign i (x # y # rest) = Inr code" and N: "N = 2 + i_size i + length rest"
  shows "ifac_Mask H i (x # y # rest) =
    (case implDeriveKeyWrite H (replicate N 0) code (i_key i) [] of
       Inl e \<Rightarrow> Inl (DeriveFailed e)
     | Inr m \<Rightarrow> Inr (masked_form (i_size i) m code (x OR IFACFlag) y rest))"
proof -
  have n: "length (x # y # rest) + i_size i = N" by (simp add: N)
  show ?thesis
  proof (cases "implDeriveKeyWrite H (replicate N 0) code (i_key i) []")
    case (Inr m)
    then have "length m = N" using stream_length by blast
    then have ml: "map (\<lambda>k. mask_byte (i_size i) m k (([x OR IFACFlag, y] @ code @ rest) ! k)) [0..<N]
        = masked_form (i_size i) m code (x OR IFACFlag) y rest"
      using mask_list [OF Sign_length [OF assms(1)], of m rest "x OR IFACFlag" y] N by simp
    show ?thesis using assms(1) Inr ml unfolding ifac_Mask_def n by (simp add: Let_def)
  qed (use assms(1) in \<open>simp add: ifac_Mask_def Let_def n [simplified]\<close>)
qed

lemma ifac_Unmask_form:
  assumes "bit a 7" "length code = i_size i" "rest \<noteq> []" and N: "N = 2 + i_size i + length rest"
  shows "ifac_Unmask H i (a # b # code @ rest) =
    (case implDeriveKeyWrite H (replicate N 0) code (i_key i) [] of
       Inl e \<Rightarrow> Inl (DeriveFailed e)
     | Inr m \<Rightarrow>
         (let r = [(a XOR m ! 0) AND 0x7f, b XOR m ! 1] @ xor_bytes rest (drop (2 + i_size i) m) in
          case ifac_Sign i r of
            Inl e \<Rightarrow> Inl e
          | Inr expected \<Rightarrow> if expected \<noteq> code then Inr (None, False) else Inr (Some r, True)))"
proof -
  define raw where "raw = a # b # code @ rest"
  have n: "length raw = N" and c: "take (i_size i) (drop 2 raw) = code"
    and d: "drop (2 + i_size i) raw = rest" and h: "raw ! 0 = a" "raw ! 1 = b"
    using assms by (simp_all add: raw_def)
  have long: "\<not> N < 2" "\<not> N \<le> 2 + i_size i" using assms by auto
  have flag: "a AND IFACFlag = IFACFlag" using assms(1) flag_set_iff by simp
  show ?thesis
  proof (cases "implDeriveKeyWrite H (replicate N 0) code (i_key i) []")
    case (Inr m)
    then have "length m = length raw" using stream_length n by blast
    then have ul: "map (\<lambda>src. raw ! src XOR m ! src) [2 + i_size i ..< N] = xor_bytes rest (drop (2 + i_size i) m)"
      using unmask_list [of m raw "2 + i_size i"] unfolding n d by simp
    show ?thesis
      unfolding raw_def [symmetric] ifac_Unmask_def Let_def c h n Inr sum.case ul constant_time_equal_iff
      using long flag by simp
  next
    case (Inl e)
    then show ?thesis
      unfolding raw_def [symmetric] ifac_Unmask_def Let_def c h n using long flag by simp
  qed
qed

lemma ifac_Unmask_Mask:
  assumes "\<not> bit x 7" "rest \<noteq> []" "ifac_Mask H i (x # y # rest) = Inr t"
  shows "ifac_Unmask H i t = Inr (Some (x # y # rest), True)"
proof -
  define N where "N = 2 + i_size i + length rest"
  obtain code where code: "ifac_Sign i (x # y # rest) = Inr code"
    using assms(3) by (auto simp: ifac_Mask_def split: sum.splits)
  note len = Sign_length [OF code]
  obtain m where m: "implDeriveKeyWrite H (replicate N 0) code (i_key i) [] = Inr m"
      and t: "t = masked_form (i_size i) m code (x OR IFACFlag) y rest"
    using assms(3) unfolding ifac_Mask_form [OF code N_def] by (auto split: sum.splits)
  define k where "k = drop (2 + i_size i) m"
  define a where "a = ((x OR IFACFlag) XOR m ! 0) OR IFACFlag"
  have lk: "length k = length rest" using stream_length [OF m] by (simp add: k_def N_def)
  have a7: "bit a 7" by (simp add: a_def bit_or_iff)
  have body: "xor_bytes rest k \<noteq> []" using assms(2) lk by (auto simp: xor_bytes_def)
  have N: "N = 2 + i_size i + length (xor_bytes rest k)" using lk by (simp add: N_def)
  have x: "(a XOR m ! 0) AND 0x7f = x" using unmask_mask_first [OF assms(1)] by (simp only: a_def)
  have tt: "t = a # (y XOR m ! 1) # code @ xor_bytes rest k"
    by (simp add: t masked_form_def a_def k_def)
  have y: "(y XOR m ! 1) XOR m ! 1 = y" by (simp add: xor.assoc)
  show ?thesis
    unfolding tt ifac_Unmask_form [OF a7 len body N] m sum.case Let_def k_def [symmetric] x y xor_bytes_twice [OF lk [symmetric]]
    by (simp add: code)
qed

lemma ifac_Mask_Unmask:
  assumes "bit a 7" "length code = i_size i" "rest \<noteq> []"
    and "ifac_Unmask H i (a # b # code @ rest) = Inr (Some r, True)"
  shows "ifac_Mask H i r = Inr (a # b # code @ rest) \<and> 2 < length r \<and> \<not> bit (r ! 0) 7"
proof -
  define N where "N = 2 + i_size i + length rest"
  note form = assms(4) [unfolded ifac_Unmask_form [OF assms(1-3) N_def] Let_def]
  obtain m where m: "implDeriveKeyWrite H (replicate N 0) code (i_key i) [] = Inr m"
    using form by (auto split: sum.splits)
  define k where "k = drop (2 + i_size i) m"
  define x where "x = (a XOR m ! 0) AND 0x7f"
  note form' = form [unfolded m sum.case, folded k_def x_def]
  have r: "r = x # (b XOR m ! 1) # xor_bytes rest k" and code: "ifac_Sign i r = Inr code"
    using form' by (auto split: sum.splits if_split_asm)
  have lk: "length k = length rest" using stream_length [OF m] by (simp add: N_def k_def)
  have N: "N = 2 + i_size i + length (xor_bytes rest k)" using lk by (simp add: N_def)
  have first: "((x OR IFACFlag) XOR m ! 0) OR IFACFlag = a"
    unfolding x_def by (rule mask_unmask_first [OF assms(1)])
  have "ifac_Mask H i r = Inr (masked_form (i_size i) m code (x OR IFACFlag) (b XOR m ! 1) (xor_bytes rest k))"
    using ifac_Mask_form [OF code [unfolded r] N, of H] by (simp add: m r)
  moreover have "masked_form (i_size i) m code (x OR IFACFlag) (b XOR m ! 1) (xor_bytes rest k) = a # b # code @ rest"
    unfolding masked_form_def first k_def [symmetric] xor_bytes_twice [OF lk [symmetric]] by (simp add: xor.assoc)
  moreover have "\<not> bit x 7" unfolding x_def bit_and_low7 by simp
  ultimately show ?thesis using assms(3) lk by (simp add: r)
qed

text \<open>Masking succeeds while the masked packet fits one key stream of 255 blocks.\<close>

lemma ifac_Mask_ok:
  assumes "ifac_Sign i (x # y # rest) = Inr code" "0 < i_size i" "2 + i_size i + length rest \<le> 8160"
  shows "\<exists>t. ifac_Mask H i (x # y # rest) = Inr t \<and> length t = 2 + i_size i + length rest \<and> bit (t ! 0) 7"
proof -
  define N where "N = 2 + i_size i + length rest"
  have "code \<noteq> []" using Sign_length [OF assms(1)] assms(2) by auto
  then obtain m where m: "implDeriveKeyWrite H (replicate N 0) code (i_key i) [] = Inr m"
    using stream_Some [of N code H "i_key i"] assms(3) by (auto simp: N_def)
  then show ?thesis
    using ifac_Mask_form [OF assms(1) N_def, of H] stream_length [OF m] Sign_length [OF assms(1)]
    by (simp add: masked_form_def N_def bit_or_iff)
qed

text \<open>
  C33: the access code of an interface accepts exactly the packets masked with it. Unmasking a
  packet that carries the access-code flag yields a packet \<open>r\<close> if and only if masking \<open>r\<close> gives the received
  bytes: what a peer with the same key sent comes back unchanged, and a packet whose code, header
  or payload was altered is refused.
\<close>

theorem ifac_accepts_exactly_masked:
  assumes "0 < i_size i" "2 + i_size i < length t" "bit (t ! 0) 7"
  shows "ifac_Unmask H i t = Inr (Some r, True) \<longleftrightarrow>
    ifac_Mask H i r = Inr t \<and> 2 < length r \<and> \<not> bit (r ! 0) 7"
proof
  assume u: "ifac_Unmask H i t = Inr (Some r, True)"
  obtain a b t' where t: "t = a # b # t'"
    using assms(2) by (metis add_lessD1 length_Cons less_nat_zero_code list.exhaust list.size(3) not_less_eq one_add_one plus_1_eq_Suc)
  show "ifac_Mask H i r = Inr t \<and> 2 < length r \<and> \<not> bit (r ! 0) 7"
    using ifac_Mask_Unmask [of a "take (i_size i) t'" i "drop (i_size i) t'" H b r] assms u by (simp add: t)
next
  assume m: "ifac_Mask H i r = Inr t \<and> 2 < length r \<and> \<not> bit (r ! 0) 7"
  then obtain x y rest where "r = x # y # rest" "rest \<noteq> []"
    by (metis One_nat_def Suc_1 length_Cons less_nat_zero_code list.exhaust list.size(3) not_less_eq)
  then show "ifac_Unmask H i t = Inr (Some r, True)" using m ifac_Unmask_Mask by simp
qed

definition sample_ifac :: ifac_identity where
  "sample_ifac = \<lparr> i_size = 8, i_key = replicate 64 5, i_sign = (\<lambda>m. Some (sum256 sample_hash m)) \<rparr>"

theorem ifac_accepts_exactly_masked_witness:
  "\<exists>t. ifac_Mask sample_hash sample_ifac [1, 2, 3] = Inr t
     \<and> ifac_Unmask sample_hash sample_ifac t = Inr (Some [1, 2, 3], True)"
proof -
  obtain t where "ifac_Mask sample_hash sample_ifac [1, 2, 3] = Inr t" "length t = 11" "bit (t ! 0) 7"
    using ifac_Mask_ok [of sample_ifac 1 2 "[3]" _ sample_hash] by (auto simp: sample_ifac_def ifac_Sign_def)
  then show ?thesis
    using ifac_accepts_exactly_masked [of sample_ifac t sample_hash "[1, 2, 3]"]
    by (auto simp: sample_ifac_def)
qed

end
