(* ===== verification/Session_Crypto.thy ===== *)
theory Session_Crypto
  imports Crypto Packet
begin

text \<open>
  The session encryption of links: the key derivation at the end of the handshake
  (\<open>performHandshakeLocked\<close> of \<open>pkg/link/link_handshake.go\<close>), the cached cipher and MAC states and
  the encryption and decryption of \<open>pkg/link/link_crypto.go\<close>, and the zero-copy sealing of a packet.

  A locked-memory buffer (\<open>securemem.Buf\<close>) is its contents, \<open>None\<close> for nil; its allocation can
  fail, so an operation that allocates takes \<open>alloc\<close>, which tells for the number of the allocation
  whether it succeeds. A keyed MAC state (\<open>hash.Hash\<close>) is its key, since it is reset before every
  use. \<open>dh\<close> is X25519, \<open>None\<close> for an error.
\<close>

definition ModeAES128CBC :: byte where "ModeAES128CBC = 0x00"
definition ModeAES256CBC :: byte where "ModeAES256CBC = 0x01"
definition link_KeySize :: nat where "link_KeySize = 32"
definition StatusHandshake :: int where "StatusHandshake = 1"

section \<open>Encryption with explicit keys\<close>

definition encryptedPayloadLen :: "nat \<Rightarrow> nat" where
  "encryptedPayloadLen plainLen =
     (let padding = aesBlockSize - plainLen mod aesBlockSize in aesBlockSize + plainLen + padding + 32)"

definition pick_cipher :: "(bytes \<Rightarrow> cipher option) \<Rightarrow> bytes \<Rightarrow> cipher option \<Rightarrow> cipher option" where
  "pick_cipher aes sessionKey block = (case block of Some c \<Rightarrow> Some c | None \<Rightarrow> aes sessionKey)"

definition pick_mac :: "bytes \<Rightarrow> bytes option \<Rightarrow> bytes" where
  "pick_mac hmacKey mac = (case mac of Some k \<Rightarrow> k | None \<Rightarrow> hmacKey)"

definition encryptWithKeysInto ::
  "hashfn \<Rightarrow> (bytes \<Rightarrow> cipher option) \<Rightarrow> bytes option \<Rightarrow> bytes \<Rightarrow> bytes \<Rightarrow> bytes \<Rightarrow> cipher option \<Rightarrow> bytes option
     \<Rightarrow> bytes crypto" where
  "encryptWithKeysInto H aes rnd sessionKey hmacKey data block mac =
     (if block = None \<and> length sessionKey = 0 then Some (Inl NoSessionKeys)
      else if mac = None \<and> length hmacKey = 0 then Some (Inl NoSessionKeys)
      else case pick_cipher aes sessionKey block of
             None \<Rightarrow> Some (Inl NewCipherFailed)
           | Some c \<Rightarrow>
               map_option (map_sum id (\<lambda>signed. signed @ hmac256 H (pick_mac hmacKey mac) signed)) (cbc_seal c rnd data))"

definition decryptWithKeys ::
  "hashfn \<Rightarrow> (bytes \<Rightarrow> cipher option) \<Rightarrow> bytes \<Rightarrow> bytes \<Rightarrow> bytes \<Rightarrow> cipher option \<Rightarrow> bytes option \<Rightarrow> bytes crypto" where
  "decryptWithKeys H aes sessionKey hmacKey data block mac =
     (if block = None \<and> length sessionKey = 0 then Some (Inl NoSessionKeys)
      else if mac = None \<and> length hmacKey = 0 then Some (Inl NoSessionKeys)
      else if length data < aesBlockSize + aesBlockSize + 32 then Some (Inl DataTooShort)
      else
        (let signedParts = take (length data - 32) data; receivedMac = drop (length data - 32) data in
         if \<not> constant_time_equal receivedMac (hmac256 H (pick_mac hmacKey mac) signedParts) then Some (Inl InvalidHMAC)
         else case pick_cipher aes sessionKey block of
                None \<Rightarrow> Some (Inl NewCipherFailed)
              | Some c \<Rightarrow> cbc_open c signedParts))"

section \<open>The link's session state\<close>

record session =
  s_mode :: byte
  s_linkID :: bytes
  s_prv :: "bytes option"
  s_peerPub :: bytes
  s_sharedKey :: "bytes option"
  s_derivedKey :: "bytes option"
  s_hmacKey :: "bytes option"
  s_sessionKey :: "bytes option"
  s_aesBlock :: "cipher option"
  s_hmacSend :: "bytes option"
  s_hmacRecv :: "bytes option"
  s_status :: int

definition bufBytes :: "bytes option \<Rightarrow> bytes" where
  "bufBytes b = (case b of None \<Rightarrow> [] | Some x \<Rightarrow> x)"

text \<open>\<open>setSecBuf\<close>: the old buffer is closed first; an empty source leaves nil, a failed allocation too.\<close>

definition setSecBuf :: "bool \<Rightarrow> bytes \<Rightarrow> bytes option \<times> bool" where
  "setSecBuf ok src = (if length src = 0 then (None, True) else if ok then (Some src, True) else (None, False))"

definition hasSessionKeys :: "session \<Rightarrow> bool" where
  "hasSessionKeys l \<longleftrightarrow> s_sessionKey l \<noteq> None \<and> s_hmacKey l \<noteq> None"

text \<open>\<open>snapshotSessionKeysLocked\<close> into two zeroed 32-byte arrays; \<open>None\<close> for the result false.\<close>

definition snapshotSessionKeysLocked :: "session \<Rightarrow> (bytes \<times> bytes) option" where
  "snapshotSessionKeysLocked l =
     (if s_sessionKey l = None \<or> s_hmacKey l = None then None
      else
        (let sk = bufBytes (s_sessionKey l); hk = bufBytes (s_hmacKey l) in
         if length sk = 0 \<or> length hk = 0 \<or> 32 < length sk \<or> 32 < length hk then None
         else Some (fixed 32 sk, fixed 32 hk)))"

definition refreshAESBlockLocked :: "(bytes \<Rightarrow> cipher option) \<Rightarrow> session \<Rightarrow> session" where
  "refreshAESBlockLocked aes l0 =
     (let l = l0\<lparr> s_aesBlock := None, s_hmacSend := None, s_hmacRecv := None \<rparr> in
      if s_sessionKey l = None \<or> s_hmacKey l = None then l
      else
        (let sk = bufBytes (s_sessionKey l); hk = bufBytes (s_hmacKey l);
             keys =
               (if s_mode l = ModeAES128CBC
                then (if length sk < 16 \<or> length hk < 16 then None else Some (take 16 sk, take 16 hk))
                else if length sk \<ge> 32 then Some (take 32 sk, hk)
                else if length sk \<ge> 16 then Some (take 16 sk, hk)
                else None)
         in case keys of
              None \<Rightarrow> l
            | Some (key, hk) \<Rightarrow>
                if length hk = 0 then l
                else (case aes key of
                        None \<Rightarrow> l
                      | Some block \<Rightarrow> l\<lparr> s_aesBlock := Some block, s_hmacSend := Some hk, s_hmacRecv := Some hk \<rparr>)))"

datatype handshake_error =
    InvalidPeerKey
  | MissingPrivateKey
  | ECDHFailed
  | SecureMemory
  | InvalidLinkMode byte
  | HKDFFailed crypto_error

text \<open>The second half of \<open>performHandshakeLocked\<close>: storing the derived key and its two parts.\<close>

definition installDerivedKey ::
  "(bytes \<Rightarrow> cipher option) \<Rightarrow> (nat \<Rightarrow> bool) \<Rightarrow> session \<Rightarrow> bytes \<Rightarrow> session \<times> handshake_error option" where
  "installDerivedKey aes alloc l1 derivedKey =
     (let (b, ok) = setSecBuf (alloc 1) derivedKey; l2 = l1\<lparr> s_derivedKey := b \<rparr> in
      if \<not> ok then (l2, Some SecureMemory)
      else
        (let half = (if length derivedKey \<ge> 64 then 32 else 16);
             (b, ok) = setSecBuf (alloc 2) (take half derivedKey);
             l3 = l2\<lparr> s_hmacKey := b \<rparr>
         in if \<not> ok then (l3, Some SecureMemory)
            else
              (let (b, ok) = setSecBuf (alloc 3) (take half (drop half derivedKey));
                   l4 = l3\<lparr> s_sessionKey := b \<rparr>
               in if \<not> ok then (l4, Some SecureMemory)
                  else ((refreshAESBlockLocked aes l4)\<lparr> s_status := StatusHandshake \<rparr>, None))))"

definition performHandshakeLocked ::
  "hashfn \<Rightarrow> (bytes \<Rightarrow> cipher option) \<Rightarrow> (bytes \<Rightarrow> bytes \<Rightarrow> bytes option) \<Rightarrow> (nat \<Rightarrow> bool) \<Rightarrow> session
     \<Rightarrow> session \<times> handshake_error option" where
  "performHandshakeLocked H aes dh alloc l0 =
     (if length (s_peerPub l0) \<noteq> link_KeySize then (l0, Some InvalidPeerKey)
      else case s_prv l0 of
        None \<Rightarrow> (l0, Some MissingPrivateKey)
      | Some prv \<Rightarrow>
         (case dh prv (s_peerPub l0) of
            None \<Rightarrow> (l0, Some ECDHFailed)
          | Some sharedSecret \<Rightarrow>
             (let (b, ok) = setSecBuf (alloc 0) sharedSecret; l1 = l0\<lparr> s_sharedKey := b \<rparr> in
              if \<not> ok then (l1, Some SecureMemory)
              else if s_mode l1 \<noteq> ModeAES128CBC \<and> s_mode l1 \<noteq> ModeAES256CBC
              then (l1, Some (InvalidLinkMode (s_mode l1)))
              else
                (let len = (if s_mode l1 = ModeAES128CBC then 32 else 64) in
                 case implDeriveKey H (bufBytes (s_sharedKey l1)) (s_linkID l1) [] len of
                   Inl e \<Rightarrow> (l1, Some (HKDFFailed e))
                 | Inr derivedKey \<Rightarrow> installDerivedKey aes alloc l1 derivedKey))))"

section \<open>Encryption and decryption on a link\<close>

definition encryptLockedInto ::
  "hashfn \<Rightarrow> (bytes \<Rightarrow> cipher option) \<Rightarrow> bytes option \<Rightarrow> session \<Rightarrow> bytes \<Rightarrow> bytes crypto" where
  "encryptLockedInto H aes rnd l data =
     (if s_aesBlock l \<noteq> None \<and> s_hmacSend l \<noteq> None
      then encryptWithKeysInto H aes rnd [] [] data (s_aesBlock l) (s_hmacSend l)
      else case snapshotSessionKeysLocked l of
             None \<Rightarrow> Some (Inl NoSessionKeys)
           | Some (sessionKey, hmacKey) \<Rightarrow>
               if s_mode l = ModeAES128CBC
               then encryptWithKeysInto H aes rnd (take 16 sessionKey) (take 16 hmacKey) data (s_aesBlock l) None
               else encryptWithKeysInto H aes rnd sessionKey hmacKey data (s_aesBlock l) None)"

definition link_encrypt ::
  "hashfn \<Rightarrow> (bytes \<Rightarrow> cipher option) \<Rightarrow> bytes option \<Rightarrow> session \<Rightarrow> bytes \<Rightarrow> bytes crypto" where
  "link_encrypt H aes rnd l data =
     (let keys = (if s_aesBlock l \<noteq> None \<and> s_hmacSend l \<noteq> None then Some ([], []) else snapshotSessionKeysLocked l) in
      case keys of
        None \<Rightarrow> Some (Inl NoSessionKeys)
      | Some (sessionKey, hmacKey) \<Rightarrow>
          if s_aesBlock l \<noteq> None \<and> s_hmacSend l \<noteq> None
          then encryptWithKeysInto H aes rnd [] [] data (s_aesBlock l) (s_hmacSend l)
          else if s_mode l = ModeAES128CBC
          then encryptWithKeysInto H aes rnd (take 16 sessionKey) (take 16 hmacKey) data (s_aesBlock l) None
          else encryptWithKeysInto H aes rnd sessionKey hmacKey data (s_aesBlock l) None)"

text \<open>The health counter that a failed decryption increments.\<close>

datatype health_kind = KindHMACFail | KindPaddingFail

text \<open>\<open>admit\<close> is the decision of \<open>protect.AdmitCrypto\<close>.\<close>

definition link_decrypt ::
  "hashfn \<Rightarrow> (bytes \<Rightarrow> cipher option) \<Rightarrow> bool \<Rightarrow> session \<Rightarrow> bytes \<Rightarrow> (bytes crypto) \<times> health_kind option" where
  "link_decrypt H aes admit l data =
     (if length data < aesBlockSize + aesBlockSize + 32 then (Some (Inl DataTooShort), None)
      else if \<not> admit then (Some (Inl CryptoRefused), None)
      else
        (let keys = (if s_aesBlock l \<noteq> None \<and> s_hmacRecv l \<noteq> None then Some ([], []) else snapshotSessionKeysLocked l) in
         case keys of
           None \<Rightarrow> (Some (Inl NoSessionKeys), None)
         | Some (sessionKey, hmacKey) \<Rightarrow>
             (let r = (if s_aesBlock l \<noteq> None \<and> s_hmacRecv l \<noteq> None
                       then decryptWithKeys H aes [] [] data (s_aesBlock l) (s_hmacRecv l)
                       else if s_mode l = ModeAES128CBC
                       then decryptWithKeys H aes (take 16 sessionKey) (take 16 hmacKey) data (s_aesBlock l) None
                       else decryptWithKeys H aes sessionKey hmacKey data (s_aesBlock l) None)
              in (r, case r of
                       Some (Inl e) \<Rightarrow> if e = InvalidHMAC then Some KindHMACFail
                                       else if IsPaddingError e then Some KindPaddingFail else None
                     | _ \<Rightarrow> None))))"

text \<open>
  \<open>sealEncryptedHT1Locked\<close>: the ciphertext is produced in the payload view of the packet. On an
  encryption error the packet stays prepared and uncommitted.
\<close>

datatype seal_error = SealPacket packet_error | SealCrypto crypto_error

definition sealEncryptedHT1Locked ::
  "hashfn \<Rightarrow> (bytes \<Rightarrow> cipher option) \<Rightarrow> bytes option \<Rightarrow> session \<Rightarrow> packet \<Rightarrow> bytes
     \<Rightarrow> (packet \<times> seal_error option) option" where
  "sealEncryptedHT1Locked H aes rnd l p data =
     (let n = encryptedPayloadLen (length data) in
      case PrepareHT1Buffer p (s_linkID l) (int n) of
        None \<Rightarrow> None
      | Some (p1, Inl e) \<Rightarrow> Some (p1, Some (SealPacket e))
      | Some (p1, Inr view) \<Rightarrow>
          (case encryptLockedInto H aes rnd l data of
             None \<Rightarrow> None
           | Some (Inl e) \<Rightarrow> Some (p1, Some (SealCrypto e))
           | Some (Inr out) \<Rightarrow>
               if length out \<noteq> n then Some (write_view p1 out, Some (SealCrypto LengthMismatch))
               else map_option (\<lambda>(p2, e). (p2, map_option SealPacket e)) (CommitPacked H (write_view p1 out))))"

section \<open>Session keys open exactly what they seal\<close>

type_synonym session_key = "hashfn \<times> (bytes \<Rightarrow> cipher option) \<times> bytes \<times> bytes \<times> cipher option \<times> bytes option"

fun session_key_ok :: "session_key \<Rightarrow> bool" where
  "session_key_ok (H, aes, sk, hk, block, mac) \<longleftrightarrow>
     (block = None \<longrightarrow> sk \<noteq> []) \<and> (mac = None \<longrightarrow> hk \<noteq> [])
     \<and> (\<exists>c. pick_cipher aes sk block = Some c \<and> block_ok c)"

definition session_seal :: "session_key \<Rightarrow> bytes \<Rightarrow> bytes \<Rightarrow> bytes crypto" where
  "session_seal k iv p = (case k of (H, aes, sk, hk, block, mac) \<Rightarrow> encryptWithKeysInto H aes (Some iv) sk hk p block mac)"

definition session_open :: "session_key \<Rightarrow> bytes \<Rightarrow> bytes crypto" where
  "session_open k t = (case k of (H, aes, sk, hk, block, mac) \<Rightarrow> decryptWithKeys H aes sk hk t block mac)"

lemma session_forms:
  assumes "session_key_ok (H, aes, sk, hk, block, mac)"
  obtains c where "block_ok c" "pick_cipher aes sk block = Some c"
    "\<And>r p. encryptWithKeysInto H aes r sk hk p block mac = mac_seal (hmac256 H (pick_mac hk mac)) (cbc_seal c r p)"
    "\<And>t. decryptWithKeys H aes sk hk t block mac =
       (if length t < 64 then Some (Inl DataTooShort) else mac_open (hmac256 H (pick_mac hk mac)) (cbc_open c) t)"
proof -
  obtain c where "pick_cipher aes sk block = Some c" "block_ok c" using assms by auto
  then show ?thesis
    using assms by (intro that [of c])
      (auto simp: encryptWithKeysInto_def decryptWithKeys_def mac_seal_def mac_open_def crypto_consts Let_def)
qed

interpretation session_box: sealed_box session_key_ok session_seal session_open
proof
  fix k iv p t
  assume ok: "session_key_ok k"
  obtain H aes sk hk block mac where k: "k = (H, aes, sk, hk, block, mac)" by (metis prod_cases6)
  obtain c where c: "block_ok c"
    and forms: "\<And>r p. encryptWithKeysInto H aes r sk hk p block mac = mac_seal (hmac256 H (pick_mac hk mac)) (cbc_seal c r p)"
      "\<And>t. decryptWithKeys H aes sk hk t block mac =
         (if length t < 64 then Some (Inl DataTooShort) else mac_open (hmac256 H (pick_mac hk mac)) (cbc_open c) t)"
    using session_forms ok k by metis
  let ?mac = "hmac256 H (pick_mac hk mac)"
  note f = k forms session_seal_def session_open_def
  have long: "64 \<le> length t" if "length iv = 16" "mac_seal ?mac (cbc_seal c (Some iv) p) = Some (Inr t)" for iv
    using mac_cbc_seal_length [OF c that(1) _ that(2)] by simp
  show "session_open k t = Some (Inr p) \<longleftrightarrow> (\<exists>iv. length iv = 16 \<and> session_seal k iv p = Some (Inr t))"
    using mac_cbc_iff [OF c, of ?mac t p] long by (auto simp: f not_le [symmetric])
  show "\<exists>t. session_seal k iv p = Some (Inr t)" if "length iv = 16"
    using mac_cbc_seal [OF c that, of ?mac p] by (auto simp: f)
  show "take 16 t = iv" if "length iv = 16" "session_seal k iv p = Some (Inr t)"
    using mac_cbc_seal_iv [OF c that(1), of ?mac p t] that(2) by (simp add: f)
qed

lemma session_seal_length:
  assumes "session_key_ok k" "length iv = 16" "session_seal k iv p = Some (Inr t)"
  shows "length t = encryptedPayloadLen (length p)"
proof -
  obtain H aes sk hk block mac where k: "k = (H, aes, sk, hk, block, mac)" by (metis prod_cases6)
  show ?thesis
  proof (rule session_forms [OF assms(1) [unfolded k]])
    fix c
    assume c: "block_ok c"
      and f: "\<And>r p. encryptWithKeysInto H aes r sk hk p block mac = mac_seal (hmac256 H (pick_mac hk mac)) (cbc_seal c r p)"
    have "mac_seal (hmac256 H (pick_mac hk mac)) (cbc_seal c (Some iv) p) = Some (Inr t)"
      using assms(3) by (simp add: k session_seal_def f)
    then have "length t = 48 + 16 * (length p div 16 + 1)"
      using mac_cbc_seal_length [OF c assms(2), of "hmac256 H (pick_mac hk mac)"] by simp
    then show ?thesis using next_multiple [of "length p"] by (simp add: encryptedPayloadLen_def crypto_consts)
  qed
qed

section \<open>Both ends of a link\<close>

text \<open>The MAC key and the AES key that a handshake with this shared secret installs.\<close>

definition half_len :: "byte \<Rightarrow> nat" where
  "half_len mode = (if mode = ModeAES128CBC then 16 else 32)"

definition derived_mac :: "hashfn \<Rightarrow> bytes \<Rightarrow> bytes \<Rightarrow> byte \<Rightarrow> bytes" where
  "derived_mac H secret linkID mode = take (half_len mode) (rfc5869 H secret linkID [] (2 * half_len mode))"

definition derived_aes :: "hashfn \<Rightarrow> bytes \<Rightarrow> bytes \<Rightarrow> byte \<Rightarrow> bytes" where
  "derived_aes H secret linkID mode = drop (half_len mode) (rfc5869 H secret linkID [] (2 * half_len mode))"

lemma length_rfc5869: "length (rfc5869 H secret salt info n) = n"
  by (simp add: rfc5869_def)

lemma derived_lengths: "length (derived_mac H s i m) = half_len m" "length (derived_aes H s i m) = half_len m"
  by (simp_all add: derived_mac_def derived_aes_def length_rfc5869)

lemma setSecBuf_ok: "setSecBuf ok src = (b, True) \<Longrightarrow> src \<noteq> [] \<Longrightarrow> b = Some src"
  by (auto simp: setSecBuf_def split: if_split_asm)

lemma implDeriveKey_Inr:
  assumes "implDeriveKey H secret salt info (int n) = Inr k"
  shows "secret \<noteq> [] \<and> k = rfc5869 H secret salt info n"
proof -
  have n: "0 < n" "secret \<noteq> []" "(n + 31) div 32 \<le> 255"
    using assms by (auto simp: implDeriveKey_def implDeriveKeyWrite_def Let_def split: if_split_asm)
  then have "n \<le> 8160" by linarith
  then show ?thesis
    using assms n implDeriveKeyWrite_rfc [of "replicate n 0" secret H salt info] by (simp add: implDeriveKey_def)
qed

lemma refresh_installs:
  assumes "aes_ok aes" "s_hmacKey l = Some mk" "s_sessionKey l = Some ak"
    "length mk = half_len (s_mode l)" "length ak = half_len (s_mode l)"
  obtains c where "aes ak = Some c" "block_ok c"
    "refreshAESBlockLocked aes l = l\<lparr> s_aesBlock := Some c, s_hmacSend := Some mk, s_hmacRecv := Some mk \<rparr>"
proof -
  have "length ak = 16 \<or> length ak = 24 \<or> length ak = 32" using assms by (auto simp: half_len_def)
  then obtain c where c: "aes ak = Some c" "block_ok c" using assms(1) by (auto simp: aes_ok_def)
  have "refreshAESBlockLocked aes l = l\<lparr> s_aesBlock := Some c, s_hmacSend := Some mk, s_hmacRecv := Some mk \<rparr>"
    using assms c(1) by (cases "s_mode l = ModeAES128CBC")
      (auto simp: refreshAESBlockLocked_def bufBytes_def half_len_def Let_def)
  then show ?thesis using c that by blast
qed

lemma install_success:
  assumes "installDerivedKey aes alloc l k = (l', None)" "length k = 2 * half_len m"
  shows "l' = (refreshAESBlockLocked aes (l\<lparr> s_derivedKey := Some k, s_hmacKey := Some (take (half_len m) k),
      s_sessionKey := Some (drop (half_len m) k) \<rparr>))\<lparr> s_status := StatusHandshake \<rparr>"
proof -
  define h where "h = half_len m"
  have h: "(if 64 \<le> length k then 32 else 16) = h" "h \<noteq> 0" "length k = 2 * h"
    using assms(2) by (simp_all add: half_len_def h_def)
  then have ne: "k \<noteq> []" "take h k \<noteq> []" "take h (drop h k) = drop h k" "drop h k \<noteq> []" by auto
  note d = assms(1) [unfolded installDerivedKey_def h(1)]
  have "alloc 1" using d ne(1) by (auto simp: setSecBuf_def Let_def split: if_split_asm)
  moreover have "alloc 2" using d ne \<open>alloc 1\<close> by (auto simp: setSecBuf_def Let_def split: if_split_asm)
  moreover have "alloc 3" using d ne \<open>alloc 1\<close> \<open>alloc 2\<close> by (auto simp: setSecBuf_def Let_def split: if_split_asm)
  ultimately show ?thesis
    using d ne by (simp add: setSecBuf_def Let_def h_def [symmetric])
qed

lemma handshake_success:
  assumes "performHandshakeLocked H aes dh alloc l = (l', None)"
  obtains prv secret where "s_prv l = Some prv" "dh prv (s_peerPub l) = Some secret" "secret \<noteq> []"
    "s_mode l = ModeAES128CBC \<or> s_mode l = ModeAES256CBC"
    "l' = (refreshAESBlockLocked aes (l\<lparr> s_sharedKey := Some secret,
            s_derivedKey := Some (rfc5869 H secret (s_linkID l) [] (2 * half_len (s_mode l))),
            s_hmacKey := Some (derived_mac H secret (s_linkID l) (s_mode l)),
            s_sessionKey := Some (derived_aes H secret (s_linkID l) (s_mode l)) \<rparr>))\<lparr> s_status := StatusHandshake \<rparr>"
proof -
  obtain prv secret where ps: "s_prv l = Some prv" "dh prv (s_peerPub l) = Some secret"
    using assms by (auto simp: performHandshakeLocked_def split: if_split_asm option.split_asm)
  obtain b ok where sb: "setSecBuf (alloc 0) secret = (b, ok)" by fastforce
  define m where "m = s_mode l"
  define n where "n = 2 * half_len m"
  define l1 where "l1 = l\<lparr> s_sharedKey := b \<rparr>"
  have n: "(if m = ModeAES128CBC then 32 else 64) = int n" by (simp add: n_def half_len_def)
  have s1: "s_mode l1 = m" "s_linkID l1 = s_linkID l" "s_sharedKey l1 = b" by (simp_all add: l1_def m_def)
  have ok and mode: "m = ModeAES128CBC \<or> m = ModeAES256CBC"
    and rest: "(case implDeriveKey H (bufBytes b) (s_linkID l) [] (int n) of
        Inl e \<Rightarrow> (l1, Some (HKDFFailed e)) | Inr k \<Rightarrow> installDerivedKey aes alloc l1 k) = (l', None)"
    using assms unfolding performHandshakeLocked_def ps option.case sb prod.case Let_def l1_def [symmetric] s1 n
    by (auto split: if_split_asm)
  then obtain k where k: "implDeriveKey H (bufBytes b) (s_linkID l) [] (int n) = Inr k"
    and inst: "installDerivedKey aes alloc l1 k = (l', None)" by (auto split: sum.splits)
  note kk = implDeriveKey_Inr [OF k]
  have ne: "secret \<noteq> []" and b: "b = Some secret"
    using kk sb \<open>ok\<close> by (auto simp: setSecBuf_def bufBytes_def split: if_split_asm)
  have kn: "k = rfc5869 H secret (s_linkID l) [] n" using kk b by (simp add: bufBytes_def)
  have "length k = 2 * half_len m" by (simp add: kn length_rfc5869 n_def)
  note L = install_success [OF inst this]
  show ?thesis
    by (rule that [OF ps ne])
      (use mode L b in \<open>simp_all add: m_def kn l1_def derived_mac_def derived_aes_def n_def\<close>)
qed

lemma handshake_session:
  assumes "aes_ok aes" "performHandshakeLocked H aes dh alloc l = (l', None)"
    "s_prv l = Some prv" "dh prv (s_peerPub l) = Some secret"
  obtains c where "block_ok c" "aes (derived_aes H secret (s_linkID l) (s_mode l)) = Some c"
    "s_aesBlock l' = Some c" "s_linkID l' = s_linkID l"
    "s_hmacSend l' = Some (derived_mac H secret (s_linkID l) (s_mode l))"
    "s_hmacRecv l' = Some (derived_mac H secret (s_linkID l) (s_mode l))"
proof (rule handshake_success [OF assms(2)])
  fix prv' secret'
  let ?mk = "derived_mac H secret' (s_linkID l) (s_mode l)"
  let ?ak = "derived_aes H secret' (s_linkID l) (s_mode l)"
  let ?l = "l\<lparr> s_sharedKey := Some secret', s_derivedKey := Some (rfc5869 H secret' (s_linkID l) [] (2 * half_len (s_mode l))),
      s_hmacKey := Some ?mk, s_sessionKey := Some ?ak \<rparr>"
  assume h: "s_prv l = Some prv'" "dh prv' (s_peerPub l) = Some secret'"
    and l': "l' = (refreshAESBlockLocked aes ?l)\<lparr> s_status := StatusHandshake \<rparr>"
  have sec: "secret' = secret" using h assms(3,4) by simp
  show thesis
    by (rule refresh_installs [OF assms(1), of ?l ?mk ?ak])
      (use l' that sec in \<open>auto simp: derived_lengths\<close>)
qed

lemma link_encrypt_cached:
  "s_aesBlock l = Some c \<Longrightarrow> s_hmacSend l = Some mk \<Longrightarrow>
   link_encrypt H aes r l d = encryptWithKeysInto H aes r [] [] d (Some c) (Some mk)
   \<and> encryptLockedInto H aes r l d = encryptWithKeysInto H aes r [] [] d (Some c) (Some mk)"
  by (simp add: link_encrypt_def encryptLockedInto_def)

lemma link_decrypt_cached:
  assumes "s_aesBlock l = Some c" "s_hmacRecv l = Some mk" "block_ok c"
  shows "fst (link_decrypt H aes True l t) = Some (Inr d) \<longleftrightarrow> decryptWithKeys H aes [] [] t (Some c) (Some mk) = Some (Inr d)"
  using assms by (auto simp: link_decrypt_def Let_def decryptWithKeys_def crypto_consts)

text \<open>
  C34: both ends of a link understand each other, and only each other. When the two handshakes
  succeed with the same link id and mode and the two Diffie-Hellman computations agree, the keys
  agree: whatever one end encrypts the other decrypts to the same bytes, and the other accepts a
  ciphertext only if it is an encryption under this session of the bytes it returns.
\<close>

theorem link_session_end_to_end:
  assumes "aes_ok aes" "s_linkID a = s_linkID b" "s_mode a = s_mode b"
    and "s_prv a = Some x" "s_prv b = Some y" "dh x (s_peerPub a) = dh y (s_peerPub b)"
    and "performHandshakeLocked H aes dh alloc a = (a', None)" "performHandshakeLocked H aes dh alloc' b = (b', None)"
    and "length iv = 16"
  shows "(\<exists>t. link_encrypt H aes (Some iv) a' d = Some (Inr t) \<and> fst (link_decrypt H aes True b' t) = Some (Inr d)
            \<and> length t = encryptedPayloadLen (length d))
    \<and> (fst (link_decrypt H aes True b' u) = Some (Inr d) \<longleftrightarrow>
         (\<exists>iv. length iv = 16 \<and> link_encrypt H aes (Some iv) a' d = Some (Inr u)))"
proof -
  obtain secret where s: "dh x (s_peerPub a) = Some secret" "dh y (s_peerPub b) = Some secret"
    using handshake_success [OF assms(7)] assms(4,6) by (metis option.inject)
  obtain c where c: "block_ok c" "aes (derived_aes H secret (s_linkID a) (s_mode a)) = Some c" "s_aesBlock a' = Some c"
      "s_hmacSend a' = Some (derived_mac H secret (s_linkID a) (s_mode a))"
    using handshake_session [OF assms(1,7,4) s(1)] by metis
  obtain c' where c': "aes (derived_aes H secret (s_linkID b) (s_mode b)) = Some c'" "s_aesBlock b' = Some c'"
      "s_hmacRecv b' = Some (derived_mac H secret (s_linkID b) (s_mode b))"
    using handshake_session [OF assms(1,8,5) s(2)] by metis
  have cc: "c' = c" using c(2) c'(1) assms(2,3) by simp
  define mk where "mk = derived_mac H secret (s_linkID a) (s_mode a)"
  let ?k = "(H, aes, [], [], Some c, Some mk)"
  have ok: "session_key_ok ?k" using c(1) by (simp add: pick_cipher_def)
  have enc: "link_encrypt H aes (Some iv) a' d = session_seal ?k iv d" for iv
    using link_encrypt_cached [OF c(3,4)] by (simp add: session_seal_def mk_def)
  have dec: "fst (link_decrypt H aes True b' t) = Some (Inr d) \<longleftrightarrow> session_open ?k t = Some (Inr d)" for t
    using link_decrypt_cached [OF c'(2,3)] c(1) cc assms(2,3) by (simp add: session_open_def mk_def)
  obtain t where t: "session_seal ?k iv d = Some (Inr t)" "session_open ?k t = Some (Inr d)"
    using session_box.roundtrip [OF ok assms(9)] by blast
  have "length t = encryptedPayloadLen (length d)" by (rule session_seal_length [OF ok assms(9) t(1)])
  then show ?thesis using t session_box.unseal_iff [OF ok, of u d] unfolding enc dec by auto
qed

definition sample_session :: session where
  "sample_session = \<lparr> s_mode = 1, s_linkID = replicate 16 4, s_prv = Some [3], s_peerPub = replicate 32 2,
     s_sharedKey = None, s_derivedKey = None, s_hmacKey = None, s_sessionKey = None, s_aesBlock = None,
     s_hmacSend = None, s_hmacRecv = None, s_status = 0 \<rparr>"

lemma sample_handshake:
  "\<exists>l'. performHandshakeLocked H sample_aes (\<lambda>a b. Some (xor_bytes a b)) (\<lambda>_. True) sample_session = (l', None)"
proof -
  have "implDeriveKey H [1] (replicate 16 4) [] 64 = Inr (rfc5869 H [1] (replicate 16 4) [] 64)"
    using implDeriveKeyWrite_rfc [of "replicate 64 0" "[1]" H "replicate 16 4" "[]"] by (simp add: implDeriveKey_def)
  then show ?thesis
    by (simp add: performHandshakeLocked_def sample_session_def link_KeySize_def ModeAES128CBC_def ModeAES256CBC_def
        setSecBuf_def bufBytes_def xor_bytes_def installDerivedKey_def Let_def numeral_eq_Suc)
qed

theorem link_session_end_to_end_witness:
  "\<exists>l' t. performHandshakeLocked sample_hash sample_aes (\<lambda>a b. Some (xor_bytes a b)) (\<lambda>_. True) sample_session = (l', None)
     \<and> link_encrypt sample_hash sample_aes (Some (replicate 16 7)) l' [1, 2] = Some (Inr t)
     \<and> fst (link_decrypt sample_hash sample_aes True l' t) = Some (Inr [1, 2])"
proof -
  obtain l' where l': "performHandshakeLocked sample_hash sample_aes (\<lambda>a b. Some (xor_bytes a b)) (\<lambda>_. True) sample_session = (l', None)"
    using sample_handshake by blast
  have p: "s_prv sample_session = Some [3]" by (simp add: sample_session_def)
  show ?thesis
    using l' link_session_end_to_end [OF sample_aes_ok refl refl p p refl l' l', of "replicate 16 7" "[1, 2]" "[]"] by auto
qed

text \<open>
  C35: sealing a packet in place produces the packet that packing the ciphertext would. For a
  session with cached keys and a plaintext whose ciphertext fits the MTU, \<open>sealEncryptedHT1Locked\<close>
  succeeds, and its wire bytes and packet hash are those of \<open>Pack\<close> on the packet addressed to the
  link with the separately computed ciphertext as data: the length announced to the packet buffer
  is exactly the length the cipher writes, and no stale byte of the buffer survives.
\<close>

theorem sealed_packet_is_packed_ciphertext:
  assumes "p_HeaderType p = HeaderType1" "length (s_linkID l) = TruncatedHashLength" "length iv = 16"
    and "s_aesBlock l = Some c" "block_ok c" "s_hmacSend l = Some mk"
    and "HeaderType1Overhead + encryptedPayloadLen (length data) \<le> MTU"
  shows "\<exists>out p2 p3. link_encrypt H aes (Some iv) l data = Some (Inr out)
    \<and> sealEncryptedHT1Locked H aes (Some iv) l p data = Some (p2, None)
    \<and> Pack H (p\<lparr> p_DestinationHash := s_linkID l, p_Data := out, p_Packed := False \<rparr>) = Some (p3, None)
    \<and> p_Raw p2 = p_Raw p3 \<and> p_PacketHash p2 = p_PacketHash p3 \<and> p_Packed p2"
proof -
  let ?k = "(H, aes, [], [], Some c, Some mk)"
  have ok: "session_key_ok ?k" using assms(5) by (simp add: pick_cipher_def)
  obtain out where out: "session_seal ?k iv data = Some (Inr out)"
    using session_box.seal_total [OF ok assms(3)] by blast
  note len = session_seal_length [OF ok assms(3) out]
  have enc: "link_encrypt H aes (Some iv) l data = Some (Inr out)" "encryptLockedInto H aes (Some iv) l data = Some (Inr out)"
    using link_encrypt_cached [OF assms(4,6)] out by (simp_all add: session_seal_def)
  obtain p1 view p2 p3 where P: "PrepareHT1Buffer p (s_linkID l) (int (length out)) = Some (p1, Inr view)"
      "CommitPacked H (write_view p1 out) = Some (p2, None)"
      "Pack H (p\<lparr> p_DestinationHash := s_linkID l, p_Data := out, p_Packed := False \<rparr>) = Some (p3, None)"
      "p_Raw p2 = p_Raw p3" "p_PacketHash p2 = p_PacketHash p3" "p_Packed p2"
    using prepare_commit_pack [OF assms(1,2), of out H] assms(7) len by auto
  have "sealEncryptedHT1Locked H aes (Some iv) l p data = Some (p2, None)"
    using P(1,2) enc(2) len by (simp add: sealEncryptedHT1Locked_def Let_def)
  then show ?thesis using enc(1) P(3-6) by blast
qed

theorem sealed_packet_is_packed_ciphertext_witness:
  "\<exists>out p2 p3. link_encrypt sample_hash sample_aes (Some (replicate 16 7))
        (sample_session\<lparr> s_aesBlock := sample_aes [], s_hmacSend := Some [1] \<rparr>) [5, 6] = Some (Inr out)
    \<and> sealEncryptedHT1Locked sample_hash sample_aes (Some (replicate 16 7))
        (sample_session\<lparr> s_aesBlock := sample_aes [], s_hmacSend := Some [1] \<rparr>) (raw_packet (replicate 40 5)) [5, 6] = Some (p2, None)
    \<and> Pack sample_hash ((raw_packet (replicate 40 5))\<lparr> p_DestinationHash := replicate 16 4, p_Data := out, p_Packed := False \<rparr>)
        = Some (p3, None)
    \<and> p_Raw p2 = p_Raw p3"
proof -
  obtain c where c: "sample_aes [] = Some c" "block_ok c"
    by (simp add: sample_aes_def block_ok_def xor_bytes_twice)
  show ?thesis
    using sealed_packet_is_packed_ciphertext [of "raw_packet (replicate 40 5)"
        "sample_session\<lparr> s_aesBlock := sample_aes [], s_hmacSend := Some [1] \<rparr>" "replicate 16 7" c "[1]" "[5, 6]"
        sample_hash sample_aes] c
    by (simp add: sample_session_def raw_packet_def NewPacket_def packet_consts encryptedPayloadLen_def crypto_consts) blast
qed

end
