(* ===== verification/Go_Map.thy ===== *)
theory Go_Map
  imports RNS_Prelude "HOL-Library.AList"
begin

text \<open>
  Go maps whose length or iteration the code depends on. A map is an association list with distinct
  keys; \<open>m[k] = v\<close> is \<open>go_put\<close>, \<open>delete(m, k)\<close> is \<open>go_del\<close>, a lookup is \<open>map_of\<close>. The order of a
  \<open>range\<close> loop is unspecified in Go, so an operation that iterates takes the order as an argument: a
  list of keys, of which those in the map are visited.

  The tables of the program that are limited in size share a contract, the locale \<open>bounded_table\<close>:
  inserting keeps the table well-formed and within its capacity, the inserted key is found, and
  every other key has its old value or was evicted.
\<close>

type_synonym ('k, 'v) gomap = "('k \<times> 'v) list"

definition go_put :: "'k \<Rightarrow> 'v \<Rightarrow> ('k, 'v) gomap \<Rightarrow> ('k, 'v) gomap" where
  "go_put k v m = AList.update k v m"

definition go_del :: "'k \<Rightarrow> ('k, 'v) gomap \<Rightarrow> ('k, 'v) gomap" where
  "go_del k m = AList.delete k m"

definition go_keys :: "('k, 'v) gomap \<Rightarrow> 'k list" where
  "go_keys m = map fst m"

definition wf_map :: "('k, 'v) gomap \<Rightarrow> bool" where
  "wf_map m \<longleftrightarrow> distinct (map fst m)"

text \<open>A \<open>range\<close> order for a map: every key once.\<close>

definition range_order :: "'k list \<Rightarrow> ('k, 'v) gomap \<Rightarrow> bool" where
  "range_order ks m \<longleftrightarrow> distinct ks \<and> set ks = fst ` set m"

named_theorems map_simps \<open>lookups, lengths and well-formedness of Go maps\<close>

lemma wf_map_Nil [simp]: "wf_map []"
  by (simp add: wf_map_def)

lemma wf_put [map_simps]: "wf_map m \<Longrightarrow> wf_map (go_put k v m)"
  by (simp add: wf_map_def go_put_def distinct_update)

lemma wf_del [map_simps]: "wf_map m \<Longrightarrow> wf_map (go_del k m)"
  by (simp add: wf_map_def go_del_def distinct_delete)

lemma wf_filter [map_simps]: "wf_map m \<Longrightarrow> wf_map (filter P m)"
  by (simp add: wf_map_def distinct_map_filter)

lemma get_put [map_simps]: "map_of (go_put k v m) k' = (if k' = k then Some v else map_of m k')"
  by (simp add: go_put_def update_conv')

lemma get_del [map_simps]: "map_of (go_del k m) k' = (if k' = k then None else map_of m k')"
  by (simp add: go_del_def delete_conv')

lemma length_put: "length (go_put k v m) = (if map_of m k = None then length m + 1 else length m)"
proof -
  have "length (AList.update k v m) = (if k \<in> fst ` set m then length m else length m + 1)"
    by (induction m) auto
  then show ?thesis by (auto simp: go_put_def map_of_eq_None_iff)
qed

lemma length_put_le: "length (go_put k v m) \<le> length m + 1"
  by (simp add: length_put)

lemma go_del_filter: "go_del k m = filter (\<lambda>(k', _). k \<noteq> k') m"
  by (simp add: go_del_def AList.delete_eq)

lemma length_del_le: "length (go_del k m) \<le> length m"
  by (simp add: go_del_filter)

lemma length_del [map_simps]:
  assumes "wf_map m" "map_of m k \<noteq> None"
  shows "length (go_del k m) = length m - 1"
proof -
  have "length (go_del k m) = length m - (if k \<in> fst ` set m then 1 else 0)"
    using assms(1) unfolding wf_map_def
  proof (induction m)
    case (Cons p m)
    show ?case
    proof (cases "fst p = k")
      case True
      then have "k \<notin> fst ` set m" using Cons.prems by auto
      then have "go_del k m = m" by (force simp: go_del_filter filter_id_conv)
      then show ?thesis using True by (cases p) (simp add: go_del_filter)
    next
      case False
      then have "length (go_del k (p # m)) = Suc (length (go_del k m))" by (cases p) (auto simp: go_del_filter)
      moreover have "k \<in> fst ` set m \<Longrightarrow> m \<noteq> []" by auto
      ultimately show ?thesis using False Cons by (cases "k \<in> fst ` set m") (auto simp: neq_Nil_conv)
    qed
  qed (simp add: go_del_filter)
  then show ?thesis using assms(2) by (auto simp: map_of_eq_None_iff)
qed

lemma go_del_absent: "map_of m k = None \<Longrightarrow> go_del k m = m"
  by (force simp: go_del_filter map_of_eq_None_iff filter_id_conv image_iff)

lemma get_filter:
  assumes "wf_map m"
  shows "map_of (filter P m) k = (case map_of m k of None \<Rightarrow> None | Some v \<Rightarrow> if P (k, v) then Some v else None)"
  using assms unfolding wf_map_def
  by (induction m) (auto split: option.splits simp: map_of_eq_None_iff image_iff dest: map_of_SomeD)

lemma map_of_wf_iff: "wf_map m \<Longrightarrow> map_of m k = Some v \<longleftrightarrow> (k, v) \<in> set m"
  by (simp add: wf_map_def)

section \<open>Iteration and eviction\<close>

text \<open>
  A rank on the keys stands for the unspecified order in which a \<open>range\<close> loop visits a map: every
  order of the keys is the one of some rank.
\<close>

definition range_keys :: "('k \<Rightarrow> nat) \<Rightarrow> ('k, 'v) gomap \<Rightarrow> 'k list" where
  "range_keys rank m = sort_key rank (go_keys m)"

lemma range_keys_order: "wf_map m \<Longrightarrow> range_order (range_keys rank m) m"
  by (simp add: range_order_def range_keys_def go_keys_def wf_map_def)

text \<open>The loop \<open>for k := range m { if n <= 0 { return }; if k == keep { continue }; delete(m, k); n-- }\<close>.\<close>

fun evict_loop :: "'k option \<Rightarrow> 'k list \<Rightarrow> nat \<Rightarrow> ('k, 'v) gomap \<Rightarrow> ('k, 'v) gomap" where
  "evict_loop keep [] n m = m"
| "evict_loop keep (k # ks) n m =
     (if n = 0 then m
      else if Some k = keep then evict_loop keep ks n m
      else evict_loop keep ks (n - 1) (go_del k m))"

definition evict_to :: "('k \<Rightarrow> nat) \<Rightarrow> nat \<Rightarrow> 'k option \<Rightarrow> ('k, 'v) gomap \<Rightarrow> ('k, 'v) gomap" where
  "evict_to rank cap keep m =
     (if length m \<le> cap then m else evict_loop keep (range_keys rank m) (length m - cap) m)"

lemma evict_loop_wf: "wf_map m \<Longrightarrow> wf_map (evict_loop keep ks n m)"
  by (induction keep ks n m rule: evict_loop.induct) (auto simp: map_simps)

lemma evict_loop_get: "map_of (evict_loop keep ks n m) k = map_of m k \<or> map_of (evict_loop keep ks n m) k = None"
  by (induction keep ks n m rule: evict_loop.induct) (auto simp: map_simps split: if_splits)

lemma evict_loop_keep: "map_of (evict_loop (Some k) ks n m) k = map_of m k"
  by (induction "Some k" ks n m rule: evict_loop.induct) (auto simp: map_simps)

lemma evict_loop_length:
  assumes "wf_map m" "distinct ks" "set ks \<subseteq> fst ` set m" "n \<le> length (filter (\<lambda>k. Some k \<noteq> keep) ks)"
  shows "length (evict_loop keep ks n m) = length m - n"
  using assms
proof (induction keep ks n m rule: evict_loop.induct)
  case (2 keep k ks n m)
  show ?case
  proof (cases "n = 0 \<or> Some k = keep")
    case False
    have "map_of m k \<noteq> None" using "2.prems"(3) by (auto simp: map_of_eq_None_iff)
    then have len: "length (go_del k m) = length m - 1" using "2.prems"(1) by (simp add: map_simps)
    have "length (evict_loop keep ks (n - 1) (go_del k m)) = length (go_del k m) - (n - 1)"
    proof (rule "2.IH"(2))
      show "set ks \<subseteq> fst ` set (go_del k m)" using "2.prems"(2,3) by (force simp: go_del_filter)
    qed (use False "2.prems" in \<open>auto simp: map_simps\<close>)
    then show ?thesis using False len by auto
  qed (use 2 in auto)
qed simp

lemma evict_to_wf [map_simps]: "wf_map m \<Longrightarrow> wf_map (evict_to rank cap keep m)"
  by (simp add: evict_to_def evict_loop_wf)

lemma evict_to_get: "map_of (evict_to rank cap keep m) k = map_of m k \<or> map_of (evict_to rank cap keep m) k = None"
  using evict_loop_get [of keep "range_keys rank m" "length m - cap" m k] by (simp add: evict_to_def)

lemma evict_to_keep [map_simps]: "map_of (evict_to rank cap (Some k) m) k = map_of m k"
  by (simp add: evict_to_def evict_loop_keep)

lemma evict_to_length:
  assumes "wf_map m" "keep = None \<or> 0 < cap"
  shows "length (evict_to rank cap keep m) = min cap (length m)"
proof (cases "length m \<le> cap")
  case False
  let ?ks = "range_keys rank m"
  have o: "distinct ?ks" "set ?ks = fst ` set m" using range_keys_order [OF assms(1)] by (auto simp: range_order_def)
  have "length ?ks = length m" by (simp add: range_keys_def go_keys_def)
  moreover have "length (filter (\<lambda>k. Some k \<noteq> keep) ?ks) \<ge> length ?ks - (if keep = None then 0 else 1)"
  proof (cases keep)
    case (Some k)
    have "length (filter (\<lambda>x. x \<noteq> k) ?ks) = card (set ?ks - {k})"
      using o(1) by (subst distinct_card [symmetric]) (auto simp: distinct_filter intro!: arg_cong [where f = card])
    moreover have "card (set ?ks - {k}) \<ge> card (set ?ks) - 1" by (simp add: card_Diff_singleton_if)
    ultimately show ?thesis using Some distinct_card [OF o(1)] by simp
  qed simp
  ultimately have "length m - cap \<le> length (filter (\<lambda>k. Some k \<noteq> keep) ?ks)" using assms(2) False by (auto split: if_splits)
  then show ?thesis using evict_loop_length [OF assms(1) o(1)] o(2) False by (simp add: evict_to_def)
qed (simp add: evict_to_def)

subsection \<open>The oldest entry\<close>

text \<open>
  The loop that looks for the oldest entry satisfying a condition: the first visited one, replaced
  whenever a later one has a strictly earlier time.
\<close>

fun oldest_loop ::
  "('v \<Rightarrow> bool) \<Rightarrow> ('v \<Rightarrow> int) \<Rightarrow> ('k, 'v) gomap \<Rightarrow> 'k list \<Rightarrow> ('k \<times> int) option \<Rightarrow> ('k \<times> int) option" where
  "oldest_loop P ts m [] acc = acc"
| "oldest_loop P ts m (k # ks) acc =
     (case map_of m k of
        None \<Rightarrow> oldest_loop P ts m ks acc
      | Some e \<Rightarrow>
          if P e \<and> (case acc of None \<Rightarrow> True | Some (_, oldest) \<Rightarrow> ts e < oldest)
          then oldest_loop P ts m ks (Some (k, ts e))
          else oldest_loop P ts m ks acc)"

definition oldest_key :: "('v \<Rightarrow> bool) \<Rightarrow> ('v \<Rightarrow> int) \<Rightarrow> ('k \<Rightarrow> nat) \<Rightarrow> ('k, 'v) gomap \<Rightarrow> 'k option" where
  "oldest_key P ts rank m = map_option fst (oldest_loop P ts m (range_keys rank m) None)"

lemma oldest_loop_None:
  "oldest_loop P ts m ks acc = None \<longleftrightarrow> acc = None \<and> (\<forall>k \<in> set ks. \<forall>v. map_of m k = Some v \<longrightarrow> \<not> P v)"
  by (induction P ts m ks acc rule: oldest_loop.induct) (auto split: option.splits)

lemma oldest_loop_Some:
  "oldest_loop P ts m ks acc = Some (k, t) \<Longrightarrow>
     (acc = Some (k, t) \<or> (\<exists>v. map_of m k = Some v \<and> P v \<and> ts v = t))
     \<and> (\<forall>k' \<in> set ks. \<forall>v'. map_of m k' = Some v' \<longrightarrow> P v' \<longrightarrow> t \<le> ts v')
     \<and> (\<forall>a t'. acc = Some (a, t') \<longrightarrow> t \<le> t')"
proof (induction P ts m ks acc rule: oldest_loop.induct)
  case (2 P ts m k' ks acc)
  show ?case
  proof (cases "map_of m k'")
    case (Some e)
    show ?thesis
    proof (cases "P e \<and> (case acc of None \<Rightarrow> True | Some (_, oldest) \<Rightarrow> ts e < oldest)")
      case True
      then show ?thesis using "2.IH"(2) [OF Some True] "2.prems" Some by (fastforce split: option.splits)
    next
      case False
      then show ?thesis using "2.IH"(3) [OF Some False] "2.prems" Some by (fastforce split: option.splits)
    qed
  qed (use 2 in auto)
qed simp

lemma oldest_key_None: "wf_map m \<Longrightarrow> oldest_key P ts rank m = None \<longleftrightarrow> (\<forall>k v. map_of m k = Some v \<longrightarrow> \<not> P v)"
  using range_keys_order [of m rank]
  by (force simp: oldest_key_def oldest_loop_None range_order_def dest: map_of_SomeD)

lemma oldest_key_Some:
  assumes "wf_map m" "oldest_key P ts rank m = Some k"
  obtains v where "map_of m k = Some v" "P v" "\<And>k' v'. map_of m k' = Some v' \<Longrightarrow> P v' \<Longrightarrow> ts v \<le> ts v'"
proof -
  obtain t where t: "oldest_loop P ts m (range_keys rank m) None = Some (k, t)"
    using assms(2) by (auto simp: oldest_key_def)
  obtain v where v: "map_of m k = Some v" "P v" "ts v = t" using oldest_loop_Some [OF t] by auto
  have "ts v \<le> ts v'" if "map_of m k' = Some v'" "P v'" for k' v'
  proof -
    have "k' \<in> set (range_keys rank m)"
      using range_keys_order [OF assms(1), of rank] that(1) by (force simp: range_order_def dest: map_of_SomeD)
    then show ?thesis using oldest_loop_Some [OF t] v(3) that by auto
  qed
  then show ?thesis using that v by blast
qed

subsection \<open>Deleting while iterating\<close>

text \<open>
  The loop \<open>for k, e := range m { if P(e) { delete(m, k) } }\<close>, with the deleted entries in the order
  of the iteration.
\<close>

fun del_loop :: "('v \<Rightarrow> bool) \<Rightarrow> 'k list \<Rightarrow> ('k, 'v) gomap \<Rightarrow> ('k, 'v) gomap \<times> 'v list" where
  "del_loop P [] m = (m, [])"
| "del_loop P (k # ks) m =
     (case map_of m k of
        None \<Rightarrow> del_loop P ks m
      | Some e \<Rightarrow>
          if P e then (let (m', gone) = del_loop P ks (go_del k m) in (m', e # gone))
          else del_loop P ks m)"

definition del_where :: "('v \<Rightarrow> bool) \<Rightarrow> ('k \<Rightarrow> nat) \<Rightarrow> ('k, 'v) gomap \<Rightarrow> ('k, 'v) gomap \<times> 'v list" where
  "del_where P rank m = del_loop P (range_keys rank m) m"

lemma del_loop_correct:
  assumes "wf_map m" "distinct ks"
  shows "wf_map (fst (del_loop P ks m))
    \<and> (\<forall>k. map_of (fst (del_loop P ks m)) k
          = (case map_of m k of None \<Rightarrow> None | Some e \<Rightarrow> if k \<in> set ks \<and> P e then None else Some e))
    \<and> set (snd (del_loop P ks m)) = {e. \<exists>k \<in> set ks. map_of m k = Some e \<and> P e}
    \<and> length (fst (del_loop P ks m)) + length (snd (del_loop P ks m)) = length m"
  using assms
proof (induction P ks m rule: del_loop.induct)
  case (2 P k ks m)
  show ?case
  proof (cases "\<exists>e. map_of m k = Some e \<and> P e")
    case True
    then obtain e where e: "map_of m k = Some e" "P e" by blast
    have IH: "wf_map (fst (del_loop P ks (go_del k m)))"
      "\<forall>k'. map_of (fst (del_loop P ks (go_del k m))) k'
          = (case map_of (go_del k m) k' of None \<Rightarrow> None | Some e \<Rightarrow> if k' \<in> set ks \<and> P e then None else Some e)"
      "set (snd (del_loop P ks (go_del k m))) = {e. \<exists>k' \<in> set ks. map_of (go_del k m) k' = Some e \<and> P e}"
      "length (fst (del_loop P ks (go_del k m))) + length (snd (del_loop P ks (go_del k m))) = length (go_del k m)"
      using "2.IH"(2) [OF e] "2.prems" by (auto simp: wf_del)
    have "0 < length m" using e(1) by (cases m) auto
    moreover have "del_loop P (k # ks) m = (fst (del_loop P ks (go_del k m)), e # snd (del_loop P ks (go_del k m)))"
      using e by (simp add: case_prod_beta)
    moreover have "k \<notin> set ks" using "2.prems" by simp
    ultimately show ?thesis
      using IH e length_del [OF "2.prems"(1), of k]
      by (auto simp: get_del split: option.splits if_splits)
  next
    case False
    then show ?thesis using 2 by (auto split: option.splits)
  qed
qed (simp split: option.splits)

lemma del_where_correct:
  assumes "wf_map m"
  shows "wf_map (fst (del_where P rank m))"
    "map_of (fst (del_where P rank m)) k = (case map_of m k of None \<Rightarrow> None | Some e \<Rightarrow> if P e then None else Some e)"
    "set (snd (del_where P rank m)) = {e. \<exists>k. map_of m k = Some e \<and> P e}"
    "length (fst (del_where P rank m)) + length (snd (del_where P rank m)) = length m"
proof -
  have o: "distinct (range_keys rank m)" "set (range_keys rank m) = fst ` set m"
    using range_keys_order [OF assms, of rank] by (auto simp: range_order_def)
  have d: "map_of m k = Some e \<Longrightarrow> k \<in> set (range_keys rank m)" for k e
    using o(2) by (force dest: map_of_SomeD)
  note c = del_loop_correct [OF assms o(1), of P, folded del_where_def]
  show "wf_map (fst (del_where P rank m))"
    "length (fst (del_where P rank m)) + length (snd (del_where P rank m)) = length m"
    using c by blast+
  show "map_of (fst (del_where P rank m)) k = (case map_of m k of None \<Rightarrow> None | Some e \<Rightarrow> if P e then None else Some e)"
    using c d by (auto split: option.splits)
  show "set (snd (del_where P rank m)) = {e. \<exists>k. map_of m k = Some e \<and> P e}"
    using c d by auto
qed

section \<open>Tables of limited size\<close>

locale bounded_table =
  fixes insert_entry :: "'a \<Rightarrow> 'k \<Rightarrow> 'v \<Rightarrow> ('k, 'v) gomap \<Rightarrow> ('k, 'v) gomap"
    and capacity :: nat
  assumes insert_wf: "wf_map m \<Longrightarrow> wf_map (insert_entry a k v m)"
    and insert_bound: "wf_map m \<Longrightarrow> length m \<le> capacity \<Longrightarrow> length (insert_entry a k v m) \<le> capacity"
    and insert_found: "wf_map m \<Longrightarrow> length m \<le> capacity \<Longrightarrow> map_of (insert_entry a k v m) k = Some v"
    and insert_other: "wf_map m \<Longrightarrow> k' \<noteq> k \<Longrightarrow>
      map_of (insert_entry a k v m) k' = map_of m k' \<or> map_of (insert_entry a k v m) k' = None"
begin

definition table_ok :: "('k, 'v) gomap \<Rightarrow> bool" where
  "table_ok m \<longleftrightarrow> wf_map m \<and> length m \<le> capacity"

lemma table_ok_insert: "table_ok m \<Longrightarrow> table_ok (insert_entry a k v m)"
  by (simp add: table_ok_def insert_wf insert_bound)

text \<open>After any sequence of insertions a key has the value inserted last for it, or is gone.\<close>

fun insert_all :: "('a \<times> 'k \<times> 'v) list \<Rightarrow> ('k, 'v) gomap \<Rightarrow> ('k, 'v) gomap" where
  "insert_all [] m = m"
| "insert_all ((a, k, v) # es) m = insert_all es (insert_entry a k v m)"

lemma insert_all_ok: "table_ok m \<Longrightarrow> table_ok (insert_all es m)"
  by (induction es m rule: insert_all.induct) (simp_all add: table_ok_insert)

lemma insert_all_last:
  assumes "table_ok m" "k \<notin> fst ` snd ` set es"
  shows "map_of (insert_all es (insert_entry a k v m)) k \<in> {Some v, None}"
proof -
  have "map_of (insert_all es m) k \<in> {map_of m k, None}" if "table_ok m" "k \<notin> fst ` snd ` set es" for m
    using that
  proof (induction es m rule: insert_all.induct)
    case (2 a' k' v' es m)
    then have "map_of (insert_all es (insert_entry a' k' v' m)) k \<in> {map_of (insert_entry a' k' v' m) k, None}"
      by (intro "2.IH") (auto simp: table_ok_insert)
    then show ?case using 2 insert_other [of m k k' a' v'] by (auto simp: table_ok_def)
  qed simp
  from this [OF table_ok_insert [OF assms(1)] assms(2), of a k v] show ?thesis
    using insert_found [of m a k v] assms(1) by (simp add: table_ok_def)
qed

end

text \<open>A table of limited size whose entries are used once: \<open>pop\<close> returns an entry and removes it.\<close>

locale single_use_table = bounded_table insert_entry capacity
  for insert_entry :: "'a \<Rightarrow> 'k \<Rightarrow> 'v \<Rightarrow> ('k, 'v) gomap \<Rightarrow> ('k, 'v) gomap" and capacity +
  fixes pop_entry :: "'k \<Rightarrow> ('k, 'v) gomap \<Rightarrow> ('k, 'v) gomap \<times> 'v option"
  assumes pop_value: "snd (pop_entry k m) = map_of m k"
    and pop_get: "map_of (fst (pop_entry k m)) k' = (if k' = k then None else map_of m k')"
    and pop_wf: "wf_map m \<Longrightarrow> wf_map (fst (pop_entry k m))"
    and pop_length: "length (fst (pop_entry k m)) \<le> length m"
begin

lemma pop_ok: "table_ok m \<Longrightarrow> table_ok (fst (pop_entry k m))"
  using pop_length [of k m] by (simp add: table_ok_def pop_wf)

lemma pop_twice: "snd (pop_entry k (fst (pop_entry k m))) = None"
  by (simp add: pop_value pop_get)

text \<open>An entry that was inserted is popped with its value unless it was evicted by later insertions.\<close>

lemma pop_inserted:
  assumes "table_ok m" "k \<notin> fst ` snd ` set es"
  shows "snd (pop_entry k (insert_all es (insert_entry a k v m))) \<in> {Some v, None}"
  using insert_all_last [OF assms] by (simp add: pop_value)

end

end
