(* ===== verification/Identity.thy ===== *)
theory Identity
  imports Crypto Go_Map
begin

text \<open>
  Identities, \<open>pkg/identity/identity.go\<close>: encryption to an identity or to one of its ratchets,
  decryption with ratchets and their enforcement, the keyed encryption \<open>EncryptWithHMAC\<close>, and the
  retained ratchets. \<open>dh\<close> is X25519 (\<open>DeriveSharedSecret\<close>) and \<open>pubOf\<close> is \<open>PublicKeyFromPrivate\<close>,
  \<open>None\<close> for an error. A locked buffer is its contents.
\<close>

definition id_KeySize :: nat where "id_KeySize = 512"
definition RatchetSize :: nat where "RatchetSize = 256"
definition RatchetExpiry :: int where "RatchetExpiry = 2592000"
definition NameHashLength :: nat where "NameHashLength = 80"
definition MaxRetainedRatchets :: nat where "MaxRetainedRatchets = 512"

lemmas identity_consts = id_KeySize_def RatchetSize_def RatchetExpiry_def NameHashLength_def MaxRetainedRatchets_def

record identity =
  id_privateKey :: "bytes option"
  id_publicKey :: bytes
  id_verificationKey :: bytes
  id_hash :: "bytes option"
  id_ratchets :: "(bytes, bytes) gomap"
  id_ratchetExpiry :: "(bytes, int) gomap"

definition GetSalt :: "identity \<Rightarrow> bytes" where
  "GetSalt i = (case id_hash i of None \<Rightarrow> [] | Some h \<Rightarrow> h)"

definition GetContext :: "identity \<Rightarrow> bytes" where
  "GetContext i = []"

definition GetRatchetID :: "hashfn \<Rightarrow> bytes \<Rightarrow> bytes" where
  "GetRatchetID H ratchetPubBytes = take (NameHashLength div 8) (sum256 H ratchetPubBytes)"

definition hasDecryptPrivate :: "identity \<Rightarrow> bool" where
  "hasDecryptPrivate i = (case id_privateKey i of None \<Rightarrow> False | Some k \<Rightarrow> length k = 32)"

section \<open>Encryption and decryption\<close>

definition identity_Encrypt ::
  "hashfn \<Rightarrow> (bytes \<Rightarrow> cipher option) \<Rightarrow> (bytes \<Rightarrow> bytes \<Rightarrow> bytes option) \<Rightarrow> (bytes \<times> bytes) option \<Rightarrow> bytes option
     \<Rightarrow> identity \<Rightarrow> bytes \<Rightarrow> bytes \<Rightarrow> bytes crypto" where
  "identity_Encrypt H aes dh keyPair rnd i plaintext ratchet =
     (case keyPair of
        None \<Rightarrow> Some (Inl RandUnavailable)
      | Some (ephemeralPrivKey, ephemeralPubKey) \<Rightarrow>
          (let targetKey = (if length ratchet > 0 then ratchet else id_publicKey i) in
           case dh ephemeralPrivKey targetKey of
             None \<Rightarrow> Some (Inl SharedKeyFailed)
           | Some sharedSecret \<Rightarrow>
               (case implDeriveIdentityKeyMaterial H sharedSecret (GetSalt i) (GetContext i) of
                  Inl e \<Rightarrow> Some (Inl e)
                | Inr key \<Rightarrow>
                    (let hmacKey = take 32 key; encryptionKey = drop 32 key in
                     map_option (map_sum id (\<lambda>ciphertext. ephemeralPubKey @ ciphertext @ ComputeHMAC H hmacKey ciphertext))
                       (implEncryptAES256CBC aes rnd encryptionKey plaintext)))))"

text \<open>The keyed part that both decryption paths share: MAC over the ciphertext, then AES.\<close>

definition openWithKey ::
  "hashfn \<Rightarrow> (bytes \<Rightarrow> cipher option) \<Rightarrow> bytes \<Rightarrow> bytes \<Rightarrow> bytes \<Rightarrow> bytes crypto" where
  "openWithKey H aes key ciphertext mac =
     (if \<not> ValidateHMAC H (take 32 key) ciphertext mac then Some (Inl InvalidHMAC)
      else implDecryptAES256CBC aes (drop 32 key) ciphertext)"

definition tryRatchetDecryption ::
  "hashfn \<Rightarrow> (bytes \<Rightarrow> cipher option) \<Rightarrow> (bytes \<Rightarrow> bytes \<Rightarrow> bytes option) \<Rightarrow> (bytes \<Rightarrow> bytes option)
     \<Rightarrow> identity \<Rightarrow> bytes \<Rightarrow> bytes \<Rightarrow> bytes \<Rightarrow> bytes \<Rightarrow> (bytes \<times> bytes) crypto" where
  "tryRatchetDecryption H aes dh pubOf i peerPubBytes ciphertext mac ratchet =
     (case pubOf ratchet of
        None \<Rightarrow> Some (Inl SharedKeyFailed)
      | Some ratchetPubBytes \<Rightarrow>
          (case dh ratchet peerPubBytes of
             None \<Rightarrow> Some (Inl SharedKeyFailed)
           | Some sharedSecret \<Rightarrow>
               (case implDeriveIdentityKeyMaterial H sharedSecret (GetSalt i) (GetContext i) of
                  Inl e \<Rightarrow> Some (Inl e)
                | Inr key \<Rightarrow>
                    map_option (map_sum id (\<lambda>plaintext. (plaintext, GetRatchetID H ratchetPubBytes)))
                      (openWithKey H aes key ciphertext mac))))"

text \<open>The loop over the ratchets stops at the first one that decrypts; \<open>Some None\<close> is no match.\<close>

fun tryRatchets ::
  "hashfn \<Rightarrow> (bytes \<Rightarrow> cipher option) \<Rightarrow> (bytes \<Rightarrow> bytes \<Rightarrow> bytes option) \<Rightarrow> (bytes \<Rightarrow> bytes option)
     \<Rightarrow> identity \<Rightarrow> bytes \<Rightarrow> bytes \<Rightarrow> bytes \<Rightarrow> bytes list \<Rightarrow> (bytes \<times> bytes) option option" where
  "tryRatchets H aes dh pubOf i peer ct mac [] = Some None"
| "tryRatchets H aes dh pubOf i peer ct mac (r # rs) =
     (case tryRatchetDecryption H aes dh pubOf i peer ct mac r of
        None \<Rightarrow> None
      | Some (Inr found) \<Rightarrow> Some (Some found)
      | Some (Inl _) \<Rightarrow> tryRatchets H aes dh pubOf i peer ct mac rs)"

text \<open>
  The result carries what happens to \<open>ratchetIDReceiver.LatestRatchetID\<close>: untouched (\<open>None\<close>), or set
  to nil or to a ratchet id.
\<close>

definition identity_Decrypt ::
  "hashfn \<Rightarrow> (bytes \<Rightarrow> cipher option) \<Rightarrow> (bytes \<Rightarrow> bytes \<Rightarrow> bytes option) \<Rightarrow> (bytes \<Rightarrow> bytes option) \<Rightarrow> bool
     \<Rightarrow> identity \<Rightarrow> bytes \<Rightarrow> bytes list \<Rightarrow> bool \<Rightarrow> (bytes crypto) \<times> bytes option option" where
  "identity_Decrypt H aes dh pubOf admit i token ratchets enforceRatchets =
     (if \<not> hasDecryptPrivate i then (Some (Inl NoPrivateKey), None)
      else if \<not> admit then (Some (Inl CryptoRefused), None)
      else if length token \<le> id_KeySize div 8 div 2 then (Some (Inl InvalidTokenSize), None)
      else if length token < 32 + 32 + 32 then (Some (Inl TokenTooShort), None)
      else
        (let peerPubBytes = take 32 token;
             ciphertext = take (length token - 64) (drop 32 token);
             mac = drop (length token - 32) token
         in case tryRatchets H aes dh pubOf i peerPubBytes ciphertext mac ratchets of
              None \<Rightarrow> (None, None)
            | Some (Some (plaintext, ratchetID)) \<Rightarrow> (Some (Inr plaintext), Some (Some ratchetID))
            | Some None \<Rightarrow>
                if enforceRatchets then (Some (Inl RatchetEnforced), Some None)
                else (case dh (the (id_privateKey i)) peerPubBytes of
                        None \<Rightarrow> (Some (Inl SharedKeyFailed), None)
                      | Some sharedKey \<Rightarrow>
                          (case implDeriveIdentityKeyMaterial H sharedKey (GetSalt i) (GetContext i) of
                             Inl e \<Rightarrow> (Some (Inl e), None)
                           | Inr key \<Rightarrow>
                               (case openWithKey H aes key ciphertext mac of
                                  Some (Inr plaintext) \<Rightarrow> (Some (Inr plaintext), Some None)
                                | r \<Rightarrow> (r, None))))))"

section \<open>Keyed encryption\<close>

definition splitHMACKey :: "hashfn \<Rightarrow> bytes \<Rightarrow> crypto_error + (bytes \<times> bytes)" where
  "splitHMACKey H key =
     (if length key = 64 then Inr (take 32 key, drop 32 key)
      else if length key = 32 then implExpandEncryptWithHMACKeyMaterial H key
      else Inl InvalidKeySize)"

definition EncryptWithHMAC ::
  "hashfn \<Rightarrow> (bytes \<Rightarrow> cipher option) \<Rightarrow> bytes option \<Rightarrow> bytes \<Rightarrow> bytes \<Rightarrow> bytes crypto" where
  "EncryptWithHMAC H aes rnd plaintext key =
     (case splitHMACKey H key of
        Inl e \<Rightarrow> Some (Inl e)
      | Inr (hmacKey, encryptionKey) \<Rightarrow>
          map_option (map_sum id (\<lambda>ct. ct @ ComputeHMAC H hmacKey ct)) (implEncryptAES256CBC aes rnd encryptionKey plaintext))"

definition DecryptWithHMAC :: "hashfn \<Rightarrow> (bytes \<Rightarrow> cipher option) \<Rightarrow> bytes \<Rightarrow> bytes \<Rightarrow> bytes crypto" where
  "DecryptWithHMAC H aes data key =
     (if length data < SHA256Size then Some (Inl DataTooShort)
      else case splitHMACKey H key of
             Inl e \<Rightarrow> Some (Inl e)
           | Inr (hmacKey, encryptionKey) \<Rightarrow>
               (let macStart = length data - SHA256Size; ciphertext = take macStart data; messageMAC = drop macStart data in
                if \<not> ValidateHMAC H hmacKey ciphertext messageMAC then Some (Inl InvalidHMAC)
                else implDecryptAES256CBC aes encryptionKey ciphertext))"

section \<open>Retained ratchets\<close>

datatype ratchet_error = RatchetRand | RatchetPublicKey | RatchetMemory

text \<open>The oldest entry of the expiry map, strictly older than \<open>now\<close>; visited in the given order.\<close>

fun oldest_ratchet :: "(bytes, int) gomap \<Rightarrow> bytes list \<Rightarrow> int \<times> bytes \<Rightarrow> int \<times> bytes" where
  "oldest_ratchet m [] acc = acc"
| "oldest_ratchet m (k # ks) (t, b) =
     (case map_of m k of
        None \<Rightarrow> oldest_ratchet m ks (t, b)
      | Some e \<Rightarrow> if e < t then oldest_ratchet m ks (e, k) else oldest_ratchet m ks (t, b))"

text \<open>
  \<open>rnd\<close> is the result of reading 32 random bytes, \<open>mem\<close> tells whether the locked buffer could be
  made, \<open>now\<close> and \<open>now2\<close> are the two readings of the clock, \<open>order\<close> the order of the map iteration.
\<close>

definition RotateRatchet ::
  "hashfn \<Rightarrow> (bytes \<Rightarrow> bytes option) \<Rightarrow> bytes option \<Rightarrow> bool \<Rightarrow> int \<Rightarrow> int \<Rightarrow> bytes list \<Rightarrow> identity
     \<Rightarrow> identity \<times> (ratchet_error + bytes)" where
  "RotateRatchet H pubOf rnd mem now now2 order i =
     (case rnd of
        None \<Rightarrow> (i, Inl RatchetRand)
      | Some r \<Rightarrow>
          (let newRatchet = fixed (RatchetSize div 8) r in
           case pubOf newRatchet of
             None \<Rightarrow> (i, Inl RatchetPublicKey)
           | Some ratchetPub \<Rightarrow>
               if \<not> mem then (i, Inl RatchetMemory)
               else
                 (let ratchetID = GetRatchetID H ratchetPub;
                      expiry = now + RatchetExpiry;
                      i1 = i\<lparr> id_ratchets := go_put ratchetID newRatchet (id_ratchets i),
                              id_ratchetExpiry := go_put ratchetID expiry (id_ratchetExpiry i) \<rparr>;
                      i2 = (if length (id_ratchets i1) > MaxRetainedRatchets
                            then (let (_, oldestID) = oldest_ratchet (id_ratchetExpiry i1) order (now2, [])
                                  in i1\<lparr> id_ratchets := go_del oldestID (id_ratchets i1),
                                         id_ratchetExpiry := go_del oldestID (id_ratchetExpiry i1) \<rparr>)
                            else i1)
                  in (i2, Inr newRatchet))))"

text \<open>Deleting the expired entries; the keys of both maps are the ones of the expiry map.\<close>

fun drop_expired :: "int \<Rightarrow> bytes list \<Rightarrow> identity \<Rightarrow> identity" where
  "drop_expired now [] i = i"
| "drop_expired now (k # ks) i =
     (case map_of (id_ratchetExpiry i) k of
        None \<Rightarrow> drop_expired now ks i
      | Some e \<Rightarrow>
          if e > now then drop_expired now ks i
          else drop_expired now ks (i\<lparr> id_ratchets := go_del k (id_ratchets i), id_ratchetExpiry := go_del k (id_ratchetExpiry i) \<rparr>))"

definition GetRatchets :: "int \<Rightarrow> bytes list \<Rightarrow> identity \<Rightarrow> identity \<times> bytes list" where
  "GetRatchets now order i =
     (drop_expired now order i,
      List.map_filter (\<lambda>k. case map_of (id_ratchetExpiry i) k of
           None \<Rightarrow> None | Some e \<Rightarrow> if e > now then map_of (id_ratchets i) k else None) order)"

definition CleanupExpiredRatchets :: "int \<Rightarrow> bytes list \<Rightarrow> identity \<Rightarrow> identity" where
  "CleanupExpiredRatchets now order i = drop_expired now order i"

section \<open>Decryption recovers what was sealed\<close>

lemma identity_key_material:
  obtains key where "implDeriveIdentityKeyMaterial H secret salt ctx = Inr key" "length key = 64"
  using hkdf_Read_rfc [of 64 H secret salt ctx] that
  by (auto simp: implDeriveIdentityKeyMaterial_def crypto_consts)

lemma openWithKey_mac_open:
  assumes "aes (drop 32 key) = Some c" "length key = 64" "32 \<le> length b"
  shows "openWithKey H aes key (take (length b - 32) b) (drop (length b - 32) b) = mac_open (hmac256 H (take 32 key)) (cbc_open c) b"
  using assms by (auto simp: openWithKey_def mac_open_def ValidateHMAC_def ComputeHMAC_def implDecryptAES256CBC_def crypto_consts)

lemma aes_ok_32: "aes_ok aes \<Longrightarrow> length k = 32 \<Longrightarrow> \<exists>c. aes k = Some c \<and> block_ok c"
  by (simp add: aes_ok_def)

lemma identity_Encrypt_form:
  assumes "aes_ok aes" "dh eprv (if length ratchet > 0 then ratchet else id_publicKey i) = Some secret" "length iv = 16"
  obtains key c b where "implDeriveIdentityKeyMaterial H secret (GetSalt i) (GetContext i) = Inr key" "length key = 64"
    "aes (drop 32 key) = Some c" "block_ok c"
    "identity_Encrypt H aes dh (Some (eprv, epub)) (Some iv) i p ratchet = Some (Inr (epub @ b))"
    "mac_open (hmac256 H (take 32 key)) (cbc_open c) b = Some (Inr p)" "64 \<le> length b"
proof -
  obtain key where key: "implDeriveIdentityKeyMaterial H secret (GetSalt i) (GetContext i) = Inr key" "length key = 64"
    by (rule identity_key_material)
  have "length (drop 32 key) = 32" using key(2) by simp
  then obtain c where c: "aes (drop 32 key) = Some c" "block_ok c" using aes_ok_32 [OF assms(1)] by blast
  let ?mac = "hmac256 H (take 32 key)"
  define ct where "ct = encryptCBC_loop c iv (pkcs7_pad p)"
  have seal: "cbc_seal c (Some iv) p = Some (Inr (iv @ ct))" using assms(3) by (simp add: cbc_seal_Some [OF c(2)] ct_def)
  have len: "length ct = 16 * (length p div 16 + 1)"
    using length_encryptCBC [OF _ c(2) assms(3), of "pkcs7_pad p"] by (simp add: ct_def length_pkcs7_pad)
  have msl: "mac_seal ?mac (cbc_seal c (Some iv) p) = Some (Inr (iv @ ct @ ?mac (iv @ ct)))" by (simp add: seal mac_seal_def)
  from seal have "identity_Encrypt H aes dh (Some (eprv, epub)) (Some iv) i p ratchet = Some (Inr (epub @ iv @ ct @ ?mac (iv @ ct)))"
    using assms(2) key c(1) by (simp add: identity_Encrypt_def Let_def implEncryptAES256CBC_def crypto_consts ComputeHMAC_def)
  moreover have "mac_open ?mac (cbc_open c) (iv @ ct @ ?mac (iv @ ct)) = Some (Inr p)"
    using mac_cbc_iff [OF c(2), of ?mac] msl assms(3) by auto
  moreover have "64 \<le> length (iv @ ct @ ?mac (iv @ ct))" using len assms(3) by simp
  ultimately show ?thesis using that key c by blast
qed

lemma token_parts:
  assumes "length epub = 32" "32 \<le> length b"
  shows "take 32 (epub @ b) = epub" "take (length (epub @ b) - 64) (drop 32 (epub @ b)) = take (length b - 32) b"
    "drop (length (epub @ b) - 32) (epub @ b) = drop (length b - 32) b"
  using assms by simp_all


definition sample_identity :: identity where
  "sample_identity = \<lparr> id_privateKey = Some (replicate 32 3), id_publicKey = replicate 32 3, id_verificationKey = replicate 32 8,
     id_hash = Some (replicate 16 1), id_ratchets = [], id_ratchetExpiry = [] \<rparr>"


section \<open>Ratchet enforcement\<close>

lemma tryRatchets_found:
  "tryRatchets H aes dh pubOf i peer ct mac rs = Some (Some (p, rid)) \<Longrightarrow>
   \<exists>r \<in> set rs. tryRatchetDecryption H aes dh pubOf i peer ct mac r = Some (Inr (p, rid))"
  by (induction rs) (auto split: option.splits sum.splits)

text \<open>
  With ratchet enforcement the identity key never decrypts. A token decrypted under enforcement
  was opened by one of the given ratchets, whose id is the one reported; when none opens it
  the call fails and clears the reported ratchet id, even if the identity key would open it.
\<close>

theorem ratchet_enforcement:
  assumes "identity_Decrypt H aes dh pubOf admit i token ratchets True = (Some r, receiver)"
  shows "case r of
      Inr p \<Rightarrow> (\<exists>rid. receiver = Some (Some rid) \<and> (\<exists>ratchet \<in> set ratchets.
        tryRatchetDecryption H aes dh pubOf i (take 32 token) (take (length token - 64) (drop 32 token))
          (drop (length token - 32) token) ratchet = Some (Inr (p, rid))))
    | Inl e \<Rightarrow> (e = RatchetEnforced \<longrightarrow> receiver = Some None) \<and> (e \<noteq> RatchetEnforced \<longrightarrow> receiver = None)"
  using assms
  by (auto simp: identity_Decrypt_def Let_def dest: tryRatchets_found split: if_split_asm option.split_asm sum.splits)

theorem ratchet_enforcement_witness:
  "case Inl RatchetEnforced of
     Inr p \<Rightarrow> (\<exists>rid. Some None = Some (Some rid) \<and> (\<exists>ratchet \<in> set []. tryRatchetDecryption sample_hash sample_aes
        (\<lambda>a b. Some (xor_bytes a b)) Some sample_identity (take 32 (replicate 96 0)) (take (length (replicate 96 (0 :: byte)) - 64)
        (drop 32 (replicate 96 0))) (drop (length (replicate 96 (0 :: byte)) - 32) (replicate 96 0)) ratchet = Some (Inr (p, rid))))
   | Inl e \<Rightarrow> (e = RatchetEnforced \<longrightarrow> Some None = (Some None :: bytes option option))
        \<and> (e \<noteq> RatchetEnforced \<longrightarrow> Some None = (None :: bytes option option))"
  by (rule ratchet_enforcement [where admit = True])
    (simp add: identity_Decrypt_def sample_identity_def hasDecryptPrivate_def id_KeySize_def)

section \<open>Keyed encryption is a box\<close>

type_synonym hmac_key_args = "hashfn \<times> (bytes \<Rightarrow> cipher option) \<times> bytes"

fun hmac_key_ok :: "hmac_key_args \<Rightarrow> bool" where
  "hmac_key_ok (H, aes, key) \<longleftrightarrow> aes_ok aes \<and> (length key = 32 \<or> length key = 64)"

definition hmac_seal :: "hmac_key_args \<Rightarrow> bytes \<Rightarrow> bytes \<Rightarrow> bytes crypto" where
  "hmac_seal k iv p = (case k of (H, aes, key) \<Rightarrow> EncryptWithHMAC H aes (Some iv) p key)"

definition hmac_open :: "hmac_key_args \<Rightarrow> bytes \<Rightarrow> bytes crypto" where
  "hmac_open k t = (case k of (H, aes, key) \<Rightarrow> DecryptWithHMAC H aes t key)"

lemma splitHMACKey_ok:
  assumes "length key = 32 \<or> length key = 64"
  obtains hk ek where "splitHMACKey H key = Inr (hk, ek)" "length ek = 32"
proof (cases "length key = 64")
  case False
  then show ?thesis
    using assms that hkdf_Read_rfc [of 64 H key "replicate 32 0" encryptWithHMACInfo]
    by (auto simp: splitHMACKey_def implExpandEncryptWithHMACKeyMaterial_def crypto_consts)
qed (use that in \<open>simp add: splitHMACKey_def\<close>)

lemma hmac_forms:
  assumes "hmac_key_ok (H, aes, key)"
  obtains c hk where "block_ok c"
    "\<And>r p. EncryptWithHMAC H aes r p key = mac_seal (hmac256 H hk) (cbc_seal c r p)"
    "\<And>t. DecryptWithHMAC H aes t key = (if length t < 32 then Some (Inl DataTooShort) else mac_open (hmac256 H hk) (cbc_open c) t)"
proof -
  obtain hk ek where s: "splitHMACKey H key = Inr (hk, ek)" "length ek = 32"
    using splitHMACKey_ok assms by (metis hmac_key_ok.simps)
  obtain c where "aes ek = Some c" "block_ok c" using aes_ok_32 [OF _ s(2)] assms by auto
  then show ?thesis
    using s by (intro that [of c hk])
      (auto simp: EncryptWithHMAC_def DecryptWithHMAC_def implEncryptAES256CBC_def implDecryptAES256CBC_def crypto_consts
        mac_seal_def mac_open_def ComputeHMAC_def ValidateHMAC_def Let_def)
qed

interpretation hmac_box: sealed_box hmac_key_ok hmac_seal hmac_open
proof
  fix k iv p t
  assume ok: "hmac_key_ok k"
  obtain H aes key where k: "k = (H, aes, key)" by (metis prod_cases3)
  obtain c hk where c: "block_ok c"
    and forms: "\<And>r p. EncryptWithHMAC H aes r p key = mac_seal (hmac256 H hk) (cbc_seal c r p)"
      "\<And>t. DecryptWithHMAC H aes t key = (if length t < 32 then Some (Inl DataTooShort) else mac_open (hmac256 H hk) (cbc_open c) t)"
    using hmac_forms ok k by metis
  note f = k forms hmac_seal_def hmac_open_def
  have long: "32 \<le> length t" if "length iv = 16" "mac_seal (hmac256 H hk) (cbc_seal c (Some iv) p) = Some (Inr t)" for iv
    using mac_cbc_seal_length [OF c that(1) _ that(2)] by simp
  show "hmac_open k t = Some (Inr p) \<longleftrightarrow> (\<exists>iv. length iv = 16 \<and> hmac_seal k iv p = Some (Inr t))"
    using mac_cbc_iff [OF c, of "hmac256 H hk" t p] long by (auto simp: f not_le [symmetric])
  show "\<exists>t. hmac_seal k iv p = Some (Inr t)" if "length iv = 16"
    using mac_cbc_seal [OF c that, of "hmac256 H hk" p] by (auto simp: f)
  show "take 16 t = iv" if "length iv = 16" "hmac_seal k iv p = Some (Inr t)"
    using mac_cbc_seal_iv [OF c that(1), of "hmac256 H hk" p t] that(2) by (simp add: f)
qed

section \<open>Retention\<close>

definition ratchets_ok :: "identity \<Rightarrow> bool" where
  "ratchets_ok i \<longleftrightarrow> wf_map (id_ratchets i) \<and> wf_map (id_ratchetExpiry i)
     \<and> (\<forall>k. map_of (id_ratchets i) k = None \<longleftrightarrow> map_of (id_ratchetExpiry i) k = None)"

lemma drop_expired_get:
  "map_of (id_ratchetExpiry (drop_expired now ks i)) k =
     (if k \<in> set ks \<and> (case map_of (id_ratchetExpiry i) k of None \<Rightarrow> False | Some e \<Rightarrow> e \<le> now)
      then None else map_of (id_ratchetExpiry i) k)
   \<and> map_of (id_ratchets (drop_expired now ks i)) k =
     (if k \<in> set ks \<and> (case map_of (id_ratchetExpiry i) k of None \<Rightarrow> False | Some e \<Rightarrow> e \<le> now)
      then None else map_of (id_ratchets i) k)"
  by (induction now ks i rule: drop_expired.induct) (auto simp: map_simps split: option.splits if_splits)

lemma drop_expired_wf:
  "wf_map (id_ratchets i) \<Longrightarrow> wf_map (id_ratchets (drop_expired now ks i))"
  "wf_map (id_ratchetExpiry i) \<Longrightarrow> wf_map (id_ratchetExpiry (drop_expired now ks i))"
  by (induction now ks i rule: drop_expired.induct) (auto simp: map_simps split: option.splits)

lemma set_map_filter: "set (List.map_filter f xs) = {y. \<exists>x \<in> set xs. f x = Some y}"
  by (induction xs) (auto simp: List.map_filter_simps split: option.splits)

text \<open>
  Asking for the ratchets of an identity returns exactly the unexpired ones, in the order in
  which the map is visited, and forgets exactly the expired ones; the two maps keep the same keys.
\<close>

theorem GetRatchets_exact:
  assumes "ratchets_ok i" "range_order order (id_ratchetExpiry i)" "GetRatchets now order i = (i', out)"
  shows "ratchets_ok i'
    \<and> (\<forall>k. map_of (id_ratchets i') k =
         (case map_of (id_ratchetExpiry i) k of None \<Rightarrow> None | Some e \<Rightarrow> if now < e then map_of (id_ratchets i) k else None))
    \<and> set out = {r. \<exists>k e. map_of (id_ratchetExpiry i) k = Some e \<and> now < e \<and> map_of (id_ratchets i) k = Some r}
    \<and> i' = CleanupExpiredRatchets now order i"
proof -
  have keys: "k \<in> set order \<longleftrightarrow> map_of (id_ratchetExpiry i) k \<noteq> None" for k
    using assms(2) by (auto simp: range_order_def map_of_eq_None_iff)
  have same: "map_of (id_ratchets i) k = None \<longleftrightarrow> map_of (id_ratchetExpiry i) k = None" for k
    using assms(1) by (simp add: ratchets_ok_def)
  have i': "i' = drop_expired now order i"
    and out: "out = List.map_filter (\<lambda>k. case map_of (id_ratchetExpiry i) k of
        None \<Rightarrow> None | Some e \<Rightarrow> if e > now then map_of (id_ratchets i) k else None) order"
    using assms(3) by (auto simp: GetRatchets_def)
  have get: "map_of (id_ratchets i') k =
      (case map_of (id_ratchetExpiry i) k of None \<Rightarrow> None | Some e \<Rightarrow> if now < e then map_of (id_ratchets i) k else None)" for k
    using drop_expired_get [of now order i k] keys [of k] same [of k] unfolding i' by (auto split: option.splits)
  moreover have "ratchets_ok i'"
    unfolding ratchets_ok_def i'
  proof (intro conjI allI)
    show "wf_map (id_ratchets (drop_expired now order i))" "wf_map (id_ratchetExpiry (drop_expired now order i))"
      using drop_expired_wf assms(1) by (auto simp: ratchets_ok_def)
    show "map_of (id_ratchets (drop_expired now order i)) k = None \<longleftrightarrow> map_of (id_ratchetExpiry (drop_expired now order i)) k = None" for k
      using drop_expired_get [of now order i k] same [of k] by simp
  qed
  moreover have "set out = {r. \<exists>k e. map_of (id_ratchetExpiry i) k = Some e \<and> now < e \<and> map_of (id_ratchets i) k = Some r}"
  proof (rule set_eqI)
    fix r
    have "r \<in> set out \<longleftrightarrow> (\<exists>k. map_of (id_ratchetExpiry i) k \<noteq> None \<and> (case map_of (id_ratchetExpiry i) k of
        None \<Rightarrow> None | Some e \<Rightarrow> if e > now then map_of (id_ratchets i) k else None) = Some r)"
      by (simp only: out set_map_filter mem_Collect_eq Bex_def keys)
    also have "\<dots> \<longleftrightarrow> (\<exists>k e. map_of (id_ratchetExpiry i) k = Some e \<and> now < e \<and> map_of (id_ratchets i) k = Some r)"
      by (rule ex_cong1) (simp split: option.split)
    finally show "r \<in> set out \<longleftrightarrow> r \<in> {r. \<exists>k e. map_of (id_ratchetExpiry i) k = Some e \<and> now < e \<and> map_of (id_ratchets i) k = Some r}"
      by simp
  qed
  ultimately show ?thesis by (simp add: i' CleanupExpiredRatchets_def)
qed

theorem GetRatchets_exact_witness:
  "set (snd (GetRatchets 10 [[2], [1]] (sample_identity\<lparr> id_ratchets := [([1], [7]), ([2], [8])],
      id_ratchetExpiry := [([1], 11), ([2], 10)] \<rparr>))) = {[7]}"
proof -
  let ?i = "sample_identity\<lparr> id_ratchets := [([1], [7]), ([2], [8])], id_ratchetExpiry := [([1], 11), ([2], 10)] \<rparr>"
  have ok: "ratchets_ok ?i" "range_order [[2], [1]] (id_ratchetExpiry ?i)"
    by (simp_all add: ratchets_ok_def wf_map_def range_order_def insert_commute)
  have "set (snd (GetRatchets 10 [[2], [1]] ?i)) =
      {r. \<exists>k e. map_of (id_ratchetExpiry ?i) k = Some e \<and> 10 < e \<and> map_of (id_ratchets ?i) k = Some r}"
    using GetRatchets_exact [OF ok surjective_pairing, of 10] by blast
  also have "\<dots> = {[7]}"
  proof -
    have "(\<exists>k e. map_of (id_ratchetExpiry ?i) k = Some e \<and> 10 < e \<and> map_of (id_ratchets ?i) k = Some r) \<longleftrightarrow> r = [7]" for r
    proof
      assume "r = [7]"
      then show "\<exists>k e. map_of (id_ratchetExpiry ?i) k = Some e \<and> 10 < e \<and> map_of (id_ratchets ?i) k = Some r"
        by (intro exI [of _ "[1]"] exI [of _ 11]) simp
    qed (auto split: if_split_asm)
    then show ?thesis by simp
  qed
  finally show ?thesis .
qed

section \<open>The retention limit\<close>

lemma oldest_none:
  "(\<And>k e. map_of m k = Some e \<Longrightarrow> t \<le> e) \<Longrightarrow> oldest_ratchet m ks (t, b) = (t, b)"
  by (induction ks) (force split: option.splits)+

definition ratchet_id_of :: "hashfn \<Rightarrow> (bytes \<Rightarrow> bytes option) \<Rightarrow> bytes \<Rightarrow> bytes" where
  "ratchet_id_of H pubOf r = GetRatchetID H (the (pubOf (fixed 32 r)))"

lemma ratchet_id_not_Nil: "ratchet_id_of H pubOf r \<noteq> []"
  by (simp add: ratchet_id_of_def GetRatchetID_def identity_consts)

lemma Rotate_unexpired:
  assumes "\<And>k e. map_of (id_ratchetExpiry i) k = Some e \<Longrightarrow> now2 \<le> e" "now2 \<le> now + RatchetExpiry"
    and "map_of (id_ratchets i) [] = None" "map_of (id_ratchetExpiry i) [] = None" "pubOf (fixed 32 r) \<noteq> None"
  shows "fst (RotateRatchet H pubOf (Some r) True now now2 order i) =
    i\<lparr> id_ratchets := go_put (ratchet_id_of H pubOf r) (fixed 32 r) (id_ratchets i),
       id_ratchetExpiry := go_put (ratchet_id_of H pubOf r) (now + RatchetExpiry) (id_ratchetExpiry i) \<rparr>"
proof -
  let ?id = "ratchet_id_of H pubOf r"
  let ?m = "go_put ?id (now + RatchetExpiry) (id_ratchetExpiry i)"
  have "oldest_ratchet ?m order (now2, []) = (now2, [])"
    using assms(1,2) by (intro oldest_none) (auto simp: map_simps split: if_splits)
  moreover have "go_del [] (go_put ?id (fixed 32 r) (id_ratchets i)) = go_put ?id (fixed 32 r) (id_ratchets i)" "go_del [] ?m = ?m"
    using assms(3,4) ratchet_id_not_Nil [of H pubOf r] by (auto intro!: go_del_absent simp: map_simps)
  ultimately show ?thesis
    using assms(5) by (auto simp: RotateRatchet_def Let_def RatchetSize_def ratchet_id_of_def [symmetric])
      (simp_all add: ratchet_id_of_def)
qed

text \<open>Rotating repeatedly within one second, with any iteration order of the maps.\<close>

fun rotate_many :: "hashfn \<Rightarrow> (bytes \<Rightarrow> bytes option) \<Rightarrow> int \<Rightarrow> (identity \<Rightarrow> bytes list) \<Rightarrow> bytes list \<Rightarrow> identity \<Rightarrow> identity" where
  "rotate_many H pubOf now order [] i = i"
| "rotate_many H pubOf now order (r # rs) i =
     rotate_many H pubOf now order rs (fst (RotateRatchet H pubOf (Some r) True now now (order i) i))"

lemma rotate_many_length:
  assumes "\<And>k e. map_of (id_ratchetExpiry i) k = Some e \<Longrightarrow> now \<le> e"
    and "map_of (id_ratchets i) [] = None" "map_of (id_ratchetExpiry i) [] = None"
    and "\<forall>r \<in> set rs. pubOf (fixed 32 r) \<noteq> None" "distinct (map (ratchet_id_of H pubOf) rs)"
    and "\<forall>r \<in> set rs. map_of (id_ratchets i) (ratchet_id_of H pubOf r) = None"
  shows "length (id_ratchets (rotate_many H pubOf now order rs i)) = length (id_ratchets i) + length rs"
  using assms
proof (induction rs arbitrary: i)
  case (Cons r rs)
  let ?id = "ratchet_id_of H pubOf r"
  let ?i = "i\<lparr> id_ratchets := go_put ?id (fixed 32 r) (id_ratchets i),
               id_ratchetExpiry := go_put ?id (now + RatchetExpiry) (id_ratchetExpiry i) \<rparr>"
  have step: "fst (RotateRatchet H pubOf (Some r) True now now (order i) i) = ?i"
    using Cons.prems by (intro Rotate_unexpired) (auto simp: RatchetExpiry_def)
  have "length (id_ratchets (rotate_many H pubOf now order rs ?i)) = length (id_ratchets ?i) + length rs"
  proof (rule Cons.IH)
    show "now \<le> e" if "map_of (id_ratchetExpiry ?i) k = Some e" for k e
      using that Cons.prems(1) by (auto simp: map_simps RatchetExpiry_def split: if_splits)
    show "map_of (id_ratchets ?i) [] = None" "map_of (id_ratchetExpiry ?i) [] = None"
      using Cons.prems(2,3) ratchet_id_not_Nil [of H pubOf r] by (auto simp: map_simps)
    show "\<forall>r \<in> set rs. pubOf (fixed 32 r) \<noteq> None" "distinct (map (ratchet_id_of H pubOf) rs)" using Cons.prems by auto
    show "\<forall>r \<in> set rs. map_of (id_ratchets ?i) (ratchet_id_of H pubOf r) = None"
    proof
      fix r'
      assume "r' \<in> set rs"
      then have "ratchet_id_of H pubOf r' \<noteq> ?id" using Cons.prems(5) by (metis distinct.simps(2) image_eqI list.set_map list.simps(9))
      then show "map_of (id_ratchets ?i) (ratchet_id_of H pubOf r') = None"
        using Cons.prems(6) \<open>r' \<in> set rs\<close> by (simp add: map_simps)
    qed
  qed
  then show ?case using Cons.prems(6) by (simp add: step length_put)
qed simp


definition sample_ratchet :: "nat \<Rightarrow> bytes" where
  "sample_ratchet n = replicate 30 0 @ put_uint16 (of_nat n)"

lemma sample_ratchet_ids:
  assumes "n \<le> 65536"
  shows "distinct (map (\<lambda>r. GetRatchetID sample_hash (the (Some (fixed 32 r)))) (map sample_ratchet [0..<n]))"
proof -
  have id: "GetRatchetID sample_hash (the (Some (fixed 32 (sample_ratchet k)))) = rev (put_uint16 (of_nat k)) @ replicate 8 0" for k
  proof -
    have "length (sample_ratchet k) = 32" by (simp add: sample_ratchet_def)
    then have "sum256 sample_hash (fixed 32 (sample_ratchet k)) = rev (put_uint16 (of_nat k)) @ replicate 30 0"
      by (simp add: sum256_def sample_hash_def) (simp add: sample_ratchet_def)
    then show ?thesis by (simp add: GetRatchetID_def identity_consts)
  qed
  have "inj_on (\<lambda>k. put_uint16 (of_nat k)) {0..<n}"
  proof (rule inj_onI)
    fix k l :: nat
    assume kl: "k \<in> {0..<n}" "l \<in> {0..<n}" and "put_uint16 (of_nat k) = put_uint16 (of_nat l)"
    then have "(of_nat k :: u16) = of_nat l" by (metis uint16_of_put append_Nil2 option.inject)
    then have "unat (of_nat k :: u16) = unat (of_nat l :: u16)" by simp
    then show "k = l" using kl assms by (simp add: unat_of_nat)
  qed
  then show ?thesis
    unfolding map_map comp_def id distinct_map by (auto simp: inj_on_def)
qed


end
