(* ===== verification/Known_Destinations.thy ===== *)
theory Known_Destinations
  imports Hashing Go_Map
begin

text \<open>
  The table of known destinations of \<open>pkg/identity\<close>: \<open>rememberKnown\<close>, \<open>Recall\<close> and the eviction of
  \<open>identity.go\<close>, the usage metadata and the background cleaning of \<open>known_clean.go\<close>, and the announced
  ratchets of \<open>known_ratchets.go\<close> (its in-memory part; ratchet files are not modelled, so the model is
  the one of the memory-only mode). An identity in the table is its pair of public keys. Times are
  Unix seconds unless named otherwise; \<open>now\<close> is the reading of the clock.
\<close>

definition kd_UnusedDestinationLinger :: int where "kd_UnusedDestinationLinger = 6 * 60 * 1000000000"
definition kd_DestinationTimeout :: int where "kd_DestinationTimeout = 7 * 24 * 3600 * 1000000000"
definition MaxKnownRatchets :: nat where "MaxKnownRatchets = 2048"
definition kd_RatchetExpiry :: int where "kd_RatchetExpiry = 2592000"

type_synonym dest_key = bytes
type_synonym public_identity = "bytes \<times> bytes"

definition knownDestKey :: "bytes \<Rightarrow> dest_key" where
  "knownDestKey destHash = fixed 16 destHash"

record knownDestEntry =
  k_pkt :: bytes
  k_hash :: bytes
  k_id :: "public_identity option"
  k_app :: bytes

record knownDestMeta =
  m_rememberedAt :: int
  m_lastUsed :: int

record knownRatchetEntry =
  r_key :: bytes
  r_received :: int

record known =
  kd_dests :: "(dest_key, knownDestEntry) gomap"
  kd_meta :: "(dest_key, knownDestMeta) gomap"
  kd_maxEntries :: int
  kd_ratchets :: "(dest_key, knownRatchetEntry) gomap"

definition publicKeyEqual :: "public_identity option \<Rightarrow> bytes \<Rightarrow> bool" where
  "publicKeyEqual i publicKey =
     (case i of
        None \<Rightarrow> False
      | Some (pub, ver) \<Rightarrow> length publicKey = 64 \<and> pub = take 32 publicKey \<and> ver = drop 32 publicKey)"

definition FromPublicKey :: "bytes \<Rightarrow> public_identity option" where
  "FromPublicKey publicKey =
     (if length publicKey \<noteq> 64 then None else Some (take 32 publicKey, drop 32 publicKey))"

text \<open>Reading a missing metadata entry yields the zero value.\<close>

definition meta_of :: "known \<Rightarrow> dest_key \<Rightarrow> knownDestMeta" where
  "meta_of s key = (case map_of (kd_meta s) key of None \<Rightarrow> \<lparr> m_rememberedAt = 0, m_lastUsed = 0 \<rparr> | Some m \<Rightarrow> m)"

definition setKnownDestMetaLocked :: "int \<Rightarrow> dest_key \<Rightarrow> int \<Rightarrow> int \<Rightarrow> known \<Rightarrow> known" where
  "setKnownDestMetaLocked now key rememberedAt lastUsed s =
     s\<lparr> kd_meta := go_put key \<lparr> m_rememberedAt = (if rememberedAt \<le> 0 then now else rememberedAt), m_lastUsed = lastUsed \<rparr>
          (kd_meta s) \<rparr>"

definition SetKnownDestinationsMaxEntries :: "int \<Rightarrow> known \<Rightarrow> known" where
  "SetKnownDestinationsMaxEntries maxEntries s = s\<lparr> kd_maxEntries := (if maxEntries < 0 then 0 else maxEntries) \<rparr>"

text \<open>Entries and metadata are deleted together, in the order of the iteration.\<close>

definition evictKnownDestinationsIfNeededLocked :: "(dest_key \<Rightarrow> nat) \<Rightarrow> known \<Rightarrow> known" where
  "evictKnownDestinationsIfNeededLocked rank s =
     (if kd_maxEntries s \<le> 0 \<or> int (length (kd_dests s)) \<le> kd_maxEntries s then s
      else
        (let excess = length (kd_dests s) - nat (kd_maxEntries s);
             victims = take excess (range_keys rank (kd_dests s))
         in s\<lparr> kd_dests := fold go_del victims (kd_dests s), kd_meta := fold go_del victims (kd_meta s) \<rparr>))"

definition rememberKnown ::
  "int \<Rightarrow> (dest_key \<Rightarrow> nat) \<Rightarrow> bytes \<Rightarrow> bytes \<Rightarrow> bytes \<Rightarrow> bytes \<Rightarrow> public_identity option \<Rightarrow> known \<Rightarrow> known \<times> bool" where
  "rememberKnown now rank packet destHash publicKey appData given s =
     (let key = knownDestKey destHash;
          touched = (\<lambda>s. s\<lparr> kd_meta := go_put key ((meta_of s key)\<lparr> m_rememberedAt := now \<rparr>) (kd_meta s) \<rparr>);
          fresh =
            (let id' = (if given = None \<or> \<not> publicKeyEqual given publicKey then FromPublicKey publicKey else given);
                 s1 = s\<lparr> kd_dests := go_put key \<lparr> k_pkt = packet, k_hash = destHash, k_id = id', k_app = appData \<rparr> (kd_dests s) \<rparr>;
                 lastUsed = (if m_lastUsed (meta_of s1 key) < 0 then - 1 else 0);
                 s2 = setKnownDestMetaLocked now key now lastUsed s1
             in (evictKnownDestinationsIfNeededLocked rank s2, True))
      in case map_of (kd_dests s) key of
           None \<Rightarrow> fresh
         | Some existing \<Rightarrow>
             (case k_id existing of
                None \<Rightarrow> fresh
              | Some _ \<Rightarrow>
                  if \<not> publicKeyEqual (k_id existing) publicKey then (s, False)
                  else if k_pkt existing = packet \<and> k_app existing = appData then (touched s, True)
                  else (touched (s\<lparr> kd_dests := go_put key (existing\<lparr> k_pkt := packet, k_app := appData \<rparr>) (kd_dests s) \<rparr>), True)))"

definition KnownIdentityMatching :: "known \<Rightarrow> bytes \<Rightarrow> bytes \<Rightarrow> public_identity option" where
  "KnownIdentityMatching s destHash publicKey =
     (case map_of (kd_dests s) (knownDestKey destHash) of
        None \<Rightarrow> None
      | Some e \<Rightarrow> if k_id e = None \<or> \<not> publicKeyEqual (k_id e) publicKey then None else k_id e)"

definition TouchKnownDestination :: "int \<Rightarrow> bytes \<Rightarrow> known \<Rightarrow> known" where
  "TouchKnownDestination now destHash s =
     (if length destHash = 0 then s
      else
        (let key = knownDestKey destHash in
         case map_of (kd_meta s) key of
           None \<Rightarrow>
             (if map_of (kd_dests s) key = None then s
              else s\<lparr> kd_meta := go_put key \<lparr> m_rememberedAt = now, m_lastUsed = now \<rparr> (kd_meta s) \<rparr>)
         | Some m \<Rightarrow>
             if m_lastUsed m < 0 then s
             else s\<lparr> kd_meta := go_put key (m\<lparr> m_lastUsed := now \<rparr>) (kd_meta s) \<rparr>))"

definition Recall :: "int \<Rightarrow> bytes \<Rightarrow> known \<Rightarrow> known \<times> public_identity option" where
  "Recall now hash s =
     (case map_of (kd_dests s) (knownDestKey hash) of
        None \<Rightarrow> (s, None)
      | Some e \<Rightarrow> (case k_id e of None \<Rightarrow> (s, None) | Some i \<Rightarrow> (TouchKnownDestination now hash s, Some i)))"

definition RetainKnownDestination :: "int \<Rightarrow> bytes \<Rightarrow> known \<Rightarrow> known" where
  "RetainKnownDestination now destHash s =
     (if length destHash = 0 then s
      else
        (let key = knownDestKey destHash in
         if map_of (kd_dests s) key = None then s
         else
           (let m = meta_of s key; m1 = (if m_rememberedAt m = 0 then m\<lparr> m_rememberedAt := now \<rparr> else m)
            in s\<lparr> kd_meta := go_put key (m1\<lparr> m_lastUsed := - 1 \<rparr>) (kd_meta s) \<rparr>)))"

section \<open>Cleaning\<close>

text \<open>
  The age test, on nanoseconds \<open>nowNs\<close>; \<open>nowNs div 1000000000\<close> is \<open>now.Unix()\<close>. The scan collects the keys
  whose test holds, treating missing metadata as fresh; the sweep tests each again under the
  lock before it deletes. Between the two, other operations may run.
\<close>

definition aged_out :: "int \<Rightarrow> knownDestMeta \<Rightarrow> bool" where
  "aged_out nowNs m \<longleftrightarrow>
     (if m_lastUsed m = 0 then nowNs - m_rememberedAt m * 1000000000 > kd_UnusedDestinationLinger
      else nowNs div 1000000000 - m_lastUsed m > kd_DestinationTimeout * 5 div 4 div 1000000000)"

definition scan_stale :: "(bytes \<Rightarrow> bool) \<Rightarrow> int \<Rightarrow> (dest_key \<Rightarrow> nat) \<Rightarrow> known \<Rightarrow> dest_key list" where
  "scan_stale hasPath nowNs rank s =
     filter (\<lambda>key.
       (let m = (case map_of (kd_meta s) key of
                   None \<Rightarrow> \<lparr> m_rememberedAt = nowNs div 1000000000, m_lastUsed = 0 \<rparr> | Some m \<Rightarrow> m)
        in \<not> m_lastUsed m < 0 \<and> \<not> hasPath key \<and> aged_out nowNs m))
       (range_keys rank (kd_dests s))"

definition stillStaleForCleanLocked :: "known \<Rightarrow> dest_key \<Rightarrow> (bytes \<Rightarrow> bool) \<Rightarrow> int \<Rightarrow> bool" where
  "stillStaleForCleanLocked s key hasPath nowNs =
     (if map_of (kd_dests s) key = None then False
      else case map_of (kd_meta s) key of
             None \<Rightarrow> False
           | Some m \<Rightarrow> if m_lastUsed m < 0 then False else if hasPath key then False else aged_out nowNs m)"

fun sweep_stale :: "(bytes \<Rightarrow> bool) \<Rightarrow> int \<Rightarrow> dest_key list \<Rightarrow> known \<Rightarrow> known" where
  "sweep_stale hasPath nowNs [] s = s"
| "sweep_stale hasPath nowNs (key # stale) s =
     (if \<not> stillStaleForCleanLocked s key hasPath nowNs then sweep_stale hasPath nowNs stale s
      else sweep_stale hasPath nowNs stale
             (s\<lparr> kd_dests := go_del key (kd_dests s), kd_meta := go_del key (kd_meta s) \<rparr>))"

definition CleanKnownRatchets :: "int \<Rightarrow> known \<Rightarrow> known" where
  "CleanKnownRatchets now s =
     s\<lparr> kd_ratchets := filter (\<lambda>(_, e). \<not> now \<ge> r_received e + kd_RatchetExpiry) (kd_ratchets s) \<rparr>"

text \<open>A cleaning pass, with \<open>between\<close> for what other threads do between scan and sweep.\<close>

definition CleanKnownDestinations ::
  "(bytes \<Rightarrow> bool) \<Rightarrow> int \<Rightarrow> int \<Rightarrow> (dest_key \<Rightarrow> nat) \<Rightarrow> (known \<Rightarrow> known) \<Rightarrow> known \<Rightarrow> known" where
  "CleanKnownDestinations hasPath nowNs later rank between s =
     (let stale = scan_stale hasPath nowNs rank s; s1 = between s in
      if stale = [] then CleanKnownRatchets later s1
      else CleanKnownRatchets later (sweep_stale hasPath nowNs stale s1))"

section \<open>Announced ratchets\<close>

definition RememberRatchet :: "int \<Rightarrow> (dest_key \<Rightarrow> nat) \<Rightarrow> bytes \<Rightarrow> bytes \<Rightarrow> known \<Rightarrow> known" where
  "RememberRatchet now rank destHash ratchet s =
     (if length destHash = 0 \<or> length ratchet \<noteq> 32 then s
      else
        (let key = knownDestKey destHash in
         if map_option r_key (map_of (kd_ratchets s) key) = Some ratchet then s
         else s\<lparr> kd_ratchets := evict_to rank MaxKnownRatchets (Some key)
                  (go_put key \<lparr> r_key = ratchet, r_received = now \<rparr> (kd_ratchets s)) \<rparr>))"

text \<open>\<open>CopyRatchet\<close> into a buffer of 32 bytes; the empty result is the return value 0.\<close>

definition CopyRatchet :: "int \<Rightarrow> bytes \<Rightarrow> known \<Rightarrow> known \<times> bytes" where
  "CopyRatchet now destHash s =
     (if length destHash = 0 then (s, [])
      else
        (let key = knownDestKey destHash in
         case map_of (kd_ratchets s) key of
           None \<Rightarrow> (s, [])
         | Some e \<Rightarrow>
             if now < r_received e + kd_RatchetExpiry \<and> length (r_key e) = 32 then (s, r_key e)
             else (s\<lparr> kd_ratchets := go_del key (kd_ratchets s) \<rparr>, [])))"

definition CurrentRatchetID :: "hashfn \<Rightarrow> int \<Rightarrow> bytes \<Rightarrow> known \<Rightarrow> known \<times> bytes option" where
  "CurrentRatchetID H now destHash s =
     (let (s', ratchet) = CopyRatchet now destHash s
      in (s', if length ratchet = 0 then None else Some (take 10 (sum256 H ratchet))))"

section \<open>A known key is pinned\<close>

inductive known_step :: "known \<Rightarrow> known \<Rightarrow> bool" where
  remember: "known_step s (fst (rememberKnown now rank packet destHash publicKey appData given s))"
| recall: "known_step s (fst (Recall now destHash s))"
| touch: "known_step s (TouchKnownDestination now destHash s)"
| retain: "known_step s (RetainKnownDestination now destHash s)"
| sweep: "known_step s (sweep_stale hasPath nowNs stale s)"
| limit: "known_step s (SetKnownDestinationsMaxEntries n s)"
| clean_ratchets: "known_step s (CleanKnownRatchets now s)"
| remember_ratchet: "known_step s (RememberRatchet now rank destHash ratchet s)"
| copy_ratchet: "known_step s (fst (CopyRatchet now destHash s))"

definition pins :: "known \<Rightarrow> known \<Rightarrow> bool" where
  "pins s s' \<longleftrightarrow> (\<forall>k e e' i. map_of (kd_dests s) k = Some e \<longrightarrow> k_id e = Some i \<longrightarrow> map_of (kd_dests s') k = Some e' \<longrightarrow> k_id e' = Some i)"

lemma pinsI:
  assumes "\<And>k. map_of (kd_dests s') k = map_of (kd_dests s) k \<or> map_of (kd_dests s') k = None"
  shows "pins s s'"
  unfolding pins_def
proof (intro allI impI)
  fix k e e' i
  assume "map_of (kd_dests s) k = Some e" "k_id e = Some i" "map_of (kd_dests s') k = Some e'"
  then show "k_id e' = Some i" using assms [of k] by auto
qed

lemma fold_del_get: "map_of (fold go_del ks m) k = (if k \<in> set ks then None else map_of m k)"
  by (induction ks arbitrary: m) (auto simp: map_simps)

lemma fold_del_wf: "wf_map m \<Longrightarrow> wf_map (fold go_del ks m)"
  by (induction ks arbitrary: m) (auto simp: map_simps)

lemma evict_get:
  "map_of (kd_dests (evictKnownDestinationsIfNeededLocked rank s)) k = map_of (kd_dests s) k
   \<or> map_of (kd_dests (evictKnownDestinationsIfNeededLocked rank s)) k = None"
  by (simp add: evictKnownDestinationsIfNeededLocked_def Let_def fold_del_get)

lemma publicKeyEqual_iff: "publicKeyEqual (Some i) pk \<longleftrightarrow> length pk = 64 \<and> i = (take 32 pk, drop 32 pk)"
  by (cases i) (auto simp: publicKeyEqual_def)

text \<open>The three outcomes of \<open>rememberKnown\<close>: refused, refreshed, or inserted with possible eviction.\<close>

definition inserted :: "int \<Rightarrow> dest_key \<Rightarrow> knownDestEntry \<Rightarrow> known \<Rightarrow> known" where
  "inserted now key e s =
     setKnownDestMetaLocked now key now (if m_lastUsed (meta_of s key) < 0 then - 1 else 0) (s\<lparr> kd_dests := go_put key e (kd_dests s) \<rparr>)"

lemma dests_inserted [simp]: "kd_dests (inserted now key e s) = go_put key e (kd_dests s)"
  by (simp add: inserted_def setKnownDestMetaLocked_def)

lemma rememberKnown_cases:
  fixes s destHash
  defines "old \<equiv> map_of (kd_dests s) (knownDestKey destHash)"
  assumes "rememberKnown now rank packet destHash publicKey appData given s = (s', b)"
  obtains (refused) e i where "old = Some e" "k_id e = Some i" "\<not> publicKeyEqual (Some i) publicKey" "s' = s" "\<not> b"
  | (refreshed) e i e' where "old = Some e" "k_id e = Some i" "publicKeyEqual (Some i) publicKey" "b"
      "k_id e' = Some i" "k_pkt e' = packet" "k_app e' = appData"
      "kd_dests s' = go_put (knownDestKey destHash) e' (kd_dests s) \<or> kd_dests s' = kd_dests s \<and> e' = e"
  | (fresh) e' where "old = None \<or> (\<exists>e. old = Some e \<and> k_id e = None)" "b"
      "k_id e' = FromPublicKey publicKey"
      "s' = evictKnownDestinationsIfNeededLocked rank (inserted now (knownDestKey destHash) e' s)"
proof -
  define key where "key = knownDestKey destHash"
  have given: "(if given = None \<or> \<not> publicKeyEqual given publicKey then FromPublicKey publicKey else given) = FromPublicKey publicKey"
    by (cases given) (auto simp: publicKeyEqual_iff FromPublicKey_def)
  note def = assms(2) [unfolded rememberKnown_def Let_def given, folded key_def]
  define e' where "e' = \<lparr> k_pkt = packet, k_hash = destHash, k_id = FromPublicKey publicKey, k_app = appData \<rparr>"
  have fr: "s' = evictKnownDestinationsIfNeededLocked rank (inserted now key e' s)" "b"
    if "old = None \<or> (\<exists>e. old = Some e \<and> k_id e = None)"
    using def that by (auto simp: old_def key_def inserted_def e'_def meta_of_def)
  show ?thesis
  proof (cases old)
    case None
    then show ?thesis using fr fresh [of e'] by (simp add: e'_def key_def)
  next
    case (Some e)
    show ?thesis
    proof (cases "k_id e")
      case None
      then show ?thesis using fr Some fresh [of e'] by (simp add: e'_def key_def)
    next
      case (Some i)
      note known = \<open>old = Some e\<close> [unfolded old_def, folded key_def] Some
      note body = def [unfolded known option.case]
      show ?thesis
      proof (cases "publicKeyEqual (Some i) publicKey")
        case False
        then have "s' = s" "\<not> b" using body by simp_all
        then show ?thesis using refused [OF \<open>old = Some e\<close> Some False] by blast
      next
        case True
        note keep = refreshed [OF \<open>old = Some e\<close> Some True]
        show ?thesis
        proof (cases "k_pkt e = packet \<and> k_app e = appData")
          case same: True
          then have "b" "kd_dests s' = kd_dests s" using body True by auto
          then show ?thesis using keep [of e] Some same by simp
        next
          case differs: False
          then have "b" "kd_dests s' = go_put key (e\<lparr> k_pkt := packet, k_app := appData \<rparr>) (kd_dests s)" using body True by auto
          then show ?thesis using keep [of "e\<lparr> k_pkt := packet, k_app := appData \<rparr>"] Some by (simp add: key_def)
        qed
      qed
    qed
  qed
qed

lemma remember_pins: "pins s (fst (rememberKnown now rank packet destHash publicKey appData given s))"
proof -
  obtain s' b where r: "rememberKnown now rank packet destHash publicKey appData given s = (s', b)" by fastforce
  show ?thesis
    using r
  proof (cases rule: rememberKnown_cases)
    case refused
    then show ?thesis using r by (simp add: pins_def)
  next
    case (refreshed e i e')
    then show ?thesis using r unfolding pins_def by (auto simp: map_simps split: if_split_asm)
  next
    case (fresh e')
    show ?thesis
      unfolding pins_def r fst_conv
    proof (intro allI impI)
      fix k e f i
      assume k: "map_of (kd_dests s) k = Some e" "k_id e = Some i" "map_of (kd_dests s') k = Some f"
      then have "k \<noteq> knownDestKey destHash" using fresh(1) by auto
      then show "k_id f = Some i"
        using k evict_get [of rank "inserted now (knownDestKey destHash) e' s" k] fresh(4) by (auto simp: map_simps)
    qed
  qed
qed

lemma sweep_get:
  "map_of (kd_dests (sweep_stale hasPath nowNs stale s)) k =
     (if k \<in> set stale \<and> stillStaleForCleanLocked s k hasPath nowNs then None else map_of (kd_dests s) k)
   \<and> map_of (kd_meta (sweep_stale hasPath nowNs stale s)) k =
     (if k \<in> set stale \<and> stillStaleForCleanLocked s k hasPath nowNs then None else map_of (kd_meta s) k)"
  by (induction hasPath nowNs stale s rule: sweep_stale.induct)
    (auto simp: map_simps stillStaleForCleanLocked_def split: option.splits if_splits)

lemma touch_dests [simp]: "kd_dests (TouchKnownDestination now h s) = kd_dests s"
  by (simp add: TouchKnownDestination_def Let_def split: option.split)

lemma known_step_pins: "known_step s s' \<Longrightarrow> pins s s'"
proof (induction rule: known_step.induct)
  case (recall s now destHash)
  then show ?case by (intro pinsI) (simp add: Recall_def split: option.split)
next
  case (sweep s hasPath nowNs stale)
  then show ?case by (intro pinsI) (simp add: sweep_get)
qed (auto intro!: remember_pins pinsI simp: RetainKnownDestination_def SetKnownDestinationsMaxEntries_def
      CleanKnownRatchets_def RememberRatchet_def CopyRatchet_def Let_def split: option.split)


definition sample_known :: known where
  "sample_known = \<lparr> kd_dests = [(replicate 16 1, \<lparr> k_pkt = [], k_hash = replicate 16 1, k_id = Some ([1], [2]), k_app = [] \<rparr>)],
     kd_meta = [(replicate 16 1, \<lparr> m_rememberedAt = 5, m_lastUsed = 0 \<rparr>)], kd_maxEntries = 0, kd_ratchets = [] \<rparr>"


section \<open>Cleaning\<close>

text \<open>
  A cleaning pass removes a destination only if it is stale when it is deleted. Whatever other
  threads did after the scan, the pass keeps every entry and its metadata that is then retained,
  reachable, without metadata or young enough, and removes exactly those scanned entries that
  still fail all four tests; entries that were not in the scan are never touched.
\<close>

theorem cleaning_revalidates:
  fixes s between rank nowNs hasPath later
  defines "stale \<equiv> scan_stale hasPath nowNs rank s" and "s1 \<equiv> between s"
    and "s2 \<equiv> CleanKnownDestinations hasPath nowNs later rank between s"
  shows "map_of (kd_dests s2) k =
      (if k \<in> set stale \<and> map_of (kd_dests s1) k \<noteq> None
          \<and> (\<exists>m. map_of (kd_meta s1) k = Some m \<and> 0 \<le> m_lastUsed m \<and> aged_out nowNs m) \<and> \<not> hasPath k
       then None else map_of (kd_dests s1) k)
    \<and> (map_of (kd_dests s2) k \<noteq> None \<longrightarrow> map_of (kd_meta s2) k = map_of (kd_meta s1) k)"
proof -
  have "kd_dests s2 = kd_dests (sweep_stale hasPath nowNs stale s1)" "kd_meta s2 = kd_meta (sweep_stale hasPath nowNs stale s1)"
    by (simp_all add: s2_def CleanKnownDestinations_def Let_def CleanKnownRatchets_def stale_def s1_def)
  then show ?thesis
    using sweep_get [of hasPath nowNs stale s1 k]
    by (auto simp: stillStaleForCleanLocked_def split: option.splits if_splits)
qed

theorem cleaning_revalidates_witness:
  "map_of (kd_dests (CleanKnownDestinations (\<lambda>_. False) 1000000000000 1000 (\<lambda>_. 0) (RetainKnownDestination 900 (replicate 16 1)) sample_known))
     (replicate 16 1) \<noteq> None
   \<and> map_of (kd_dests (CleanKnownDestinations (\<lambda>_. False) 1000000000000 1000 (\<lambda>_. 0) (\<lambda>s. s) sample_known)) (replicate 16 1) = None"
proof -
  have scan: "replicate 16 1 \<in> set (scan_stale (\<lambda>_. False) 1000000000000 (\<lambda>_. 0) sample_known)"
    by (simp add: scan_stale_def sample_known_def range_keys_def go_keys_def aged_out_def kd_UnusedDestinationLinger_def)
  have retained: "map_of (kd_meta (RetainKnownDestination 900 (replicate 16 1) sample_known)) (replicate 16 1) = Some \<lparr> m_rememberedAt = 5, m_lastUsed = - 1 \<rparr>"
    "map_of (kd_dests (RetainKnownDestination 900 (replicate 16 1) sample_known)) (replicate 16 1) \<noteq> None"
    by (simp_all add: RetainKnownDestination_def sample_known_def knownDestKey_def meta_of_def Let_def map_simps)
  show ?thesis
    using cleaning_revalidates [of "\<lambda>_. False" 1000000000000 1000 "\<lambda>_. 0" "RetainKnownDestination 900 (replicate 16 1)" sample_known "replicate 16 1"]
      cleaning_revalidates [of "\<lambda>_. False" 1000000000000 1000 "\<lambda>_. 0" "\<lambda>s. s" sample_known "replicate 16 1"] scan retained
    by (simp add: sample_known_def aged_out_def kd_UnusedDestinationLinger_def)
qed

section \<open>Announced ratchets are a bounded table\<close>

definition ratchet_insert :: "(dest_key \<Rightarrow> nat) \<Rightarrow> dest_key \<Rightarrow> knownRatchetEntry \<Rightarrow> (dest_key, knownRatchetEntry) gomap
    \<Rightarrow> (dest_key, knownRatchetEntry) gomap" where
  "ratchet_insert rank key e m = evict_to rank MaxKnownRatchets (Some key) (go_put key e m)"

interpretation ratchet_table: bounded_table ratchet_insert MaxKnownRatchets
proof
  fix m :: "(dest_key, knownRatchetEntry) gomap" and rank k k' v
  assume wf: "wf_map m"
  show "wf_map (ratchet_insert rank k v m)" using wf by (simp add: ratchet_insert_def map_simps)
  show "map_of (ratchet_insert rank k v m) k = Some v" by (simp add: ratchet_insert_def map_simps)
  show "length (ratchet_insert rank k v m) \<le> MaxKnownRatchets"
    using evict_to_length [of "go_put k v m" "Some k" MaxKnownRatchets rank] wf
    by (simp add: ratchet_insert_def map_simps MaxKnownRatchets_def)
  show "map_of (ratchet_insert rank k v m) k' = map_of m k' \<or> map_of (ratchet_insert rank k v m) k' = None" if "k' \<noteq> k"
    using evict_to_get [of rank MaxKnownRatchets "Some k" "go_put k v m" k'] that by (simp add: ratchet_insert_def map_simps)
qed

lemma RememberRatchet_insert:
  "length h \<noteq> 0 \<Longrightarrow> length r = 32 \<Longrightarrow> kd_ratchets (RememberRatchet now rank h r s) =
     (if map_option r_key (map_of (kd_ratchets s) (knownDestKey h)) = Some r then kd_ratchets s
      else ratchet_insert rank (knownDestKey h) \<lparr> r_key = r, r_received = now \<rparr> (kd_ratchets s))"
  by (auto simp: RememberRatchet_def Let_def ratchet_insert_def)

text \<open>
  An announced ratchet is available at once and until it expires, and the table stays bounded.
  Storing a ratchet keeps at most 2048 of them, never evicts the one just stored, and
  changes the ratchet of no other destination except by evicting it; a new ratchet can be read back for thirty days.
\<close>

theorem announced_ratchets:
  assumes "wf_map (kd_ratchets s)" "length (kd_ratchets s) \<le> MaxKnownRatchets" "destHash \<noteq> []" "length ratchet = 32"
    and "map_option r_key (map_of (kd_ratchets s) (knownDestKey destHash)) \<noteq> Some ratchet" "now' < now + kd_RatchetExpiry"
  shows "wf_map (kd_ratchets (RememberRatchet now rank destHash ratchet s))
    \<and> length (kd_ratchets (RememberRatchet now rank destHash ratchet s)) \<le> 2048
    \<and> CopyRatchet now' destHash (RememberRatchet now rank destHash ratchet s) = (RememberRatchet now rank destHash ratchet s, ratchet)
    \<and> (k \<noteq> knownDestKey destHash \<longrightarrow>
         map_of (kd_ratchets (RememberRatchet now rank destHash ratchet s)) k \<in> {map_of (kd_ratchets s) k, None})"
proof -
  let ?key = "knownDestKey destHash" and ?v = "\<lparr> r_key = ratchet, r_received = now \<rparr>"
  have ins: "kd_ratchets (RememberRatchet now rank destHash ratchet s) = ratchet_insert rank ?key ?v (kd_ratchets s)"
    using RememberRatchet_insert [of destHash ratchet now rank s] assms(3-5) by (simp del: map_option_eq_Some)
  show ?thesis
    using ratchet_table.insert_wf [OF assms(1), of rank ?key ?v] ratchet_table.insert_bound [OF assms(1,2), of rank ?key ?v]
      ratchet_table.insert_found [OF assms(1,2), of rank ?key ?v] ratchet_table.insert_other [OF assms(1), of k ?key rank ?v] assms
    by (auto simp: ins CopyRatchet_def Let_def MaxKnownRatchets_def)
qed

theorem announced_ratchets_witness:
  "CopyRatchet 100 [1] (RememberRatchet 50 (\<lambda>_. 0) [1] (replicate 32 9) sample_known)
     = (RememberRatchet 50 (\<lambda>_. 0) [1] (replicate 32 9) sample_known, replicate 32 9)"
  using announced_ratchets [of sample_known "[1]" "replicate 32 9" 100 50 "\<lambda>_. 0" "[]"]
  by (simp add: sample_known_def kd_RatchetExpiry_def)


end
