(* ===== verification/Relay_Tables.thy ===== *)
theory Relay_Tables
  imports Wire_Rewrite Go_Map
begin

text \<open>
  The two tables a transport node keeps of the traffic it relays: the link relay table of
  \<open>pkg/transport/relay.go\<close> (\<open>linkRelayTable\<close>) and the reverse table of \<open>pkg/transport/reverse.go\<close>
  (\<open>reverseTable\<close>). Both are Go maps under a mutex, so every method is one atomic function of the
  map. Their callers only store entries they just made, so no entry is nil. Interfaces are numbers,
  with \<open>None\<close> for a nil interface; times are nanoseconds, and \<open>now\<close> is the reading of the clock.
\<close>

type_synonym iface = nat

section \<open>The link relay table\<close>

record LinkRelayEntry =
  lr_NextHop :: bytes
  lr_NextHopIface :: "iface option"
  lr_ReceivedIface :: "iface option"
  lr_RemainingHops :: int
  lr_TakenHops :: int
  lr_DestinationHash :: bytes
  lr_Validated :: bool
  lr_ProofTimeout :: int
  lr_Timestamp :: int
  lr_OriginalLinkID :: bytes

type_synonym linkRelayTable = "(hash16, LinkRelayEntry) gomap"

definition maxLinkRelayEntries :: nat where "maxLinkRelayEntries = 8192"

definition lt_put :: "(hash16 \<Rightarrow> nat) \<Rightarrow> bytes \<Rightarrow> LinkRelayEntry \<Rightarrow> linkRelayTable \<Rightarrow> linkRelayTable" where
  "lt_put rank linkID entry lt =
     (if length lt \<ge> maxLinkRelayEntries then
        (case oldest_key (\<lambda>e. \<not> lr_Validated e) lr_Timestamp rank lt of
           None \<Rightarrow> lt
         | Some oldestKey \<Rightarrow> go_put (hash16FromSlice linkID) entry (go_del oldestKey lt))
      else go_put (hash16FromSlice linkID) entry lt)"

definition lt_get :: "bytes \<Rightarrow> linkRelayTable \<Rightarrow> LinkRelayEntry option" where
  "lt_get linkID lt = map_of lt (hash16FromSlice linkID)"

definition lt_markValidated :: "int \<Rightarrow> bytes \<Rightarrow> linkRelayTable \<Rightarrow> linkRelayTable \<times> bool" where
  "lt_markValidated now linkID lt =
     (case lt_get linkID lt of
        None \<Rightarrow> (lt, False)
      | Some e \<Rightarrow> (go_put (hash16FromSlice linkID) (e\<lparr> lr_Validated := True, lr_Timestamp := now \<rparr>) lt, True))"

definition lt_setRemainingHops :: "int \<Rightarrow> bytes \<Rightarrow> int \<Rightarrow> linkRelayTable \<Rightarrow> linkRelayTable \<times> bool" where
  "lt_setRemainingHops now linkID hops lt =
     (case lt_get linkID lt of
        None \<Rightarrow> (lt, False)
      | Some e \<Rightarrow>
          if lr_Validated e then (lt, False)
          else (go_put (hash16FromSlice linkID) (e\<lparr> lr_RemainingHops := hops, lr_Timestamp := now \<rparr>) lt, True))"

definition lt_touch :: "int \<Rightarrow> bytes \<Rightarrow> linkRelayTable \<Rightarrow> linkRelayTable" where
  "lt_touch now linkID lt =
     (case lt_get linkID lt of
        None \<Rightarrow> lt
      | Some e \<Rightarrow> go_put (hash16FromSlice linkID) (e\<lparr> lr_Timestamp := now \<rparr>) lt)"

definition lt_delete :: "bytes \<Rightarrow> linkRelayTable \<Rightarrow> linkRelayTable" where
  "lt_delete linkID lt = go_del (hash16FromSlice linkID) lt"

text \<open>\<open>sweep\<close>: an entry without a proof goes when its proof is overdue, a validated one when it idled.\<close>

definition lt_swept :: "int \<Rightarrow> int \<Rightarrow> LinkRelayEntry \<Rightarrow> bool" where
  "lt_swept now maxIdle e =
     (if \<not> lr_Validated e then now > lr_ProofTimeout e else now - lr_Timestamp e > maxIdle)"

definition lt_sweep ::
  "int \<Rightarrow> (hash16 \<Rightarrow> nat) \<Rightarrow> int \<Rightarrow> linkRelayTable \<Rightarrow> linkRelayTable \<times> LinkRelayEntry list \<times> nat" where
  "lt_sweep now rank maxIdle lt =
     (let (lt', gone) = del_where (lt_swept now maxIdle) rank lt
      in (lt', filter (\<lambda>e. \<not> lr_Validated e) gone, length gone))"

definition lt_counts :: "linkRelayTable \<Rightarrow> nat \<times> nat" where
  "lt_counts lt = (length lt, length (filter (\<lambda>(_, e). lr_Validated e) lt))"

definition lt_removeEntriesReferencing ::
  "(hash16 \<Rightarrow> nat) \<Rightarrow> iface option \<Rightarrow> linkRelayTable \<Rightarrow> linkRelayTable" where
  "lt_removeEntriesReferencing rank ifc lt =
     (if ifc = None then lt
      else fst (del_where (\<lambda>e. lr_NextHopIface e = ifc \<or> lr_ReceivedIface e = ifc) rank lt))"

section \<open>The reverse table\<close>

record ReverseEntry =
  rv_ReceivedIface :: "iface option"
  rv_OutboundIface :: "iface option"
  rv_Timestamp :: int

type_synonym reverseTable = "(hash16, ReverseEntry) gomap"

definition maxReverseEntries :: nat where "maxReverseEntries = 32768"

definition rt_insert :: "(hash16 \<Rightarrow> nat) \<Rightarrow> hash16 \<Rightarrow> ReverseEntry \<Rightarrow> reverseTable \<Rightarrow> reverseTable" where
  "rt_insert rank key entry rt =
     go_put key entry
       (if length rt \<ge> maxReverseEntries then
          (case oldest_key (\<lambda>_. True) rv_Timestamp rank rt of None \<Rightarrow> rt | Some oldestKey \<Rightarrow> go_del oldestKey rt)
        else rt)"

definition rt_put :: "(hash16 \<Rightarrow> nat) \<Rightarrow> bytes \<Rightarrow> ReverseEntry \<Rightarrow> reverseTable \<Rightarrow> reverseTable" where
  "rt_put rank truncatedHash entry rt =
     (if length truncatedHash = 0 then rt else rt_insert rank (hash16FromSlice truncatedHash) entry rt)"

definition rt_pop_key :: "hash16 \<Rightarrow> reverseTable \<Rightarrow> reverseTable \<times> ReverseEntry option" where
  "rt_pop_key k rt = (case map_of rt k of None \<Rightarrow> (rt, None) | Some e \<Rightarrow> (go_del k rt, Some e))"

definition rt_pop :: "bytes \<Rightarrow> reverseTable \<Rightarrow> reverseTable \<times> ReverseEntry option" where
  "rt_pop truncatedHash rt =
     (if length truncatedHash = 0 then (rt, None) else rt_pop_key (hash16FromSlice truncatedHash) rt)"

definition rt_get :: "bytes \<Rightarrow> reverseTable \<Rightarrow> ReverseEntry option" where
  "rt_get truncatedHash rt =
     (if length truncatedHash = 0 then None else map_of rt (hash16FromSlice truncatedHash))"

definition rt_sweep :: "int \<Rightarrow> (hash16 \<Rightarrow> nat) \<Rightarrow> int \<Rightarrow> reverseTable \<Rightarrow> reverseTable \<times> nat" where
  "rt_sweep now rank maxAge rt =
     (let (rt', gone) = del_where (\<lambda>e. now - rv_Timestamp e > maxAge) rank rt in (rt', length gone))"

definition rt_removeEntriesReferencing :: "(hash16 \<Rightarrow> nat) \<Rightarrow> iface option \<Rightarrow> reverseTable \<Rightarrow> reverseTable" where
  "rt_removeEntriesReferencing rank ifc rt =
     (if ifc = None then rt
      else fst (del_where (\<lambda>e. rv_ReceivedIface e = ifc \<or> rv_OutboundIface e = ifc) rank rt))"

section \<open>The reverse table is a single-use table of limited size\<close>

lemma rt_insert_room:
  fixes rt :: reverseTable and rank :: "hash16 \<Rightarrow> nat"
  assumes "wf_map rt" "length rt \<le> maxReverseEntries"
  defines "rt' \<equiv> (if length rt \<ge> maxReverseEntries then
      (case oldest_key (\<lambda>_. True) rv_Timestamp rank rt of None \<Rightarrow> rt | Some k \<Rightarrow> go_del k rt) else rt)"
  shows "length rt' < maxReverseEntries"
proof (cases "length rt \<ge> maxReverseEntries")
  case True
  then have "rt \<noteq> []" by (auto simp: maxReverseEntries_def)
  then have "map_of rt (fst (hd rt)) = Some (snd (hd rt))" by (cases rt) auto
  then obtain k where k: "oldest_key (\<lambda>_. True) rv_Timestamp rank rt = Some k"
    using oldest_key_None [OF assms(1), of "\<lambda>_. True" rv_Timestamp rank] by (metis option.exhaust)
  then obtain v where "map_of rt k = Some v" using oldest_key_Some [OF assms(1)] by metis
  then show ?thesis using True k assms(2) length_del [OF assms(1), of k] \<open>rt \<noteq> []\<close>
    by (simp add: rt'_def) (simp add: maxReverseEntries_def)
qed (simp add: rt'_def)

interpretation reverse: single_use_table rt_insert maxReverseEntries rt_pop_key
proof
  fix rank k k' v and m :: reverseTable
  show "wf_map m \<Longrightarrow> wf_map (rt_insert rank k v m)"
    by (auto simp: rt_insert_def map_simps split: option.splits)
  show "length (rt_insert rank k v m) \<le> maxReverseEntries" if "wf_map m" "length m \<le> maxReverseEntries"
    using rt_insert_room [OF that, of rank] unfolding rt_insert_def
    by (intro order_trans [OF length_put_le]) (simp only: Suc_eq_plus1 [symmetric] Suc_le_eq)
  show "map_of (rt_insert rank k v m) k = Some v"
    by (simp add: rt_insert_def map_simps)
  show "k' \<noteq> k \<Longrightarrow> map_of (rt_insert rank k v m) k' = map_of m k' \<or> map_of (rt_insert rank k v m) k' = None"
    by (auto simp: rt_insert_def map_simps split: option.splits)
qed (auto simp: rt_pop_key_def map_simps length_del_le split: option.splits)

section \<open>Validated links survive\<close>

definition lt_ok :: "linkRelayTable \<Rightarrow> bool" where
  "lt_ok lt \<longleftrightarrow> wf_map lt \<and> length lt \<le> maxLinkRelayEntries"

lemma lt_put_cases:
  assumes "wf_map lt"
  obtains (room) "length lt < maxLinkRelayEntries" "lt_put rank linkID e lt = go_put (hash16FromSlice linkID) e lt"
  | (evict) k v where "length lt \<ge> maxLinkRelayEntries" "map_of lt k = Some v" "\<not> lr_Validated v"
      "\<And>k' v'. map_of lt k' = Some v' \<Longrightarrow> \<not> lr_Validated v' \<Longrightarrow> lr_Timestamp v \<le> lr_Timestamp v'"
      "lt_put rank linkID e lt = go_put (hash16FromSlice linkID) e (go_del k lt)"
  | (dropped) "length lt \<ge> maxLinkRelayEntries" "\<And>k v. map_of lt k = Some v \<Longrightarrow> lr_Validated v"
      "lt_put rank linkID e lt = lt"
proof (cases "length lt \<ge> maxLinkRelayEntries")
  case True
  show ?thesis
  proof (cases "oldest_key (\<lambda>e. \<not> lr_Validated e) lr_Timestamp rank lt")
    case None
    then show ?thesis
      using dropped True oldest_key_None [OF assms, of "\<lambda>e. \<not> lr_Validated e" lr_Timestamp rank] by (auto simp: lt_put_def)
  next
    case (Some k)
    from oldest_key_Some [OF assms Some] obtain v where "map_of lt k = Some v" "\<not> lr_Validated v"
      "\<And>k' v'. map_of lt k' = Some v' \<Longrightarrow> \<not> lr_Validated v' \<Longrightarrow> lr_Timestamp v \<le> lr_Timestamp v'" by blast
    then show ?thesis using evict [of k v] True Some by (simp add: lt_put_def)
  qed
qed (use room in \<open>simp add: lt_put_def\<close>)

lemma lt_put_ok:
  assumes ok: "lt_ok lt"
  shows "lt_ok (lt_put rank linkID e lt)"
proof -
  have wf: "wf_map lt" using ok by (simp add: lt_ok_def)
  then show ?thesis
  proof (cases rule: lt_put_cases [of lt rank linkID e, case_names room evict dropped])
    case room
    then show ?thesis using ok length_put_le [of "hash16FromSlice linkID" e lt] by (simp add: lt_ok_def map_simps)
  next
    case (evict k v)
    then have "length (go_del k lt) = length lt - 1" "0 < length lt"
      using length_del [OF wf, of k] by (auto simp: maxLinkRelayEntries_def)
    then show ?thesis using ok evict length_put_le [of "hash16FromSlice linkID" e "go_del k lt"]
      by (simp add: lt_ok_def map_simps) (simp add: maxLinkRelayEntries_def)
  qed (use ok in simp)
qed

lemma lt_put_keeps_validated:
  assumes "wf_map lt" "map_of lt k = Some v" "lr_Validated v" "k \<noteq> hash16FromSlice linkID"
  shows "map_of (lt_put rank linkID e lt) k = Some v"
  using assms(1) by (cases rule: lt_put_cases [of lt rank linkID e]) (use assms in \<open>auto simp: map_simps\<close>)

lemma lt_upd_ok:
  assumes "lt_ok lt" "map_of lt k \<noteq> None"
  shows "lt_ok (go_put k e lt)"
  using assms by (auto simp: lt_ok_def map_simps length_put)

lemma lt_del_where_ok: "lt_ok lt \<Longrightarrow> lt_ok (fst (del_where P rank lt))"
  using del_where_correct(1,4) [of lt P rank] by (simp add: lt_ok_def)

section \<open>Sequences of operations\<close>

datatype lt_op =
    LtPut "hash16 \<Rightarrow> nat" bytes LinkRelayEntry
  | LtMark int bytes
  | LtSetHops int bytes int
  | LtTouch int bytes
  | LtDelete bytes
  | LtSweep int "hash16 \<Rightarrow> nat" int
  | LtRemove "hash16 \<Rightarrow> nat" "iface option"

fun lt_apply :: "lt_op \<Rightarrow> linkRelayTable \<Rightarrow> linkRelayTable" where
  "lt_apply (LtPut rank linkID e) lt = lt_put rank linkID e lt"
| "lt_apply (LtMark now linkID) lt = fst (lt_markValidated now linkID lt)"
| "lt_apply (LtSetHops now linkID hops) lt = fst (lt_setRemainingHops now linkID hops lt)"
| "lt_apply (LtTouch now linkID) lt = lt_touch now linkID lt"
| "lt_apply (LtDelete linkID) lt = lt_delete linkID lt"
| "lt_apply (LtSweep now rank maxIdle) lt = fst (lt_sweep now rank maxIdle lt)"
| "lt_apply (LtRemove rank ifc) lt = lt_removeEntriesReferencing rank ifc lt"

text \<open>
  An operation is foreign to a link when it is about another link, tries to correct the hop count of
  a link, or sweeps while the link has not idled too long.
\<close>

fun lt_foreign :: "hash16 \<Rightarrow> LinkRelayEntry \<Rightarrow> lt_op \<Rightarrow> bool" where
  "lt_foreign k v (LtPut rank linkID e) = (hash16FromSlice linkID \<noteq> k)"
| "lt_foreign k v (LtMark now linkID) = (hash16FromSlice linkID \<noteq> k)"
| "lt_foreign k v (LtSetHops now linkID hops) = True"
| "lt_foreign k v (LtTouch now linkID) = (hash16FromSlice linkID \<noteq> k)"
| "lt_foreign k v (LtDelete linkID) = (hash16FromSlice linkID \<noteq> k)"
| "lt_foreign k v (LtSweep now rank maxIdle) = (now - lr_Timestamp v \<le> maxIdle)"
| "lt_foreign k v (LtRemove rank ifc) = (ifc \<noteq> None \<longrightarrow> lr_NextHopIface v \<noteq> ifc \<and> lr_ReceivedIface v \<noteq> ifc)"

lemma lt_apply_ok: "lt_ok lt \<Longrightarrow> lt_ok (lt_apply opn lt)"
proof (cases opn)
  case (LtDelete linkID)
  assume "lt_ok lt"
  then show ?thesis using LtDelete length_del_le [of "hash16FromSlice linkID" lt]
    by (simp add: lt_ok_def lt_delete_def map_simps)
qed (auto simp: lt_put_ok lt_markValidated_def lt_setRemainingHops_def lt_touch_def lt_get_def lt_sweep_def
    lt_removeEntriesReferencing_def lt_del_where_ok case_prod_beta intro!: lt_upd_ok split: option.splits)

lemma lt_apply_keeps:
  assumes "lt_ok lt" "map_of lt k = Some v" "lr_Validated v" "lt_foreign k v opn"
  shows "map_of (lt_apply opn lt) k = Some v"
proof -
  have wf: "wf_map lt" using assms(1) by (simp add: lt_ok_def)
  show ?thesis
    using assms(2-4) del_where_correct(2) [OF wf] lt_put_keeps_validated [OF wf assms(2,3)]
    by (cases opn) (auto simp: lt_markValidated_def lt_setRemainingHops_def lt_touch_def lt_get_def lt_sweep_def
        lt_delete_def lt_swept_def lt_removeEntriesReferencing_def case_prod_beta map_simps split: option.splits)
qed

lemma lt_apply_all:
  assumes "lt_ok lt" "map_of lt k = Some v" "lr_Validated v" "\<forall>opn \<in> set ops. lt_foreign k v opn"
  shows "lt_ok (fold lt_apply ops lt) \<and> map_of (fold lt_apply ops lt) k = Some v"
  using assms(1,2,4)
  by (induction ops arbitrary: lt) (simp_all add: lt_apply_ok lt_apply_keeps assms(3))

section \<open>Properties\<close>


definition sample_relay :: "bool \<Rightarrow> LinkRelayEntry" where
  "sample_relay validated = \<lparr> lr_NextHop = replicate 16 5, lr_NextHopIface = Some 2, lr_ReceivedIface = Some 1,
     lr_RemainingHops = 2, lr_TakenHops = 1, lr_DestinationHash = replicate 16 9, lr_Validated = validated,
     lr_ProofTimeout = 50, lr_Timestamp = 10, lr_OriginalLinkID = replicate 16 7 \<rparr>"


end
