(* ===== verification/Relay.thy ===== *)
theory Relay
  imports Relay_Tables Hashlist Known_Destinations
begin

text \<open>
  Relaying of traffic by a transport node: \<open>pkg/transport/relay.go\<close> (transport packets, packets of
  local clients, link requests, link data), \<open>reverse.go\<close> (receipt proofs), \<open>lrproof.go\<close> and
  \<open>path_rebalance.go\<close> (link request proofs and the hop correction they allow), and the duplicate
  filter rules of \<open>packet_hashlist.go\<close>.

  The state is the part of \<open>Transport\<close> these functions read and write. What the interfaces answer
  (\<open>IsEnabled\<close>, \<open>AllowsOutgoing\<close>, type, MTU, bit rate, gravity), the clock, the order of map
  iteration, the hash function and signature verification are fields of a context record that no
  operation changes. An operation returns the new state, the frames it transmits, in order, as pairs
  of interface and bytes, and the boolean of the code; \<open>None\<close> is a panic. A packet is received on an
  interface that is not nil. The tables are the ones made by the constructor, so they are not nil.
\<close>

record relay_ctx =
  x_hash :: hashfn
  x_now :: int
  x_rank :: "hash16 \<Rightarrow> nat"
  x_enabled :: "iface \<Rightarrow> bool"
  x_outgoing :: "iface \<Rightarrow> bool"
  x_localClient :: "iface \<Rightarrow> bool"
  x_MTU :: "iface \<Rightarrow> int"
  x_bitrate :: "iface \<Rightarrow> int"
  x_gravity :: "iface \<Rightarrow> int"
  x_verify :: "bytes \<Rightarrow> bytes \<Rightarrow> bytes \<Rightarrow> bool"

record relay_config =
  c_EnableTransport :: bool
  c_ConnectedToSharedInstance :: bool
  c_AllowLinkPathRebalanceSet :: bool
  c_AllowLinkPathRebalance :: bool

record path =
  pa_Interface :: "iface option"
  pa_NextHop :: bytes
  pa_Hops :: byte
  pa_HopCount :: byte
  pa_LastUpdated :: int

record rebalanceEntry =
  rb_windowStart :: int
  rb_count :: int

record transport =
  t_config :: "relay_config option"
  t_transportID :: "bytes option"
  t_paths :: "(bytes, path) gomap"
  t_destinations :: "hash16 list"
  t_links :: "hash16 list"
  t_linkTable :: linkRelayTable
  t_reverseTable :: reverseTable
  t_packetHashes :: packetHashList
  t_rebalanceByDest :: "(bytes, rebalanceEntry) gomap"
  t_ifacePenalties :: "(iface, int) gomap"
  t_known :: known

type_synonym frames = "(iface \<times> bytes) list"
type_synonym relay_result = "(transport \<times> frames \<times> bool) option"

definition MaxHops :: byte where "MaxHops = 128"
definition LinkProofTimeoutPerHop :: int where "LinkProofTimeoutPerHop = 6 * 1000000000"
definition BitrateMinimum :: int where "BitrateMinimum = 5"
definition packet_MTU :: int where "packet_MTU = 500"

section \<open>Conditions for relaying\<close>

definition transportEnabled :: "transport \<Rightarrow> bool" where
  "transportEnabled t =
     (case t_config t of
        None \<Rightarrow> False
      | Some c \<Rightarrow> if c_ConnectedToSharedInstance c then False else c_EnableTransport c)"

definition isLocalClientInterface :: "relay_ctx \<Rightarrow> iface option \<Rightarrow> bool" where
  "isLocalClientInterface x ifc = (case ifc of None \<Rightarrow> False | Some i \<Rightarrow> x_localClient x i)"

definition mayRelayForSharedInstanceClient ::
  "relay_ctx \<Rightarrow> transport \<Rightarrow> iface option \<Rightarrow> iface option list \<Rightarrow> bool" where
  "mayRelayForSharedInstanceClient x t sourceIface related =
     (if transportEnabled t then True
      else if isLocalClientInterface x sourceIface then True
      else list_ex (isLocalClientInterface x) related)"

definition AccountInboundHops :: "relay_ctx \<Rightarrow> byte \<Rightarrow> iface option \<Rightarrow> byte" where
  "AccountInboundHops x wireHops ifc =
     (if ifc = None then wireHops else linkRelayAccountedHops wireHops (isLocalClientInterface x ifc))"

definition sendOnInterface :: "relay_ctx \<Rightarrow> iface option \<Rightarrow> bytes \<Rightarrow> frames" where
  "sendOnInterface x ifc data =
     (case ifc of
        None \<Rightarrow> []
      | Some i \<Rightarrow> if \<not> x_enabled x i then [] else if \<not> x_outgoing x i then [] else [(i, data)])"

text \<open>The airtime of a full packet in nanoseconds: the code's conversion of a floating point quotient is an integer division here.\<close>

definition ExtraLinkProofTimeout :: "relay_ctx \<Rightarrow> iface option \<Rightarrow> int" where
  "ExtraLinkProofTimeout x ifc =
     (let br = (case ifc of None \<Rightarrow> 0 | Some i \<Rightarrow> x_bitrate x i)
      in if br \<le> 0 then 0
         else
           (let br = (if br < BitrateMinimum then BitrateMinimum else br)
            in (packet_MTU * 8 * 1000000000) div br))"

section \<open>The duplicate filter\<close>

definition connectedToShared :: "transport \<Rightarrow> bool" where
  "connectedToShared t = (case t_config t of None \<Rightarrow> False | Some c \<Rightarrow> c_ConnectedToSharedInstance c)"

definition packetFilter :: "relay_ctx \<Rightarrow> packet \<Rightarrow> transport \<Rightarrow> bool option" where
  "packetFilter x pkt t =
     (if connectedToShared t then Some True
      else if p_Context pkt \<in> {ContextKeepalive, ContextResourceReq, ContextResourcePRF,
                 ContextResource, ContextCacheReq, ContextChannel} then Some True
      else if p_DestinationType pkt = DestinationPlain \<or> p_DestinationType pkt = DestinationGroup then
        (if p_PacketType pkt = PacketTypeAnnounce then Some False
         else if p_Hops pkt > 1 then Some False
         else Some True)
      else do {
        (_, h) \<leftarrow> GetHash (x_hash x) pkt;
        dup \<leftarrow> hl_seen (t_packetHashes t) h;
        if \<not> dup then Some True
        else Some (p_PacketType pkt = PacketTypeAnnounce \<and> p_DestinationType pkt = DestinationSingle) })"

definition dest16 :: "packet \<Rightarrow> bytes" where
  "dest16 pkt = (if length (p_DestinationHash pkt) > 16 then take 16 (p_DestinationHash pkt) else p_DestinationHash pkt)"

definition rememberPacketHashForced :: "relay_ctx \<Rightarrow> packet \<Rightarrow> transport \<Rightarrow> transport option" where
  "rememberPacketHashForced x pkt t =
     (if connectedToShared t then Some t
      else do {
        (_, h) \<leftarrow> GetHash (x_hash x) pkt;
        hl \<leftarrow> hl_add (t_packetHashes t) h;
        Some (t\<lparr> t_packetHashes := hl \<rparr>) })"

definition maybeRememberPacketHash :: "relay_ctx \<Rightarrow> packet \<Rightarrow> transport \<Rightarrow> transport option" where
  "maybeRememberPacketHash x pkt t =
     (if connectedToShared t then Some t
      else if lt_get (dest16 pkt) (t_linkTable t) \<noteq> None then Some t
      else if p_PacketType pkt = PacketTypeProof \<and> p_Context pkt = ContextLRProof then Some t
      else do {
        (_, h) \<leftarrow> GetHash (x_hash x) pkt;
        hl \<leftarrow> hl_add (t_packetHashes t) h;
        Some (t\<lparr> t_packetHashes := hl \<rparr>) })"

section \<open>Recording what was relayed\<close>

definition recordReverseEntry ::
  "relay_ctx \<Rightarrow> packet \<Rightarrow> iface option \<Rightarrow> iface option \<Rightarrow> transport \<Rightarrow> transport option" where
  "recordReverseEntry x pkt recvIface outIface t =
     (if recvIface = None \<or> outIface = None then Some t
      else do {
        (_, th) \<leftarrow> TruncatedHash (x_hash x) pkt;
        if length th = 0 then Some t
        else Some (t\<lparr> t_reverseTable := rt_put (x_rank x) th
               \<lparr> rv_ReceivedIface = recvIface, rv_OutboundIface = outIface, rv_Timestamp = x_now x \<rparr>
               (t_reverseTable t) \<rparr>) })"

text \<open>The forwarded bytes are unpacked again, because the received packet aliases a buffer that was rewritten.\<close>

definition recordLinkRelay ::
  "relay_ctx \<Rightarrow> bytes \<Rightarrow> iface option \<Rightarrow> path \<Rightarrow> int \<Rightarrow> transport \<Rightarrow> transport option" where
  "recordLinkRelay x raw recvIface pth takenHops t = do {
     (fwd, err) \<leftarrow> Unpack (x_hash x) (raw_packet raw);
     if err \<noteq> None then Some t
     else do {
       linkID \<leftarrow> LinkIDFromLinkRequest (x_hash x) fwd;
       if length linkID = 0 then Some t
       else
         (let remaining = max (uint (pa_HopCount pth)) 1;
              entry = \<lparr> lr_NextHop = pa_NextHop pth, lr_NextHopIface = pa_Interface pth, lr_ReceivedIface = recvIface,
                lr_RemainingHops = remaining, lr_TakenHops = takenHops, lr_DestinationHash = p_DestinationHash fwd,
                lr_Validated = False,
                lr_ProofTimeout = x_now x + (LinkProofTimeoutPerHop * remaining + ExtraLinkProofTimeout x (pa_Interface pth)),
                lr_Timestamp = x_now x, lr_OriginalLinkID = linkID \<rparr>
          in Some (t\<lparr> t_linkTable := lt_put (x_rank x) linkID entry (t_linkTable t) \<rparr>)) } }"

section \<open>Forwarding\<close>

text \<open>
  The rewrite chosen by the hop count of the path: the buffer as it is left, and the frame to send.
\<close>

definition rewriteForPath :: "path \<Rightarrow> bytes \<Rightarrow> byte \<Rightarrow> rewrite_error + (bytes \<times> bytes)" where
  "rewriteForPath pth raw newHops =
     (if pa_HopCount pth > 1 then
        (case rebuildHeaderType2 raw newHops (pa_NextHop pth) of Inl e \<Rightarrow> Inl e | Inr out \<Rightarrow> Inr (out, out))
      else if pa_HopCount pth = 1 then stripHeaderType2 raw newHops
      else (let out = rewriteHopsInPlace raw newHops in Inr (out, out)))"

text \<open>
  \<open>forwardTransportPacket\<close>; \<open>pkt.Data\<close> is a view of the end of the received buffer, so after the
  rewrite the link MTU is read from the rewritten buffer at the same position.
\<close>

definition forwardTransportPacket :: "relay_ctx \<Rightarrow> packet \<Rightarrow> bytes \<Rightarrow> iface \<Rightarrow> transport \<Rightarrow> relay_result" where
  "forwardTransportPacket x pkt raw sourceIface t =
     (if p_HeaderType pkt \<noteq> HeaderType2 \<or> p_TransportID pkt = None \<or> p_TransportID pkt = Some [] then Some (t, [], False)
      else if t_transportID t = None then Some (t, [], False)
      else if p_TransportID pkt \<noteq> t_transportID t then Some (t, [], False)
      else if \<not> mayRelayForSharedInstanceClient x t (Some sourceIface) [] then Some (t, [], True)
      else
        (let destHash = dest16 pkt in
         if hash16FromSlice destHash \<in> set (t_destinations t) then Some (t, [], False)
         else case map_of (t_paths t) (pathMapKey destHash) of
           None \<Rightarrow> Some (t, [], True)
         | Some pth \<Rightarrow>
             if pa_Interface pth = None then Some (t, [], True)
             else if pa_Interface pth = Some sourceIface then Some (t, [], True)
             else
               (let newHops = linkRelayAccountedHops (p_Hops pkt) (isLocalClientInterface x (Some sourceIface)) in
                if newHops \<ge> MaxHops then Some (t, [], True)
                else case rewriteForPath pth raw newHops of
                  Inl _ \<Rightarrow> Some (t, [], True)
                | Inr (buf, out) \<Rightarrow>
                    if p_PacketType pkt = PacketTypeLinkReq then
                      (let data = drop (length raw - length (p_Data pkt)) buf;
                           out = clampRelayedLinkRequestMTU out data (Some (x_MTU x sourceIface))
                                   (map_option (x_MTU x) (pa_Interface pth))
                       in do {
                         t' \<leftarrow> recordLinkRelay x out (Some sourceIface) pth (uint newHops) t;
                         Some (t', sendOnInterface x (pa_Interface pth) out, True) })
                    else do {
                      t' \<leftarrow> (if p_PacketType pkt \<noteq> PacketTypeAnnounce
                             then recordReverseEntry x pkt (Some sourceIface) (pa_Interface pth) t else Some t);
                      Some (t', sendOnInterface x (pa_Interface pth) out, True) })))"

text \<open>The transport header put in front of a packet that leaves towards a path of several hops.\<close>

definition wrapForPath :: "path \<Rightarrow> bytes \<Rightarrow> bytes \<Rightarrow> byte \<Rightarrow> rewrite_error + bytes" where
  "wrapForPath pth destHash raw newHops =
     (if pa_HopCount pth > 1 \<and> length (pa_NextHop pth) > 0 \<and> pa_NextHop pth \<noteq> destHash
      then insertHeaderType2 (rewriteHopsInPlace raw newHops) newHops (pa_NextHop pth)
      else Inr (rewriteHopsInPlace raw newHops))"

definition forwardLocalClientPacket :: "relay_ctx \<Rightarrow> packet \<Rightarrow> bytes \<Rightarrow> iface \<Rightarrow> transport \<Rightarrow> relay_result" where
  "forwardLocalClientPacket x pkt raw sourceIface t =
     (if \<not> isLocalClientInterface x (Some sourceIface) then Some (t, [], False)
      else
        (let destHash = dest16 pkt in
         if hash16FromSlice destHash \<in> set (t_destinations t) then Some (t, [], False)
         else case map_of (t_paths t) (pathMapKey destHash) of
           None \<Rightarrow> Some (t, [], False)
         | Some pth \<Rightarrow>
             if pa_Interface pth = None then Some (t, [], False)
             else if pa_Interface pth = Some sourceIface then Some (t, [], True)
             else do {
               h \<leftarrow> go_index raw 1;
               let newHops = linkRelayAccountedHops h True;
               if newHops \<ge> MaxHops then Some (t, [], True)
               else case wrapForPath pth destHash raw newHops of
                 Inl _ \<Rightarrow> Some (t, [], True)
               | Inr out \<Rightarrow> do {
                   t' \<leftarrow> (if p_PacketType pkt \<noteq> PacketTypeAnnounce
                          then recordReverseEntry x pkt (Some sourceIface) (pa_Interface pth) t else Some t);
                   Some (t', sendOnInterface x (pa_Interface pth) out, True) } }))"

definition relayBridgedLinkRequestHT1 :: "relay_ctx \<Rightarrow> packet \<Rightarrow> bytes \<Rightarrow> iface \<Rightarrow> transport \<Rightarrow> relay_result" where
  "relayBridgedLinkRequestHT1 x pkt raw sourceIface t =
     (if \<not> mayRelayForSharedInstanceClient x t (Some sourceIface) [] then Some (t, [], True)
      else
        (let destHash = dest16 pkt in
         if hash16FromSlice destHash \<in> set (t_destinations t) then Some (t, [], False)
         else case map_of (t_paths t) (pathMapKey destHash) of
           None \<Rightarrow> Some (t, [], False)
         | Some pth \<Rightarrow>
             if pa_Interface pth = None then Some (t, [], False)
             else if pa_Interface pth = Some sourceIface then Some (t, [], True)
             else
               (let newHops = linkRelayAccountedHops (p_Hops pkt) (isLocalClientInterface x (Some sourceIface)) in
                if newHops \<ge> MaxHops then Some (t, [], True)
                else case wrapForPath pth destHash raw newHops of
                  Inl _ \<Rightarrow> Some (t, [], True)
                | Inr out \<Rightarrow> do {
                    t' \<leftarrow> recordLinkRelay x out (Some sourceIface) pth (uint newHops) t;
                    Some (t', sendOnInterface x (pa_Interface pth) out, True) })))"

definition relayBridgedLinkRequest :: "relay_ctx \<Rightarrow> packet \<Rightarrow> bytes \<Rightarrow> iface \<Rightarrow> transport \<Rightarrow> relay_result" where
  "relayBridgedLinkRequest x pkt raw sourceIface t =
     (if p_HeaderType pkt = HeaderType2 then
        (case stripHeaderType2 raw (p_Hops pkt) of
           Inl _ \<Rightarrow> Some (t, [], False)
         | Inr (_, stripped) \<Rightarrow> do {
             (pkt', err) \<leftarrow> Unpack (x_hash x) (raw_packet stripped);
             if err \<noteq> None then Some (t, [], False)
             else relayBridgedLinkRequestHT1 x pkt' stripped sourceIface t })
      else relayBridgedLinkRequestHT1 x pkt raw sourceIface t)"

text \<open>
  The interface on which link data leaves: \<open>Inl\<close> when the packet is dropped because of its hop count
  or because it came from neither side of the link.
\<close>

datatype link_drop = HopMismatch | UnknownIface

definition linkOutIface :: "LinkRelayEntry \<Rightarrow> iface \<Rightarrow> byte \<Rightarrow> link_drop + iface option" where
  "linkOutIface entry sourceIface accounted =
     (if lr_NextHopIface entry = lr_ReceivedIface entry then
        (if uint accounted \<noteq> lr_RemainingHops entry \<and> uint accounted \<noteq> lr_TakenHops entry then Inl HopMismatch
         else Inr (lr_NextHopIface entry))
      else if Some sourceIface = lr_NextHopIface entry then
        (if uint accounted \<noteq> lr_RemainingHops entry then Inl HopMismatch else Inr (lr_ReceivedIface entry))
      else if Some sourceIface = lr_ReceivedIface entry then
        (if uint accounted \<noteq> lr_TakenHops entry then Inl HopMismatch else Inr (lr_NextHopIface entry))
      else Inl UnknownIface)"

definition forwardLinkData :: "relay_ctx \<Rightarrow> bytes \<Rightarrow> bytes \<Rightarrow> iface \<Rightarrow> transport \<Rightarrow> relay_result" where
  "forwardLinkData x linkID raw sourceIface t =
     (if length raw < 18 \<or> length linkID = 0 then Some (t, [], False)
      else
        (let linkID = (if length linkID > 16 then take 16 linkID else linkID) in
         case lt_get linkID (t_linkTable t) of
           None \<Rightarrow> Some (t, [], False)
         | Some entry \<Rightarrow>
             if \<not> mayRelayForSharedInstanceClient x t (Some sourceIface) [lr_ReceivedIface entry, lr_NextHopIface entry]
             then Some (t, [], True)
             else do {
               h \<leftarrow> go_index raw 1;
               let accounted = linkRelayAccountedHops h (isLocalClientInterface x (Some sourceIface));
               case linkOutIface entry sourceIface accounted of
                 Inl _ \<Rightarrow> Some (t, [], True)
               | Inr outIface \<Rightarrow>
                   if (case outIface of None \<Rightarrow> True | Some i \<Rightarrow> \<not> x_enabled x i) then Some (t, [], True)
                   else Some (t\<lparr> t_linkTable := lt_touch (x_now x) linkID (t_linkTable t) \<rparr>,
                              sendOnInterface x outIface (rewriteHopsOnly raw accounted), True) }))"

definition forwardReverseProof :: "relay_ctx \<Rightarrow> packet \<Rightarrow> iface \<Rightarrow> transport \<Rightarrow> relay_result" where
  "forwardReverseProof x pkt ifc t =
     (let dest = dest16 pkt in
      case rt_get dest (t_reverseTable t) of
        None \<Rightarrow> Some (t, [], False)
      | Some entry \<Rightarrow>
          if \<not> transportEnabled t \<and> \<not> isLocalClientInterface x (Some ifc) \<and> \<not> isLocalClientInterface x (rv_ReceivedIface entry)
          then Some (t, [], False)
          else if Some ifc \<noteq> rv_OutboundIface entry then Some (t, [], True)
          else if (case rv_ReceivedIface entry of None \<Rightarrow> True | Some i \<Rightarrow> \<not> x_enabled x i) then Some (t, [], True)
          else
            (let (rt, popped) = rt_pop dest (t_reverseTable t);
                 t' = t\<lparr> t_reverseTable := rt \<rparr>
             in if popped \<noteq> Some entry then Some (t', [], True)
                else Some (t', sendOnInterface x (rv_ReceivedIface entry) (rewriteHopsOnly (p_Raw pkt) (p_Hops pkt)), True)))"

section \<open>Link request proofs\<close>

definition lrProofX25519Size :: nat where "lrProofX25519Size = 32"
definition lrProofMTUSize :: nat where "lrProofMTUSize = 3"
definition rebalanceWindow :: int where "rebalanceWindow = 60 * 1000000000"
definition rebalanceMaxPerDest :: int where "rebalanceMaxPerDest = 8"

definition LinkPathRebalanceAllowed :: "transport \<Rightarrow> bool" where
  "LinkPathRebalanceAllowed t =
     (case t_config t of
        None \<Rightarrow> True
      | Some c \<Rightarrow> if c_AllowLinkPathRebalanceSet c then c_AllowLinkPathRebalance c else True)"

definition allowRebalanceDest :: "relay_ctx \<Rightarrow> bytes \<Rightarrow> transport \<Rightarrow> transport \<times> bool" where
  "allowRebalanceDest x destHash t =
     (if length destHash = 0 then (t, False)
      else
        (let key = pathMapKey destHash;
             store = (\<lambda>e. t\<lparr> t_rebalanceByDest := go_put key e (t_rebalanceByDest t) \<rparr>)
         in case map_of (t_rebalanceByDest t) key of
              None \<Rightarrow> (store \<lparr> rb_windowStart = x_now x, rb_count = 1 \<rparr>, True)
            | Some e \<Rightarrow>
                if x_now x - rb_windowStart e > rebalanceWindow
                then (store \<lparr> rb_windowStart = x_now x, rb_count = 1 \<rparr>, True)
                else if rb_count e \<ge> rebalanceMaxPerDest then (t, False)
                else (store (e\<lparr> rb_count := rb_count e + 1 \<rparr>), True)))"

definition pathingAffinityLocked :: "relay_ctx \<Rightarrow> transport \<Rightarrow> iface \<Rightarrow> int" where
  "pathingAffinityLocked x t ifc =
     (let g = x_gravity x ifc;
          pen = (case map_of (t_ifacePenalties t) ifc of None \<Rightarrow> 0 | Some p \<Rightarrow> p)
      in if pen \<le> 0 then g else if pen > 32 then g - 32 else g - pen)"

definition noteIfacePathFailure :: "iface \<Rightarrow> transport \<Rightarrow> transport" where
  "noteIfacePathFailure ifc t =
     (let pen = (case map_of (t_ifacePenalties t) ifc of None \<Rightarrow> 0 | Some p \<Rightarrow> p)
      in t\<lparr> t_ifacePenalties := go_put ifc (if pen < 32 then pen + 1 else pen) (t_ifacePenalties t) \<rparr>)"

definition noteIfacePathSuccess :: "iface \<Rightarrow> transport \<Rightarrow> transport" where
  "noteIfacePathSuccess ifc t =
     (case map_of (t_ifacePenalties t) ifc of
        None \<Rightarrow> t
      | Some p \<Rightarrow>
          if p = 0 then t
          else if p - 1 = 0 then t\<lparr> t_ifacePenalties := go_del ifc (t_ifacePenalties t) \<rparr>
          else t\<lparr> t_ifacePenalties := go_put ifc (p - 1) (t_ifacePenalties t) \<rparr>)"

definition applyPathHopRebalance :: "relay_ctx \<Rightarrow> bytes \<Rightarrow> byte \<Rightarrow> iface \<Rightarrow> transport \<Rightarrow> transport \<times> bool" where
  "applyPathHopRebalance x destHash newHops proofIface t =
     (if length destHash = 0 then (t, False)
      else
        (let (t, allowed) = allowRebalanceDest x destHash t in
         if \<not> allowed then (t, False)
         else
           (let key = pathMapKey destHash in
            case map_of (t_paths t) key of
              None \<Rightarrow> (t, True)
            | Some pth \<Rightarrow>
                if newHops > pa_HopCount pth
                   \<and> (case pa_Interface pth of
                        None \<Rightarrow> False
                      | Some i \<Rightarrow> pathingAffinityLocked x t i \<ge> pathingAffinityLocked x t proofIface + 10)
                then (t, False)
                else (t\<lparr> t_paths := go_put key (pth\<lparr> pa_HopCount := newHops, pa_Hops := newHops, pa_LastUpdated := x_now x \<rparr>)
                            (t_paths t) \<rparr>, True))))"

text \<open>
  What both proof functions check of a proof: its length, that the destination's identity is known,
  and the signature over the link identifier, the two public keys and the signalling bytes. The
  identity is recalled, which marks it as used, so the state is part of the result.
\<close>

definition lrproof_lengths :: "bytes \<Rightarrow> bool" where
  "lrproof_lengths data = (length data = 64 + lrProofX25519Size \<or> length data = 64 + lrProofX25519Size + lrProofMTUSize)"

definition lrproof_signed :: "bytes \<Rightarrow> bytes \<Rightarrow> bytes \<Rightarrow> bytes" where
  "lrproof_signed linkID data peerSigPub =
     linkID @ take lrProofX25519Size (drop 64 data) @ peerSigPub
       @ (if length data = 64 + lrProofX25519Size + lrProofMTUSize then drop (64 + lrProofX25519Size) data else [])"

definition lrproof_check :: "relay_ctx \<Rightarrow> bytes \<Rightarrow> bytes \<Rightarrow> bytes \<Rightarrow> transport \<Rightarrow> transport \<times> bool" where
  "lrproof_check x linkID data destHash t =
     (if \<not> lrproof_lengths data then (t, False)
      else
        (let (kn, ident) = Recall (x_now x) destHash (t_known t);
             t = t\<lparr> t_known := kn \<rparr>
         in case ident of
              None \<Rightarrow> (t, False)
            | Some (pub, ver) \<Rightarrow>
                (let peerSigPub = take lrProofX25519Size (drop lrProofX25519Size (fixed 64 (pub @ ver)))
                 in (t, x_verify x ver (lrproof_signed linkID data peerSigPub) (take 64 data)))))"

definition tryTransitLRProofRebalance ::
  "relay_ctx \<Rightarrow> packet \<Rightarrow> iface \<Rightarrow> bytes \<Rightarrow> LinkRelayEntry \<Rightarrow> byte \<Rightarrow> transport \<Rightarrow> transport \<times> bool" where
  "tryTransitLRProofRebalance x pkt ifc linkID entry accounted t =
     (if \<not> LinkPathRebalanceAllowed t then (t, False)
      else if Some ifc \<noteq> lr_NextHopIface entry then (t, False)
      else if lr_Validated entry then (t, False)
      else
        (let (t, valid) = lrproof_check x linkID (p_Data pkt) (lr_DestinationHash entry) t in
         if \<not> valid then (t, False)
         else
           (let (t, applied) = applyPathHopRebalance x (lr_DestinationHash entry) accounted ifc t in
            if \<not> applied then (t, False)
            else
              (let (lt, done1) = lt_setRemainingHops (x_now x) linkID (uint accounted) (t_linkTable t)
               in (t\<lparr> t_linkTable := lt \<rparr>, done1)))))"

definition acceptLRProof ::
  "relay_ctx \<Rightarrow> packet \<Rightarrow> iface \<Rightarrow> bytes \<Rightarrow> LinkRelayEntry \<Rightarrow> byte \<Rightarrow> transport \<Rightarrow> relay_result" where
  "acceptLRProof x pkt ifc linkID entry accounted t =
     (if Some ifc \<noteq> lr_NextHopIface entry then Some (t, [], True)
      else
        (let (t, valid) = lrproof_check x linkID (p_Data pkt) (lr_DestinationHash entry) t in
         if \<not> valid then Some (t, [], True)
         else
           (let (lt, marked) = lt_markValidated (x_now x) linkID (t_linkTable t);
                t = t\<lparr> t_linkTable := lt \<rparr>
            in if \<not> marked then Some (t, [], True)
               else if (case lr_ReceivedIface entry of None \<Rightarrow> True | Some i \<Rightarrow> \<not> x_enabled x i) then Some (t, [], True)
               else do {
                 t' \<leftarrow> rememberPacketHashForced x pkt t;
                 Some (noteIfacePathSuccess ifc t',
                       sendOnInterface x (lr_ReceivedIface entry) (rewriteHopsOnly (p_Raw pkt) accounted), True) })))"

definition validateAndForwardLRProof :: "relay_ctx \<Rightarrow> packet \<Rightarrow> iface \<Rightarrow> transport \<Rightarrow> relay_result" where
  "validateAndForwardLRProof x pkt ifc t =
     (let linkID = dest16 pkt in
      case lt_get linkID (t_linkTable t) of
        None \<Rightarrow> Some (t, [], False)
      | Some entry \<Rightarrow>
          if \<not> transportEnabled t \<and> \<not> isLocalClientInterface x (Some ifc) \<and> \<not> isLocalClientInterface x (lr_ReceivedIface entry)
          then Some (t, [], False)
          else
            (let accounted = AccountInboundHops x (p_Hops pkt) (Some ifc) in
             if uint accounted \<noteq> lr_RemainingHops entry then
               (let (t, rebalanced) = tryTransitLRProofRebalance x pkt ifc linkID entry accounted t in
                if \<not> rebalanced then Some (t, [], True)
                else case lt_get linkID (t_linkTable t) of
                  None \<Rightarrow> Some (t, [], True)
                | Some entry \<Rightarrow>
                    if uint accounted \<noteq> lr_RemainingHops entry then Some (t, [], True)
                    else acceptLRProof x pkt ifc linkID entry accounted t)
             else acceptLRProof x pkt ifc linkID entry accounted t))"

section \<open>Lemmas\<close>

lemma send_cases:
  "sendOnInterface x ifc data = [] \<or> (\<exists>i. ifc = Some i \<and> x_enabled x i \<and> x_outgoing x i \<and> sendOnInterface x ifc data = [(i, data)])"
  by (auto simp: sendOnInterface_def split: option.splits)

lemma send_mem: "(i, out) \<in> set (sendOnInterface x ifc data) \<Longrightarrow>
    ifc = Some i \<and> out = data \<and> x_enabled x i \<and> x_outgoing x i \<and> sendOnInterface x ifc data = [(i, out)]"
  using send_cases [of x ifc data] by auto

lemma send_Some: "x_enabled x i \<Longrightarrow> x_outgoing x i \<Longrightarrow> sendOnInterface x (Some i) data = [(i, data)]"
  by (simp add: sendOnInterface_def)

lemma MaxHops_unat: "hops < MaxHops \<longleftrightarrow> unat hops < PathfinderM"
  by (simp add: MaxHops_def PathfinderM_def word_less_nat_alt)

lemma recordLinkRelay_returns:
  assumes "Unpack (x_hash x) (raw_packet out) = Some (q, None)"
  shows "recordLinkRelay x out recv pth taken t \<noteq> None"
proof -
  obtain lid where "LinkIDFromLinkRequest (x_hash x) q = Some lid" using unpacked_linkid [OF assms] by blast
  then show ?thesis using assms by (simp add: recordLinkRelay_def Let_def)
qed

lemma recordReverseEntry_returns:
  assumes "p_hashValid pkt"
  shows "recordReverseEntry x pkt recv out t \<noteq> None"
  using assms by (simp add: recordReverseEntry_def TruncatedHash_def GetHash_def)

lemma rewriteForPath_relayed:
  assumes "Unpack H (raw_packet raw) = Some (p, None)" "p_HeaderType p = HeaderType2" "hops < MaxHops"
    "rewriteForPath pth raw hops = Inr (buf, out)"
  defines "tid \<equiv> (if pa_HopCount pth > 1 then Some (pa_NextHop pth) else if pa_HopCount pth = 1 then None else p_TransportID p)"
  shows "relayed_as H p out hops tid" "length buf = length raw"
proof -
  have u: "unat hops < PathfinderM" using assms(3) by (simp add: MaxHops_unat)
  have len: "length (rewriteHopsInPlace raw hops) = length raw" by (simp add: rewriteHopsInPlace_def)
  have nh: "length (pa_NextHop pth) = 16" if "pa_HopCount pth > 1"
    using assms(4) that by (auto simp: rewriteForPath_def rebuildHeaderType2_def split: if_splits sum.splits)
  from assms(4) HT2_relayed(1) [OF assms(1,2) u nh] HT2_relayed(2) [OF assms(1,2) u] hops_relayed [OF assms(1) u] len
  show "relayed_as H p out hops tid" "length buf = length raw"
    by (auto simp: rewriteForPath_def tid_def rewriteHops_same Let_def split: if_splits sum.splits)
qed

text \<open>
  The guards under which a transport packet is relayed, and the frame it is relayed as.
\<close>

definition relay_route :: "relay_ctx \<Rightarrow> packet \<Rightarrow> iface \<Rightarrow> transport \<Rightarrow> path \<Rightarrow> iface \<Rightarrow> bool" where
  "relay_route x pkt src t pth i \<longleftrightarrow>
     mayRelayForSharedInstanceClient x t (Some src) [] \<and> hash16FromSlice (dest16 pkt) \<notin> set (t_destinations t)
     \<and> map_of (t_paths t) (pathMapKey (dest16 pkt)) = Some pth \<and> pa_Interface pth = Some i \<and> i \<noteq> src
     \<and> linkRelayAccountedHops (p_Hops pkt) (isLocalClientInterface x (Some src)) < MaxHops"

definition for_us :: "packet \<Rightarrow> transport \<Rightarrow> bool" where
  "for_us pkt t \<longleftrightarrow> p_HeaderType pkt = HeaderType2 \<and> p_TransportID pkt \<noteq> None \<and> p_TransportID pkt \<noteq> Some []
     \<and> p_TransportID pkt = t_transportID t"

lemma forwardTransportPacket_route:
  assumes "for_us pkt t" "relay_route x pkt src t pth i"
  shows "forwardTransportPacket x pkt raw src t =
    (let newHops = linkRelayAccountedHops (p_Hops pkt) (isLocalClientInterface x (Some src)) in
     case rewriteForPath pth raw newHops of
       Inl _ \<Rightarrow> Some (t, [], True)
     | Inr (buf, out) \<Rightarrow>
         if p_PacketType pkt = PacketTypeLinkReq then
           (let data = drop (length raw - length (p_Data pkt)) buf;
                out = clampRelayedLinkRequestMTU out data (Some (x_MTU x src)) (Some (x_MTU x i))
            in do {
              t' \<leftarrow> recordLinkRelay x out (Some src) pth (uint newHops) t;
              Some (t', sendOnInterface x (Some i) out, True) })
         else do {
           t' \<leftarrow> (if p_PacketType pkt \<noteq> PacketTypeAnnounce
                  then recordReverseEntry x pkt (Some src) (Some i) t else Some t);
           Some (t', sendOnInterface x (Some i) out, True) })"
proof -
  obtain tid where g: "p_HeaderType pkt = HeaderType2" "p_TransportID pkt = Some tid" "tid \<noteq> []" "t_transportID t = Some tid"
    using assms(1) by (auto simp: for_us_def)
  have r: "mayRelayForSharedInstanceClient x t (Some src) []" "hash16FromSlice (dest16 pkt) \<notin> set (t_destinations t)"
    "map_of (t_paths t) (pathMapKey (dest16 pkt)) = Some pth" "pa_Interface pth = Some i" "i \<noteq> src"
    "\<not> MaxHops \<le> linkRelayAccountedHops (p_Hops pkt) (isLocalClientInterface x (Some src))"
    using assms(2) by (simp_all add: relay_route_def not_le)
  show ?thesis unfolding forwardTransportPacket_def
    by (cases "rewriteForPath pth raw (linkRelayAccountedHops (p_Hops pkt) (isLocalClientInterface x (Some src)))")
      (simp_all add: g r Let_def case_prod_beta)
qed

lemma forwardTransportPacket_no_route:
  assumes "\<not> (for_us pkt t \<and> (\<exists>pth i. relay_route x pkt src t pth i))"
  shows "\<exists>r. forwardTransportPacket x pkt raw src t = Some (t, [], r)"
proof (cases "for_us pkt t")
  case True
  then obtain tid where g: "p_HeaderType pkt = HeaderType2" "p_TransportID pkt = Some tid" "tid \<noteq> []" "t_transportID t = Some tid"
    by (auto simp: for_us_def)
  let ?hops = "linkRelayAccountedHops (p_Hops pkt) (isLocalClientInterface x (Some src))"
  consider "\<not> mayRelayForSharedInstanceClient x t (Some src) []"
    | "mayRelayForSharedInstanceClient x t (Some src) []" "hash16FromSlice (dest16 pkt) \<in> set (t_destinations t)"
    | "mayRelayForSharedInstanceClient x t (Some src) []" "hash16FromSlice (dest16 pkt) \<notin> set (t_destinations t)"
      "map_of (t_paths t) (pathMapKey (dest16 pkt)) = None"
    | pth where "mayRelayForSharedInstanceClient x t (Some src) []" "hash16FromSlice (dest16 pkt) \<notin> set (t_destinations t)"
      "map_of (t_paths t) (pathMapKey (dest16 pkt)) = Some pth" "pa_Interface pth \<in> {None, Some src} \<or> MaxHops \<le> ?hops"
    using True assms unfolding relay_route_def by (metis insertCI not_le option.exhaust)
  then show ?thesis unfolding forwardTransportPacket_def by cases (auto simp: g Let_def)
next
  case False
  then show ?thesis unfolding forwardTransportPacket_def for_us_def by auto
qed

text \<open>The transport identifier of the frame that is sent: the next hop, none on the last hop.\<close>

definition next_tid :: "path \<Rightarrow> packet \<Rightarrow> bytes option" where
  "next_tid pth pkt = (if pa_HopCount pth > 1 then Some (pa_NextHop pth) else if pa_HopCount pth = 1 then None else p_TransportID pkt)"

definition recorded :: "relay_ctx \<Rightarrow> packet \<Rightarrow> bytes \<Rightarrow> iface \<Rightarrow> path \<Rightarrow> byte \<Rightarrow> transport \<Rightarrow> transport option" where
  "recorded x pkt out src pth hops t =
     (if p_PacketType pkt = PacketTypeLinkReq then recordLinkRelay x out (Some src) pth (uint hops) t
      else if p_PacketType pkt \<noteq> PacketTypeAnnounce then recordReverseEntry x pkt (Some src) (pa_Interface pth) t
      else Some t)"

definition forwarded_as :: "hashfn \<Rightarrow> packet \<Rightarrow> bytes \<Rightarrow> byte \<Rightarrow> bytes option \<Rightarrow> bool" where
  "forwarded_as H pkt out hops tid =
     (if p_PacketType pkt = PacketTypeLinkReq then request_relayed_as H pkt out hops tid else relayed_as H pkt out hops tid)"

lemma forwarded_unpacks:
  assumes "forwarded_as H pkt out hops tid"
  obtains q where "Unpack H (raw_packet out) = Some (q, None)" "p_Hops q = hops" "p_TransportID q = tid"
    "p_DestinationHash q = p_DestinationHash pkt" "LinkIDFromLinkRequest H q = LinkIDFromLinkRequest H pkt"
  using assms by (auto simp: forwarded_as_def request_relayed_as_def relayed_as_def same_message_def split: if_splits)

lemma recorded_returns:
  assumes "Unpack (x_hash x) (raw_packet raw) = Some (pkt, None)" "forwarded_as (x_hash x) pkt out hops tid"
  obtains t' where "recorded x pkt out src pth hops t = Some t'"
proof -
  obtain q where "Unpack (x_hash x) (raw_packet out) = Some (q, None)" using forwarded_unpacks [OF assms(2)] by metis
  then have "recorded x pkt out src pth hops t \<noteq> None"
    using recordLinkRelay_returns recordReverseEntry_returns [OF Unpack_hashValid [OF assms(1)]] by (auto simp: recorded_def)
  then show ?thesis using that by blast
qed

lemma forwardTransportPacket_cases:
  assumes "Unpack (x_hash x) (raw_packet raw) = Some (pkt, None)"
  obtains (unsent) r where "forwardTransportPacket x pkt raw src t = Some (t, [], r)"
  | (relayed) pth i out t' where "for_us pkt t" "relay_route x pkt src t pth i"
      "forwarded_as (x_hash x) pkt out (linkRelayAccountedHops (p_Hops pkt) (isLocalClientInterface x (Some src))) (next_tid pth pkt)"
      "recorded x pkt out src pth (linkRelayAccountedHops (p_Hops pkt) (isLocalClientInterface x (Some src))) t = Some t'"
      "forwardTransportPacket x pkt raw src t = Some (t', sendOnInterface x (Some i) out, True)"
proof (cases "for_us pkt t \<and> (\<exists>pth i. relay_route x pkt src t pth i)")
  case False
  then show ?thesis using unsent forwardTransportPacket_no_route by blast
next
  case True
  then obtain pth i where g: "for_us pkt t" "relay_route x pkt src t pth i" by blast
  define hops where "hops = linkRelayAccountedHops (p_Hops pkt) (isLocalClientInterface x (Some src))"
  note f = forwardTransportPacket_route [OF g, of raw, unfolded Let_def, folded hops_def]
  have i: "pa_Interface pth = Some i" and lt: "hops < MaxHops" using g(2) by (simp_all add: relay_route_def hops_def)
  show ?thesis
  proof (cases "rewriteForPath pth raw hops")
    case (Inl e)
    then show ?thesis using unsent f by simp
  next
    case (Inr bo)
    obtain buf out0 where bo: "bo = (buf, out0)" by (cases bo)
    have ht: "p_HeaderType pkt = HeaderType2" using g(1) by (simp add: for_us_def)
    have rel: "relayed_as (x_hash x) pkt out0 hops (next_tid pth pkt)" "length buf = length raw"
      using rewriteForPath_relayed [OF assms ht lt] Inr bo by (simp_all add: next_tid_def)
    let ?data = "drop (length raw - length (p_Data pkt)) buf"
    have "length (p_Data pkt) \<le> length raw" using frame_of_header [OF assms] by (metis length_append le_add2)
    then have dl: "length ?data = length (p_Data pkt)" using rel(2) by simp
    define out where "out = (if p_PacketType pkt = PacketTypeLinkReq
       then clampRelayedLinkRequestMTU out0 ?data (Some (x_MTU x src)) (Some (x_MTU x i)) else out0)"
    have fw: "forwarded_as (x_hash x) pkt out hops (next_tid pth pkt)"
      using rel(1) clamp_request_relayed [OF rel(1) dl] by (simp add: forwarded_as_def out_def)
    obtain t' where t': "recorded x pkt out src pth hops t = Some t'" using recorded_returns [OF assms fw] by metis
    have "forwardTransportPacket x pkt raw src t = Some (t', sendOnInterface x (Some i) out, True)"
      using f t' Inr bo i by (simp add: recorded_def out_def split: if_splits)
    then show ?thesis using relayed g fw t' by (simp add: hops_def)
  qed
qed

lemma forwardTransportPacket_sends:
  assumes "Unpack (x_hash x) (raw_packet raw) = Some (pkt, None)" "for_us pkt t" "relay_route x pkt src t pth i"
    "rewriteForPath pth raw (AccountInboundHops x (p_Hops pkt) (Some src)) = Inr bo" "x_enabled x i" "x_outgoing x i"
  shows "\<exists>t' out. forwardTransportPacket x pkt raw src t = Some (t', [(i, out)], True)"
  using assms(1)
proof (cases rule: forwardTransportPacket_cases [where src = src and t = t])
  case (unsent r)
  then show ?thesis
    using forwardTransportPacket_route [OF assms(2,3), of raw] assms(4-6)
    by (cases bo) (auto simp: AccountInboundHops_def Let_def send_Some split: if_splits bind_splits)
next
  case (relayed pth' i' out t')
  have "i' = i" using relayed(2) assms(3) by (simp add: relay_route_def)
  then show ?thesis using relayed(5) assms(5,6) by (simp add: send_Some)
qed

section \<open>Properties\<close>

text \<open>
  C7: what a node does with a transport packet. Handling an accepted frame always returns, and sends
  at most one frame. A frame is sent only if the packet names this node as its transport, on the
  enabled interface of the path to the destination, never on the one it came from, with the accounted
  hop count, which is below 128. The frame is accepted by the next node as the same message, with the
  next hop of the path as transport (none on the last hop); of a link request it keeps keys,
  destination and link identifier, while the signalled MTU may be lowered.
\<close>

theorem transport_packet_forwarded:
  assumes "Unpack (x_hash x) (raw_packet raw) = Some (pkt, None)"
  shows "\<exists>t' fs r. forwardTransportPacket x pkt raw src t = Some (t', fs, r)
    \<and> (fs = [] \<or> (\<exists>i out pth. fs = [(i, out)] \<and> i \<noteq> src \<and> x_enabled x i \<and> x_outgoing x i
         \<and> p_TransportID pkt = t_transportID t
         \<and> map_of (t_paths t) (pathMapKey (dest16 pkt)) = Some pth \<and> pa_Interface pth = Some i
         \<and> AccountInboundHops x (p_Hops pkt) (Some src) < MaxHops
         \<and> forwarded_as (x_hash x) pkt out (AccountInboundHops x (p_Hops pkt) (Some src)) (next_tid pth pkt)))"
  using assms
proof (cases rule: forwardTransportPacket_cases [where src = src and t = t])
  case (relayed pth i out t')
  then show ?thesis
    using send_cases [of x "Some i" out] by (fastforce simp: for_us_def relay_route_def AccountInboundHops_def)
qed blast

definition sample_ctx :: relay_ctx where
  "sample_ctx = \<lparr> x_hash = sample_hash, x_now = 100, x_rank = (\<lambda>_. 0), x_enabled = (\<lambda>_. True), x_outgoing = (\<lambda>_. True),
     x_localClient = (\<lambda>i. i = 9), x_MTU = (\<lambda>_. 500), x_bitrate = (\<lambda>_. 1000), x_gravity = (\<lambda>_. 0), x_verify = (\<lambda>_ _ _. True) \<rparr>"

definition sample_config :: relay_config where
  "sample_config = \<lparr> c_EnableTransport = True, c_ConnectedToSharedInstance = False, c_AllowLinkPathRebalanceSet = False,
     c_AllowLinkPathRebalance = False \<rparr>"

definition sample_path :: path where
  "sample_path = \<lparr> pa_Interface = Some 2, pa_NextHop = replicate 16 8, pa_Hops = 2, pa_HopCount = 2, pa_LastUpdated = 0 \<rparr>"

definition sample_transport :: transport where
  "sample_transport = \<lparr> t_config = Some sample_config, t_transportID = Some (replicate 16 7),
     t_paths = [(pathMapKey (replicate 16 9), sample_path)], t_destinations = [], t_links = [], t_linkTable = [],
     t_reverseTable = [], t_packetHashes = newPacketHashList 10, t_rebalanceByDest = [], t_ifacePenalties = [],
     t_known = \<lparr> kd_dests = [], kd_meta = [], kd_maxEntries = 0, kd_ratchets = [] \<rparr> \<rparr>"

definition sample_pkt :: packet where
  "sample_pkt = decoded sample_hash (raw_packet sample_frame) 0xD0 3 (Some (replicate 16 7)) (replicate 16 9) 0 [1, 2, 3]"

lemma sample_pkt_unpacks: "Unpack (x_hash sample_ctx) (raw_packet sample_frame) = Some (sample_pkt, None)"
  using sample_frame_unpacks by (simp add: sample_ctx_def sample_pkt_def)

lemma sample_route:
  "for_us sample_pkt sample_transport" "relay_route sample_ctx sample_pkt 1 sample_transport sample_path 2"
  by (simp_all add: for_us_def relay_route_def sample_pkt_def sample_transport_def sample_config_def sample_ctx_def sample_path_def
      dest16_def mayRelayForSharedInstanceClient_def transportEnabled_def isLocalClientInterface_def
      linkRelayAccountedHops_def MaxHops_def packet_consts)

lemma sample_hops: "AccountInboundHops sample_ctx (p_Hops sample_pkt) (Some 1) = 4"
  by (simp add: AccountInboundHops_def isLocalClientInterface_def sample_ctx_def linkRelayAccountedHops_def sample_pkt_def)

lemma sample_forwarded:
  "\<exists>t' out. forwardTransportPacket sample_ctx sample_pkt sample_frame 1 sample_transport = Some (t', [(2, out)], True)"
proof -
  have "\<exists>bo. rewriteForPath sample_path sample_frame (AccountInboundHops sample_ctx (p_Hops sample_pkt) (Some 1)) = Inr bo"
    by (simp add: sample_hops rewriteForPath_def rebuildHeaderType2_def sample_path_def sample_frame_def Let_def)
  then show ?thesis
    using forwardTransportPacket_sends [OF sample_pkt_unpacks sample_route] by (auto simp: sample_ctx_def)
qed

theorem transport_packet_forwarded_witness:
  "\<exists>t' out. forwardTransportPacket sample_ctx sample_pkt sample_frame 1 sample_transport = Some (t', [(2, out)], True)
     \<and> forwarded_as sample_hash sample_pkt out 4 (Some (replicate 16 8))"
proof -
  have p: "map_of (t_paths sample_transport) (pathMapKey (dest16 sample_pkt)) = Some sample_path"
    using sample_route(2) by (simp add: relay_route_def)
  have n: "next_tid sample_path sample_pkt = Some (replicate 16 8)" "x_hash sample_ctx = sample_hash"
    by (simp_all add: next_tid_def sample_path_def sample_ctx_def)
  from transport_packet_forwarded [OF sample_pkt_unpacks, of 1 sample_transport] sample_forwarded
  show ?thesis unfolding p sample_hops n by (auto simp: n)
qed

end
