(* ===== verification/Relay_Sessions.thy ===== *)
theory Relay_Sessions
  imports Relay
begin

text \<open>
  Exchanges through a relay: what the entries a node records while forwarding one packet do for the
  packets that follow. Sequences of forwarding steps are bounded by the hop limit, the two sides of a
  link reach each other through the link table, receipt proofs return over the reverse table once,
  and a link in transit is validated only by a signed proof.
\<close>

section \<open>Chains of relays\<close>

text \<open>
  A frame on its way: every step is one node, with any state, receiving the frame from the network
  (not from a local client) and transmitting the next frame.
\<close>

inductive relay_chain :: "hashfn \<Rightarrow> bytes \<Rightarrow> nat \<Rightarrow> bytes \<Rightarrow> bool" for H where
  sent: "relay_chain H raw 0 raw"
| hop: "relay_chain H raw (Suc n) out"
    if "relay_chain H raw n mid" "x_hash x = H" "Unpack H (raw_packet mid) = Some (pkt, None)"
      "\<not> x_localClient x src" "forwardTransportPacket x pkt mid src t = Some (t', fs, r)" "(i, out) \<in> set fs"

lemma unpacked_hops: "Unpack H (raw_packet raw) = Some (p, None) \<Longrightarrow> unat (p_Hops p) < 128"
  by (erule Unpack_shape) (simp_all del: drop_bit_and)

lemma forward_step_hops:
  assumes "Unpack (x_hash x) (raw_packet raw) = Some (pkt, None)" "\<not> x_localClient x src"
    "forwardTransportPacket x pkt raw src t = Some (t', fs, r)" "(i, out) \<in> set fs"
  obtains q where "Unpack (x_hash x) (raw_packet out) = Some (q, None)" "unat (p_Hops q) = unat (p_Hops pkt) + 1"
    "p_DestinationHash q = p_DestinationHash pkt" "unat (p_Hops q) < 128"
  using assms(1)
proof (cases rule: forwardTransportPacket_cases [where src = src and t = t])
  case (unsent r)
  then show ?thesis using assms by simp
next
  case (relayed pth j out' t'')
  have h: "unat (p_Hops pkt) < 128" using unpacked_hops [OF assms(1)] .
  have acc: "linkRelayAccountedHops (p_Hops pkt) (isLocalClientInterface x (Some src)) = p_Hops pkt + 1"
    using assms(2) h by (simp add: linkRelayAccountedHops_def isLocalClientInterface_def word_less_nat_alt)
  have "out = out'" using assms(3,4) relayed(5) send_mem [of i out x "Some j" out'] by simp
  then obtain q where q: "Unpack (x_hash x) (raw_packet out) = Some (q, None)" "p_Hops q = p_Hops pkt + 1"
    "p_DestinationHash q = p_DestinationHash pkt"
    using forwarded_unpacks [OF relayed(3)] acc by metis
  moreover have "unat (p_Hops pkt + 1) = unat (p_Hops pkt) + 1" using h by (simp add: unat_word_ariths)
  moreover have "unat (p_Hops q) < 128"
    using relayed(2) acc q(2) by (simp add: relay_route_def MaxHops_unat PathfinderM_def)
  ultimately show ?thesis using that by simp
qed

section \<open>Properties\<close>



section \<open>Links through a relay\<close>

lemma recordLinkRelay_room:
  assumes "Unpack (x_hash x) (raw_packet out) = Some (q, None)" "LinkIDFromLinkRequest (x_hash x) q = Some lid"
    "length (t_linkTable t) < maxLinkRelayEntries"
  obtains e where "recordLinkRelay x out recv pth taken t = Some (t\<lparr> t_linkTable := go_put (hash16FromSlice lid) e (t_linkTable t) \<rparr>)"
    "lr_NextHopIface e = pa_Interface pth" "lr_ReceivedIface e = recv" "lr_RemainingHops e = max (uint (pa_HopCount pth)) 1"
    "lr_TakenHops e = taken"
proof -
  have "length lid = 16" using unpacked_linkid [OF assms(1)] assms(2) by auto
  then have "lid \<noteq> []" by auto
  then show ?thesis using assms that by (simp add: recordLinkRelay_def Let_def lt_put_def)
qed

text \<open>The entry a node has after it relayed a link request, with room in its table.\<close>

lemma request_recorded:
  assumes "Unpack (x_hash x) (raw_packet raw) = Some (pkt, None)" "p_PacketType pkt = PacketTypeLinkReq"
    "LinkIDFromLinkRequest (x_hash x) pkt = Some lid"
    "forwardTransportPacket x pkt raw src t = Some (t', [(dst, out)], r)" "length (t_linkTable t) < maxLinkRelayEntries"
  obtains e pth where "lt_get lid (t_linkTable t') = Some e" "t_config t' = t_config t"
    "relay_route x pkt src t pth dst" "lr_NextHopIface e = Some dst" "lr_ReceivedIface e = Some src"
    "lr_RemainingHops e = max (uint (pa_HopCount pth)) 1" "lr_TakenHops e = uint (AccountInboundHops x (p_Hops pkt) (Some src))"
  using assms(1)
proof (cases rule: forwardTransportPacket_cases [where src = src and t = t])
  case (unsent r)
  then show ?thesis using assms(4) by simp
next
  case (relayed pth i out' t'')
  have snd: "sendOnInterface x (Some i) out' = [(dst, out)]" and eq3: "t'' = t'" using assms(4) relayed(5) by simp_all
  have eq: "i = dst" "out' = out" using send_mem [of dst out x "Some i" out'] unfolding snd by simp_all
  obtain q where q: "Unpack (x_hash x) (raw_packet out) = Some (q, None)" "LinkIDFromLinkRequest (x_hash x) q = Some lid"
    using forwarded_unpacks [OF relayed(3)] eq assms(3) by metis
  have i: "pa_Interface pth = Some dst" using relayed(2) eq by (simp add: relay_route_def)
  let ?hops = "AccountInboundHops x (p_Hops pkt) (Some src)"
  obtain e where e: "recordLinkRelay x out (Some src) pth (uint ?hops) t
        = Some (t\<lparr> t_linkTable := go_put (hash16FromSlice lid) e (t_linkTable t) \<rparr>)"
    "lr_NextHopIface e = pa_Interface pth" "lr_ReceivedIface e = Some src" "lr_RemainingHops e = max (uint (pa_HopCount pth)) 1"
    "lr_TakenHops e = uint ?hops"
    by (rule recordLinkRelay_room [OF q assms(5)])
  have "t' = t\<lparr> t_linkTable := go_put (hash16FromSlice lid) e (t_linkTable t) \<rparr>"
    using relayed(4) e(1) assms(2) eq eq3 by (simp add: recorded_def AccountInboundHops_def)
  then show ?thesis using that [of e pth] relayed(2) eq e(2-5) i by (simp add: lt_get_def get_put)
qed

lemma forwardLinkData_entry:
  assumes "Unpack H (raw_packet raw) = Some (q, None)" "length lid = 16" "lt_get lid (t_linkTable t) = Some e" "transportEnabled t"
  shows "forwardLinkData x lid raw i t =
     (case linkOutIface e i (AccountInboundHops x (p_Hops q) (Some i)) of
        Inl _ \<Rightarrow> Some (t, [], True)
      | Inr outIface \<Rightarrow>
          if (case outIface of None \<Rightarrow> True | Some i \<Rightarrow> \<not> x_enabled x i) then Some (t, [], True)
          else Some (t\<lparr> t_linkTable := lt_touch (x_now x) lid (t_linkTable t) \<rparr>,
                     sendOnInterface x outIface (rewriteHopsOnly raw (AccountInboundHops x (p_Hops q) (Some i))), True))"
proof -
  have "18 \<le> length raw \<and> go_index raw 1 = Some (p_Hops q)"
    using assms(1) by (cases rule: Unpack_shape) (simp_all add: go_index_def del: drop_bit_and)
  moreover have acc: "AccountInboundHops x h (Some i) = linkRelayAccountedHops h (isLocalClientInterface x (Some i))" for h
    by (simp add: AccountInboundHops_def)
  ultimately show ?thesis using assms(2-4) unfolding forwardLinkData_def acc
    by (simp add: mayRelayForSharedInstanceClient_def Let_def)
qed

text \<open>
  C8: the two ends of a link reach each other through a relay. After a node relayed a link request
  from \<open>src\<close> to \<open>dst\<close>, a packet for that link that arrives from \<open>dst\<close> with the hop count of the path is
  sent to \<open>src\<close>, one that arrives from \<open>src\<close> with the hop count of the request is sent to \<open>dst\<close>, and
  nothing else is sent: a packet from another interface or with another hop count is dropped. The
  relayed packet is the same message with the accounted hop count.
\<close>

theorem link_relayed_both_ways:
  assumes "Unpack (x_hash x) (raw_packet raw) = Some (pkt, None)" "p_PacketType pkt = PacketTypeLinkReq"
    "LinkIDFromLinkRequest (x_hash x) pkt = Some lid"
    "forwardTransportPacket x pkt raw src t = Some (t', [(dst, out)], r)" "length (t_linkTable t) < maxLinkRelayEntries"
    "transportEnabled t" "x_enabled x src" "x_outgoing x src" "x_enabled x dst" "x_outgoing x dst"
    "Unpack (x_hash x) (raw_packet raw2) = Some (q, None)" "p_DestinationHash q = lid"
  shows "\<exists>pth. map_of (t_paths t) (pathMapKey (dest16 pkt)) = Some pth
    \<and> (\<forall>i. \<exists>t''. forwardLinkData x (p_DestinationHash q) raw2 i t' =
         (let hops = AccountInboundHops x (p_Hops q) (Some i) in
          if i = dst \<and> uint hops = max (uint (pa_HopCount pth)) 1 then Some (t'', [(src, rewriteHopsOnly raw2 hops)], True)
          else if i = src \<and> hops = AccountInboundHops x (p_Hops pkt) (Some src)
          then Some (t'', [(dst, rewriteHopsOnly raw2 hops)], True)
          else Some (t', [], True)))
    \<and> (\<forall>hops < MaxHops. relayed_as (x_hash x) q (rewriteHopsOnly raw2 hops) hops (p_TransportID q))"
proof -
  obtain e pth where e: "lt_get lid (t_linkTable t') = Some e" "t_config t' = t_config t"
    "relay_route x pkt src t pth dst" "lr_NextHopIface e = Some dst" "lr_ReceivedIface e = Some src"
    "lr_RemainingHops e = max (uint (pa_HopCount pth)) 1" "lr_TakenHops e = uint (AccountInboundHops x (p_Hops pkt) (Some src))"
    using request_recorded [OF assms(1-5)] by metis
  have lid: "length lid = 16" using unpacked_linkid [OF assms(1)] assms(3) by auto
  have en: "transportEnabled t'" using assms(6) e(2) by (simp add: transportEnabled_def)
  have ne: "dst \<noteq> src" using e(3) by (auto simp: relay_route_def)
  have u: "uint a = uint b \<longleftrightarrow> a = b" for a b :: byte by (simp add: word_uint_eq_iff)
  note f = forwardLinkData_entry [OF assms(11) lid e(1) en, of x]
  have "\<exists>t''. forwardLinkData x (p_DestinationHash q) raw2 i t' =
         (let hops = AccountInboundHops x (p_Hops q) (Some i) in
          if i = dst \<and> uint hops = max (uint (pa_HopCount pth)) 1 then Some (t'', [(src, rewriteHopsOnly raw2 hops)], True)
          else if i = src \<and> hops = AccountInboundHops x (p_Hops pkt) (Some src)
          then Some (t'', [(dst, rewriteHopsOnly raw2 hops)], True)
          else Some (t', [], True))" for i
  proof (cases "i = dst \<or> i = src")
    case True
    then show ?thesis using f [of i] e(4-7) ne assms(7-10) unfolding assms(12) Let_def
      by (cases "i = dst") (simp_all add: linkOutIface_def send_Some u)
  next
    case False
    then show ?thesis using f [of i] e(4-7) ne unfolding assms(12) by (simp add: linkOutIface_def)
  qed
  then show ?thesis using e(3) hops_relayed [OF assms(11)] by (auto simp: relay_route_def MaxHops_unat)
qed

text \<open>A link request over two hops and a data packet for its link.\<close>

definition sample_request :: bytes where
  "sample_request = [0x52, 3] @ replicate 16 7 @ replicate 16 9 @ [0] @ replicate 64 5"

definition sample_request_pkt :: packet where
  "sample_request_pkt = decoded sample_hash (raw_packet sample_request) 0x52 3 (Some (replicate 16 7)) (replicate 16 9) 0 (replicate 64 5)"

definition sample_linkID :: bytes where
  "sample_linkID = the (LinkIDFromLinkRequest sample_hash sample_request_pkt)"

lemma sample_request_unpacks: "Unpack (x_hash sample_ctx) (raw_packet sample_request) = Some (sample_request_pkt, None)"
  unfolding sample_request_pkt_def sample_ctx_def
  by (simp del: drop_bit_and) (rule Unpack_HT2, simp_all add: sample_request_def packet_consts)

lemma sample_link: "LinkIDFromLinkRequest (x_hash sample_ctx) sample_request_pkt = Some sample_linkID" "length sample_linkID = 16"
  using unpacked_linkid [OF sample_request_unpacks] by (auto simp: sample_linkID_def sample_ctx_def)

lemma sample_request_forwarded:
  "\<exists>t' out. forwardTransportPacket sample_ctx sample_request_pkt sample_request 1 sample_transport = Some (t', [(2, out)], True)"
proof -
  have r: "for_us sample_request_pkt sample_transport" "relay_route sample_ctx sample_request_pkt 1 sample_transport sample_path 2"
    by (simp_all add: for_us_def relay_route_def sample_request_pkt_def sample_transport_def sample_config_def sample_ctx_def
        sample_path_def dest16_def mayRelayForSharedInstanceClient_def transportEnabled_def isLocalClientInterface_def
        linkRelayAccountedHops_def MaxHops_def packet_consts)
  obtain bo where "rewriteForPath sample_path sample_request (AccountInboundHops sample_ctx (p_Hops sample_request_pkt) (Some 1)) = Inr bo"
    by (simp add: rewriteForPath_def rebuildHeaderType2_def sample_path_def sample_request_def Let_def)
  from forwardTransportPacket_sends [OF sample_request_unpacks r this] show ?thesis by (simp add: sample_ctx_def)
qed

definition sample_link_data :: bytes where
  "sample_link_data = [0x0C, 1] @ sample_linkID @ [0] @ [1, 2]"

lemma sample_link_data_unpacks:
  "Unpack (x_hash sample_ctx) (raw_packet sample_link_data)
     = Some (decoded sample_hash (raw_packet sample_link_data) 0x0C 1 None sample_linkID 0 [1, 2], None)"
  unfolding sample_ctx_def
  by (simp del: drop_bit_and) (rule Unpack_HT1, simp_all add: sample_link_data_def sample_link packet_consts)

theorem link_relayed_both_ways_witness:
  "\<exists>t' out t''. forwardTransportPacket sample_ctx sample_request_pkt sample_request 1 sample_transport = Some (t', [(2, out)], True)
     \<and> forwardLinkData sample_ctx sample_linkID sample_link_data 2 t' = Some (t'', [(1, rewriteHopsOnly sample_link_data 2)], True)
     \<and> forwardLinkData sample_ctx sample_linkID sample_link_data 3 t' = Some (t', [], True)"
proof -
  obtain t' out where f: "forwardTransportPacket sample_ctx sample_request_pkt sample_request 1 sample_transport = Some (t', [(2, out)], True)"
    using sample_request_forwarded by blast
  have h: "AccountInboundHops sample_ctx 1 (Some 2) = 2" "uint (2 :: byte) = 2"
    by (simp_all add: AccountInboundHops_def isLocalClientInterface_def sample_ctx_def linkRelayAccountedHops_def)
  have p: "map_of (t_paths sample_transport) (pathMapKey (dest16 sample_request_pkt)) = Some sample_path"
    by (simp add: sample_transport_def sample_request_pkt_def dest16_def)
  have c: "p_PacketType sample_request_pkt = PacketTypeLinkReq" "length (t_linkTable sample_transport) < maxLinkRelayEntries"
    "transportEnabled sample_transport" "x_enabled sample_ctx i" "x_outgoing sample_ctx i" for i
    by (simp_all add: sample_request_pkt_def packet_consts PacketTypeLinkReq_def sample_transport_def maxLinkRelayEntries_def transportEnabled_def
        sample_config_def sample_ctx_def)
  let ?q = "decoded sample_hash (raw_packet sample_link_data) 0x0C 1 None sample_linkID 0 [1, 2]"
  have q: "p_DestinationHash ?q = sample_linkID" "p_Hops ?q = 1" by simp_all
  have all: "\<exists>t''. forwardLinkData sample_ctx sample_linkID sample_link_data i t' =
      (let hops = AccountInboundHops sample_ctx 1 (Some i) in
       if i = 2 \<and> uint hops = max (uint (pa_HopCount sample_path)) 1 then Some (t'', [(1, rewriteHopsOnly sample_link_data hops)], True)
       else if i = 1 \<and> hops = AccountInboundHops sample_ctx (p_Hops sample_request_pkt) (Some 1)
       then Some (t'', [(2, rewriteHopsOnly sample_link_data hops)], True)
       else Some (t', [], True))" for i
    using link_relayed_both_ways [OF sample_request_unpacks c(1) sample_link(1) f c(2,3) c(4,5) c(4,5) sample_link_data_unpacks q(1)]
    unfolding q p by blast
  have "pa_HopCount sample_path = 2" by (simp add: sample_path_def)
  then show ?thesis using f all [of 2] all [of 3] h by (auto simp: Let_def)
qed

section \<open>Receipt proofs\<close>

lemma unpacked_hash: "Unpack H (raw_packet raw) = Some (p, None) \<Longrightarrow> length (p_PacketHash p) = 32"
  by (erule Unpack_shape) (simp_all add: decoded_def Let_def)

lemma unpacked_same_hops:
  assumes "Unpack H (raw_packet raw) = Some (q, None)"
  shows "rewriteHopsOnly (p_Raw q) (p_Hops q) = raw" "length (p_DestinationHash q) = 16"
  using assms hops_frame(1) by (auto elim!: Unpack_shape simp del: drop_bit_and)

text \<open>The reverse entry a node has after it relayed a packet that can be proved.\<close>

lemma reverse_recorded:
  assumes "Unpack (x_hash x) (raw_packet raw) = Some (pkt, None)"
    "p_PacketType pkt \<noteq> PacketTypeLinkReq" "p_PacketType pkt \<noteq> PacketTypeAnnounce"
    "forwardTransportPacket x pkt raw src t = Some (t', [(dst, out)], r)"
    "wf_map (t_reverseTable t)" "length (t_reverseTable t) \<le> maxReverseEntries"
  defines "th \<equiv> take 16 (p_PacketHash pkt)"
  defines "e \<equiv> \<lparr> rv_ReceivedIface = Some src, rv_OutboundIface = Some dst, rv_Timestamp = x_now x \<rparr>"
  shows "rt_get th (t_reverseTable t') = Some e" "t_config t' = t_config t"
proof -
  from assms(1) have "recordReverseEntry x pkt (Some src) (Some dst) t = Some t'"
  proof (cases rule: forwardTransportPacket_cases [where src = src and t = t])
    case (unsent r)
    then show ?thesis using assms(4) by simp
  next
    case (relayed pth i out' t'')
    have snd: "sendOnInterface x (Some i) out' = [(dst, out)]" and eq: "t'' = t'" using assms(4) relayed(5) by simp_all
    have "i = dst" using send_mem [of dst out x "Some i" out'] unfolding snd by simp
    then have "pa_Interface pth = Some dst" using relayed(2) by (simp add: relay_route_def)
    then show ?thesis using relayed(4) assms(2,3) eq by (simp add: recorded_def)
  qed
  moreover have "TruncatedHash (x_hash x) pkt = Some (pkt, th)"
    using Unpack_hashValid [OF assms(1)] unpacked_hash [OF assms(1)]
    by (simp add: TruncatedHash_def GetHash_def TruncatedHashLength_def th_def)
  moreover have "length th = 16" using unpacked_hash [OF assms(1)] by (simp add: th_def)
  ultimately have t': "t' = t\<lparr> t_reverseTable := rt_insert (x_rank x) (hash16FromSlice th) e (t_reverseTable t) \<rparr>" "th \<noteq> []"
    by (auto simp: recordReverseEntry_def rt_put_def e_def split: if_splits)
  then show "rt_get th (t_reverseTable t') = Some e" "t_config t' = t_config t"
    using reverse.insert_found [OF assms(5,6)] by (simp_all add: rt_get_def)
qed

text \<open>
  C13: a receipt proof returns once. After a node relayed a packet from \<open>src\<close> to \<open>dst\<close>, a proof
  addressed to the packet's truncated hash that arrives from \<open>dst\<close> is transmitted, byte for byte, on
  \<open>src\<close>, and no further proof for the packet is relayed after it. A proof that arrives from any other
  interface is dropped, and does not consume the entry the real proof needs.
\<close>

theorem receipt_proof_returns_once:
  assumes "Unpack (x_hash x) (raw_packet raw) = Some (pkt, None)"
    "p_PacketType pkt \<noteq> PacketTypeLinkReq" "p_PacketType pkt \<noteq> PacketTypeAnnounce"
    "forwardTransportPacket x pkt raw src t = Some (t', [(dst, out)], r)"
    "wf_map (t_reverseTable t)" "length (t_reverseTable t) \<le> maxReverseEntries"
    "transportEnabled t" "x_enabled x src" "x_outgoing x src"
    "Unpack (x_hash x) (raw_packet raw2) = Some (q, None)" "p_DestinationHash q = take 16 (p_PacketHash pkt)"
  shows "(\<forall>i. i \<noteq> dst \<longrightarrow> forwardReverseProof x q i t' = Some (t', [], True))
    \<and> (\<exists>t''. forwardReverseProof x q dst t' = Some (t'', [(src, raw2)], True)
         \<and> (\<forall>i. forwardReverseProof x q i t'' = Some (t'', [], False)))"
proof -
  let ?th = "take 16 (p_PacketHash pkt)"
  let ?e = "\<lparr> rv_ReceivedIface = Some src, rv_OutboundIface = Some dst, rv_Timestamp = x_now x \<rparr>"
  have e: "rt_get ?th (t_reverseTable t') = Some ?e" "t_config t' = t_config t" by (rule reverse_recorded [OF assms(1-6)])+
  have en: "transportEnabled t'" using assms(7) e(2) by (simp add: transportEnabled_def)
  have d: "dest16 q = ?th" "?th \<noteq> []" using assms(11) unpacked_hash [OF assms(1)] by (auto simp: dest16_def)
  let ?rt = "fst (rt_pop_key (hash16FromSlice ?th) (t_reverseTable t'))"
  have pop: "rt_pop ?th (t_reverseTable t') = (?rt, Some ?e)"
    using e(1) d(2) reverse.pop_value [of "hash16FromSlice ?th" "t_reverseTable t'"]
    by (auto simp: rt_pop_def rt_get_def split: if_splits intro: prod_eqI)
  have gone: "rt_get ?th ?rt = None" using reverse.pop_get by (simp add: rt_get_def)
  have "forwardReverseProof x q i t' = Some (t', [], True)" if "i \<noteq> dst" for i
    using that e(1) en d(1) by (simp add: forwardReverseProof_def)
  moreover have "forwardReverseProof x q dst t' = Some (t'\<lparr> t_reverseTable := ?rt \<rparr>, [(src, raw2)], True)"
    using e(1) en d(1) pop assms(8,9) unpacked_same_hops(1) [OF assms(10)]
    by (simp add: forwardReverseProof_def send_Some Let_def)
  moreover have "forwardReverseProof x q i (t'\<lparr> t_reverseTable := ?rt \<rparr>) = Some (t'\<lparr> t_reverseTable := ?rt \<rparr>, [], False)" for i
    using gone d(1) by (simp add: forwardReverseProof_def)
  ultimately show ?thesis by blast
qed

definition sample_proof :: bytes where
  "sample_proof = [0x03, 1] @ take 16 (p_PacketHash sample_pkt) @ [0] @ replicate 64 1"

theorem receipt_proof_returns_once_witness:
  "\<exists>t' out q t''. forwardTransportPacket sample_ctx sample_pkt sample_frame 1 sample_transport = Some (t', [(2, out)], True)
     \<and> Unpack sample_hash (raw_packet sample_proof) = Some (q, None)
     \<and> forwardReverseProof sample_ctx q 2 t' = Some (t'', [(1, sample_proof)], True)"
proof -
  obtain t' out where f: "forwardTransportPacket sample_ctx sample_pkt sample_frame 1 sample_transport = Some (t', [(2, out)], True)"
    using sample_forwarded by blast
  have l: "length (take 16 (p_PacketHash sample_pkt)) = 16" using unpacked_hash [OF sample_pkt_unpacks] by simp
  have u: "Unpack (x_hash sample_ctx) (raw_packet sample_proof)
      = Some (decoded (x_hash sample_ctx) (raw_packet sample_proof) 0x03 1 None (take 16 (p_PacketHash sample_pkt)) 0 (replicate 64 1), None)"
    by (rule Unpack_HT1) (use l in \<open>simp_all add: sample_proof_def packet_consts\<close>)
  have c: "p_PacketType sample_pkt \<noteq> PacketTypeLinkReq" "p_PacketType sample_pkt \<noteq> PacketTypeAnnounce"
    "wf_map (t_reverseTable sample_transport)" "length (t_reverseTable sample_transport) \<le> maxReverseEntries"
    "transportEnabled sample_transport" "x_enabled sample_ctx 1" "x_outgoing sample_ctx 1"
    by (simp_all add: sample_pkt_def packet_consts PacketTypeLinkReq_def PacketTypeAnnounce_def sample_transport_def
        transportEnabled_def sample_config_def sample_ctx_def)
  have h: "x_hash sample_ctx = sample_hash" by (simp add: sample_ctx_def)
  show ?thesis
    using receipt_proof_returns_once [OF sample_pkt_unpacks c(1,2) f c(3-7) u] f u unfolding h by auto
qed

section \<open>Link request proofs in transit\<close>

text \<open>
  What a proof has to be: of the right length, and signed over the link identifier by the identity
  known for the destination the link was requested from.
\<close>

definition lrproof_valid :: "relay_ctx \<Rightarrow> known \<Rightarrow> bytes \<Rightarrow> bytes \<Rightarrow> bytes \<Rightarrow> bool" where
  "lrproof_valid x kn linkID data destHash \<longleftrightarrow>
     lrproof_lengths data
     \<and> (\<exists>e pub ver. map_of (kd_dests kn) (knownDestKey destHash) = Some e \<and> k_id e = Some (pub, ver)
          \<and> x_verify x ver (lrproof_signed linkID data (take 32 (drop 32 (fixed 64 (pub @ ver))))) (take 64 data))"

lemma Touch_dests: "kd_dests (TouchKnownDestination now h s) = kd_dests s"
  by (simp add: TouchKnownDestination_def Let_def split: option.splits)

lemma Recall_spec:
  "kd_dests (fst (Recall now h s)) = kd_dests s"
  "snd (Recall now h s) = Some i \<longleftrightarrow> (\<exists>e. map_of (kd_dests s) (knownDestKey h) = Some e \<and> k_id e = Some i)"
  by (auto simp: Recall_def Touch_dests split: option.splits)

lemma lrproof_check_frame:
  obtains kn where "fst (lrproof_check x linkID data destHash t) = t\<lparr> t_known := kn \<rparr>" "kd_dests kn = kd_dests (t_known t)"
proof (cases "lrproof_lengths data")
  case True
  have "fst (lrproof_check x linkID data destHash t) = t\<lparr> t_known := fst (Recall (x_now x) destHash (t_known t)) \<rparr>"
    using True by (simp add: lrproof_check_def case_prod_beta Let_def split: option.splits)
  then show ?thesis using that Recall_spec(1) by blast
next
  case False
  then show ?thesis using that [of "t_known t"] by (simp add: lrproof_check_def)
qed

lemma lrproof_check_iff: "snd (lrproof_check x linkID data destHash t) \<longleftrightarrow> lrproof_valid x (t_known t) linkID data destHash"
proof (cases "snd (Recall (x_now x) destHash (t_known t))")
  case None
  then have "\<not> (\<exists>e pub ver. map_of (kd_dests (t_known t)) (knownDestKey destHash) = Some e \<and> k_id e = Some (pub, ver))"
    using Recall_spec(2) [of "x_now x" destHash "t_known t"] by auto
  then show ?thesis using None by (auto simp: lrproof_check_def lrproof_valid_def case_prod_beta Let_def)
next
  case (Some i)
  obtain pub ver where i: "i = (pub, ver)" by (cases i)
  then obtain e where "map_of (kd_dests (t_known t)) (knownDestKey destHash) = Some e" "k_id e = Some (pub, ver)"
    using Some Recall_spec(2) by blast
  then show ?thesis using Some i by (auto simp: lrproof_check_def lrproof_valid_def case_prod_beta Let_def lrProofX25519Size_def)
qed

lemma rebalance_frame:
  "t_linkTable (fst (applyPathHopRebalance x d h i t)) = t_linkTable t"
  "t_known (fst (applyPathHopRebalance x d h i t)) = t_known t"
  by (auto simp: applyPathHopRebalance_def allowRebalanceDest_def Let_def case_prod_beta split: option.splits)

lemma tryRebalance_spec:
  fixes x :: relay_ctx and pkt :: packet and ifc :: iface and linkID :: bytes and entry :: LinkRelayEntry
    and accounted :: byte and t :: transport
  defines "r \<equiv> tryTransitLRProofRebalance x pkt ifc linkID entry accounted t"
  assumes "lt_get linkID (t_linkTable t) = Some entry"
  shows "kd_dests (t_known (fst r)) = kd_dests (t_known t)"
    "lr_NextHopIface entry = Some ifc \<and> lrproof_valid x (t_known t) linkID (p_Data pkt) (lr_DestinationHash entry)
     \<or> t_linkTable (fst r) = t_linkTable t \<and> t_paths (fst r) = t_paths t \<and> \<not> snd r"
    "t_linkTable (fst r) = t_linkTable t \<or> t_linkTable (fst r) = go_put (hash16FromSlice linkID)
        (entry\<lparr> lr_RemainingHops := uint accounted, lr_Timestamp := x_now x \<rparr>) (t_linkTable t)"
proof -
  define c where "c = lrproof_check x linkID (p_Data pkt) (lr_DestinationHash entry) t"
  define a where "a = applyPathHopRebalance x (lr_DestinationHash entry) accounted ifc (fst c)"
  define s where "s = lt_setRemainingHops (x_now x) linkID (uint accounted) (t_linkTable (fst a))"
  define skip where "skip \<longleftrightarrow> \<not> LinkPathRebalanceAllowed t \<or> Some ifc \<noteq> lr_NextHopIface entry \<or> lr_Validated entry"
  have req: "r = (if skip then (t, False) else if \<not> snd c then (fst c, False) else if \<not> snd a then (fst a, False)
     else ((fst a)\<lparr> t_linkTable := fst s \<rparr>, snd s))"
    unfolding r_def tryTransitLRProofRebalance_def skip_def c_def a_def s_def by (simp add: case_prod_beta Let_def)
  obtain kn where kn: "fst c = t\<lparr> t_known := kn \<rparr>" "kd_dests kn = kd_dests (t_known t)"
    unfolding c_def by (rule lrproof_check_frame)
  have lt: "t_linkTable (fst a) = t_linkTable t" "kd_dests (t_known (fst a)) = kd_dests (t_known t)"
    using kn by (simp_all add: a_def rebalance_frame)
  have valid: "snd c \<longleftrightarrow> lrproof_valid x (t_known t) linkID (p_Data pkt) (lr_DestinationHash entry)"
    by (simp add: c_def lrproof_check_iff)
  have s: "fst s = t_linkTable t \<or> fst s = go_put (hash16FromSlice linkID)
        (entry\<lparr> lr_RemainingHops := uint accounted, lr_Timestamp := x_now x \<rparr>) (t_linkTable t)"
    by (simp add: s_def lt lt_setRemainingHops_def assms(2))
  show "kd_dests (t_known (fst r)) = kd_dests (t_known t)" by (simp add: req kn lt)
  show "lr_NextHopIface entry = Some ifc \<and> lrproof_valid x (t_known t) linkID (p_Data pkt) (lr_DestinationHash entry)
     \<or> t_linkTable (fst r) = t_linkTable t \<and> t_paths (fst r) = t_paths t \<and> \<not> snd r"
    by (simp add: req kn valid [symmetric]) (simp add: skip_def)
  show "t_linkTable (fst r) = t_linkTable t \<or> t_linkTable (fst r) = go_put (hash16FromSlice linkID)
        (entry\<lparr> lr_RemainingHops := uint accounted, lr_Timestamp := x_now x \<rparr>) (t_linkTable t)"
    using s by (simp add: req kn lt)
qed

lemma rememberForced_frame:
  "rememberPacketHashForced x pkt t = Some t' \<Longrightarrow> t_linkTable t' = t_linkTable t \<and> t_paths t' = t_paths t"
  by (auto simp: rememberPacketHashForced_def split: if_splits bind_splits)

lemma noteSuccess_frame:
  "t_linkTable (noteIfacePathSuccess i t) = t_linkTable t" "t_paths (noteIfacePathSuccess i t) = t_paths t"
  by (auto simp: noteIfacePathSuccess_def split: option.splits)

lemma acceptLRProof_spec:
  assumes "acceptLRProof x pkt ifc linkID entry accounted t = Some (t', fs, r)" "lt_get linkID (t_linkTable t) = Some entry"
  shows "t_paths t' = t_paths t"
    "(t_linkTable t' = t_linkTable t \<and> fs = [])
     \<or> lr_NextHopIface entry = Some ifc \<and> lrproof_valid x (t_known t) linkID (p_Data pkt) (lr_DestinationHash entry)
       \<and> t_linkTable t' = go_put (hash16FromSlice linkID) (entry\<lparr> lr_Validated := True, lr_Timestamp := x_now x \<rparr>) (t_linkTable t)
       \<and> set fs \<subseteq> {(i, rewriteHopsOnly (p_Raw pkt) accounted) | i. lr_ReceivedIface entry = Some i}"
proof -
  let ?c = "lrproof_check x linkID (p_Data pkt) (lr_DestinationHash entry) t"
  let ?lt = "go_put (hash16FromSlice linkID) (entry\<lparr> lr_Validated := True, lr_Timestamp := x_now x \<rparr>) (t_linkTable t)"
  obtain kn where kn: "fst ?c = t\<lparr> t_known := kn \<rparr>" by (rule lrproof_check_frame)
  have m: "lt_markValidated (x_now x) linkID (t_linkTable (fst ?c)) = (?lt, True)"
    using assms(2) by (simp add: lt_markValidated_def kn)
  let ?t = "(fst ?c)\<lparr> t_linkTable := ?lt \<rparr>"
  let ?down = "case lr_ReceivedIface entry of None \<Rightarrow> True | Some i \<Rightarrow> \<not> x_enabled x i"
  have a: "acceptLRProof x pkt ifc linkID entry accounted t =
     (if Some ifc \<noteq> lr_NextHopIface entry then Some (t, [], True) else if \<not> snd ?c then Some (fst ?c, [], True)
      else if ?down then Some (?t, [], True)
      else do { t1 \<leftarrow> rememberPacketHashForced x pkt ?t;
        Some (noteIfacePathSuccess ifc t1, sendOnInterface x (lr_ReceivedIface entry) (rewriteHopsOnly (p_Raw pkt) accounted), True) })"
    unfolding acceptLRProof_def by (simp add: case_prod_beta Let_def m)
  consider "t' = t" "fs = []" | "\<not> snd ?c" "t' = fst ?c" "fs = []"
    | "lr_NextHopIface entry = Some ifc" "snd ?c" "t' = (fst ?c)\<lparr> t_linkTable := ?lt \<rparr>" "fs = []"
    | t1 where "lr_NextHopIface entry = Some ifc" "snd ?c" "rememberPacketHashForced x pkt ((fst ?c)\<lparr> t_linkTable := ?lt \<rparr>) = Some t1"
      "t' = noteIfacePathSuccess ifc t1" "fs = sendOnInterface x (lr_ReceivedIface entry) (rewriteHopsOnly (p_Raw pkt) accounted)"
    using assms(1) unfolding a
    by (cases "Some ifc = lr_NextHopIface entry"; cases "snd ?c"; cases ?down) (auto split: bind_splits)
  note cs = this
  show "t_paths t' = t_paths t" using cs by cases (auto simp: kn noteSuccess_frame dest!: rememberForced_frame)
  show "(t_linkTable t' = t_linkTable t \<and> fs = [])
     \<or> lr_NextHopIface entry = Some ifc \<and> lrproof_valid x (t_known t) linkID (p_Data pkt) (lr_DestinationHash entry)
       \<and> t_linkTable t' = ?lt
       \<and> set fs \<subseteq> {(i, rewriteHopsOnly (p_Raw pkt) accounted) | i. lr_ReceivedIface entry = Some i}"
    using cs by cases (auto simp: kn noteSuccess_frame lrproof_check_iff dest!: rememberForced_frame send_mem)
qed


text \<open>A shared instance whose local client requested a link, and the proof of the link.\<close>

definition sample_shared :: transport where
  "sample_shared = sample_transport\<lparr>
     t_config := Some (sample_config\<lparr> c_ConnectedToSharedInstance := True \<rparr>),
     t_linkTable := [(hash16FromSlice (replicate 16 7), (sample_relay False)\<lparr> lr_ReceivedIface := Some 9 \<rparr>)],
     t_known := (t_known sample_transport)\<lparr> kd_dests :=
       [(knownDestKey (replicate 16 9), \<lparr> k_pkt = [], k_hash = replicate 16 9, k_id = Some (replicate 32 1, replicate 32 2), k_app = [] \<rparr>)] \<rparr> \<rparr>"

definition sample_lrproof :: packet where
  "sample_lrproof = (raw_packet ([0x0F, 1] @ replicate 16 7 @ [0xFF] @ replicate 96 1))
     \<lparr> p_DestinationHash := replicate 16 7, p_Hops := 1, p_Data := replicate 96 1 \<rparr>"


end
