(* ===== verification/Inbound.thy ===== *)
theory Inbound
  imports Relay_Sessions IFAC
begin

text \<open>
  The way of a received frame through a transport node: access codes
  (\<open>ApplyIFACInbound\<close> of \<open>pkg/common/interfaces.go\<close>), preprocessing and classification
  (\<open>pkg/transport/inbound_preprocess.go\<close>), and dispatch to the handlers for link packets, transport
  packets and proofs (\<open>packet_handler.go\<close> and \<open>transport.go\<close>) that call the relay operations.
  Announce processing, the link state machine, destinations and packet receipts are other components:
  a handler's result says which of them is handed the packet.
\<close>

section \<open>Handlers\<close>

datatype delivery =
    Nowhere
  | ToAnnounce
  | ToLinkRequest hash16
  | ToLink hash16
  | ToLinkProof hash16
  | ToDestination hash16
  | ToReceipts

type_synonym handled = "(transport \<times> frames \<times> delivery) option"

definition HeaderPacketTypeMask :: byte where "HeaderPacketTypeMask = 0x03"
definition HeaderDestTypeMask :: byte where "HeaderDestTypeMask = 0x0C"
definition HeaderDestTypeShift :: nat where "HeaderDestTypeShift = 2"
definition HeaderTypeMask :: byte where "HeaderTypeMask = 0x40"
definition HeaderTypeShift :: nat where "HeaderTypeShift = 6"
definition HeaderIFACMask :: byte where "HeaderIFACMask = 0x80"
definition HeaderIFACShift :: nat where "HeaderIFACShift = 7"
definition HeaderSize :: nat where "HeaderSize = 2"
definition AddrHashSize :: nat where "AddrHashSize = 16"
definition DoubleAddrSize :: nat where "DoubleAddrSize = 32"
definition MinTransportPacketSize :: nat where "MinTransportPacketSize = 19"
definition DestTypeSingle :: byte where "DestTypeSingle = 0"
definition DestTypeGroup :: byte where "DestTypeGroup = 1"
definition DestTypePlain :: byte where "DestTypePlain = 2"
definition DestTypeLink :: byte where "DestTypeLink = 3"
definition PacketTypeLink :: byte where "PacketTypeLink = 2"

lemmas wire_consts = HeaderPacketTypeMask_def HeaderDestTypeMask_def HeaderDestTypeShift_def HeaderTypeMask_def
  HeaderTypeShift_def HeaderIFACMask_def HeaderIFACShift_def HeaderSize_def AddrHashSize_def DoubleAddrSize_def
  MinTransportPacketSize_def DestTypeSingle_def DestTypeGroup_def DestTypePlain_def DestTypeLink_def PacketTypeLink_def

text \<open>A nil packet is unpacked from the bytes; \<open>Some None\<close> is a packet that does not unpack.\<close>

definition given_packet :: "relay_ctx \<Rightarrow> packet option \<Rightarrow> bytes \<Rightarrow> packet option option" where
  "given_packet x pkt data =
     (case pkt of
        Some p \<Rightarrow> Some (Some p)
      | None \<Rightarrow> do { (p, err) \<leftarrow> Unpack (x_hash x) (raw_packet data); Some (if err = None then Some p else None) })"

text \<open>The filter and the remembering of the packet hash at the start of every handler.\<close>

definition admitted :: "relay_ctx \<Rightarrow> packet \<Rightarrow> transport \<Rightarrow> transport option option" where
  "admitted x pkt t = do {
     pass \<leftarrow> packetFilter x pkt t;
     if \<not> pass then Some None else do { t' \<leftarrow> maybeRememberPacketHash x pkt t; Some (Some t') } }"

definition handleLinkRequest :: "relay_ctx \<Rightarrow> bytes \<Rightarrow> packet \<Rightarrow> iface \<Rightarrow> transport \<Rightarrow> handled" where
  "handleLinkRequest x data pkt ifc t = do {
     adm \<leftarrow> admitted x pkt t;
     case adm of
       None \<Rightarrow> Some (t, [], Nowhere)
     | Some t1 \<Rightarrow> do {
         (t2, fs, fwd) \<leftarrow> forwardTransportPacket x pkt data ifc t1;
         let destKey = hash16FromSlice (dest16 pkt);
         if fwd then Some (t2, fs, Nowhere)
         else if destKey \<notin> set (t_destinations t2)
         then do { (t3, fs', _) \<leftarrow> relayBridgedLinkRequest x pkt data ifc t2; Some (t3, fs @ fs', Nowhere) }
         else Some (t2, fs, ToLinkRequest destKey) } }"

definition handleLinkData :: "relay_ctx \<Rightarrow> bytes \<Rightarrow> packet \<Rightarrow> iface \<Rightarrow> transport \<Rightarrow> handled" where
  "handleLinkData x data pkt ifc t = do {
     adm \<leftarrow> admitted x pkt t;
     case adm of
       None \<Rightarrow> Some (t, [], Nowhere)
     | Some t1 \<Rightarrow>
         (let linkKey = hash16FromSlice (dest16 pkt)
          in if linkKey \<in> set (t_links t1) then Some (t1, [], ToLink linkKey)
             else do { (t2, fs, _) \<leftarrow> forwardLinkData x (dest16 pkt) data ifc t1; Some (t2, fs, Nowhere) }) }"

definition handleLinkPacket :: "relay_ctx \<Rightarrow> bytes \<Rightarrow> packet option \<Rightarrow> iface \<Rightarrow> byte \<Rightarrow> transport \<Rightarrow> handled" where
  "handleLinkPacket x data pkt ifc packetType t = do {
     p \<leftarrow> given_packet x pkt data;
     case p of
       None \<Rightarrow> Some (t, [], Nowhere)
     | Some pkt \<Rightarrow>
         if packetType = PacketTypeLink then handleLinkRequest x data pkt ifc t else handleLinkData x data pkt ifc t }"

definition handleTransportPacket :: "relay_ctx \<Rightarrow> bytes \<Rightarrow> packet option \<Rightarrow> iface \<Rightarrow> transport \<Rightarrow> handled" where
  "handleTransportPacket x data pkt ifc t =
     (if length data < 2 then Some (t, [], Nowhere)
      else do {
        (pkt, err) \<leftarrow> Unpack (x_hash x) (case pkt of None \<Rightarrow> raw_packet data | Some p \<Rightarrow> p);
        if err \<noteq> None then Some (t, [], Nowhere)
        else do {
          adm \<leftarrow> admitted x pkt t;
          case adm of
            None \<Rightarrow> Some (t, [], Nowhere)
          | Some t1 \<Rightarrow>
              (let packetType = data ! 0 AND HeaderPacketTypeMask;
                   destType = drop_bit HeaderDestTypeShift (data ! 0 AND HeaderDestTypeMask)
               in if packetType \<noteq> PacketTypeData then Some (t1, [], Nowhere)
                  else if destType = DestTypePlain
                    \<and> (length data < MinTransportPacketSize \<or> data ! (MinTransportPacketSize - 1) = ContextPathResponse)
                  then Some (t1, [], Nowhere)
                  else do {
                    (t2, fs, fwd) \<leftarrow> forwardTransportPacket x pkt data ifc t1;
                    if fwd then Some (t2, fs, Nowhere)
                    else do {
                      (t3, fs, fwd) \<leftarrow> (if destType = DestTypeLink then forwardLinkData x (p_DestinationHash pkt) data ifc t2
                                        else Some (t2, fs, False));
                      if fwd then Some (t3, fs, Nowhere)
                      else do {
                        (t4, fs, fwd) \<leftarrow> (if destType = DestTypeSingle then forwardLocalClientPacket x pkt data ifc t3
                                          else Some (t3, fs, False));
                        let destKey = hash16FromSlice (dest16 pkt);
                        if fwd then Some (t4, fs, Nowhere)
                        else Some (t4, fs, if destKey \<in> set (t_destinations t4) then ToDestination destKey else Nowhere) } } }) } })"

definition handleProofPacket :: "relay_ctx \<Rightarrow> packet \<Rightarrow> iface \<Rightarrow> transport \<Rightarrow> handled" where
  "handleProofPacket x pkt ifc t = do {
     adm \<leftarrow> admitted x pkt t;
     case adm of
       None \<Rightarrow> Some (t, [], Nowhere)
     | Some t1 \<Rightarrow>
         (let linkKey = hash16FromSlice (dest16 pkt)
          in if p_Context pkt = ContextLRProof then
               (if linkKey \<in> set (t_links t1) then Some (t1, [], ToLinkProof linkKey)
                else do { (t2, fs, _) \<leftarrow> validateAndForwardLRProof x pkt ifc t1; Some (t2, fs, Nowhere) })
             else if p_Context pkt = ContextResourcePRF then
               (if linkKey \<in> set (t_links t1) then Some (t1, [], ToLink linkKey)
                else if length (p_Raw pkt) > 0
                then do { (t2, fs, _) \<leftarrow> forwardLinkData x (dest16 pkt) (p_Raw pkt) ifc t1; Some (t2, fs, Nowhere) }
                else Some (t1, [], Nowhere))
             else do { (t2, fs, _) \<leftarrow> forwardReverseProof x pkt ifc t1; Some (t2, fs, ToReceipts) }) }"

definition dispatchInboundPacket ::
  "relay_ctx \<Rightarrow> packet option \<Rightarrow> bytes \<Rightarrow> iface \<Rightarrow> byte \<Rightarrow> byte \<Rightarrow> transport \<Rightarrow> handled" where
  "dispatchInboundPacket x pkt payload ifc packetType destType t =
     (if packetType = PacketTypeAnnounce then Some (t, [], ToAnnounce)
      else if packetType = PacketTypeLink then handleLinkPacket x payload pkt ifc PacketTypeLink t
      else if packetType = PacketTypeProof then do {
        p \<leftarrow> given_packet x pkt payload;
        case p of None \<Rightarrow> Some (t, [], Nowhere) | Some pkt \<Rightarrow> handleProofPacket x pkt ifc t }
      else if packetType = 0 then
        (if destType = DestTypeLink then handleLinkPacket x payload pkt ifc 0 t
         else handleTransportPacket x payload pkt ifc t)
      else Some (t, [], Nowhere))"

section \<open>Preprocessing\<close>

record inbound_ctx =
  in_relay :: relay_ctx
  in_online :: "iface \<Rightarrow> bool"
  in_ifac :: "iface \<Rightarrow> ifac_identity option"
  in_announceBurst :: "iface \<Rightarrow> bool"
  in_prBurst :: "iface \<Rightarrow> bool"
  in_pathRequestDestHash :: bytes

text \<open>\<open>ApplyIFACInbound\<close>: \<open>None\<close> when the frame is refused.\<close>

definition ApplyIFACInbound :: "hashfn \<Rightarrow> ifac_identity option \<Rightarrow> bytes \<Rightarrow> bytes option" where
  "ApplyIFACInbound H ident raw =
     (if length raw < 2 then None
      else
        (let hasFlag = raw ! 0 AND 0x80 = 0x80 in
         case ident of
           None \<Rightarrow> if hasFlag then None else Some raw
         | Some i \<Rightarrow>
             if \<not> hasFlag then None
             else (case ifac_Unmask H i raw of
                     Inl _ \<Rightarrow> None
                   | Inr (stripped, valid) \<Rightarrow> if \<not> valid then None else stripped)))"

definition destinationHashFromRaw :: "bytes \<Rightarrow> bytes" where
  "destinationHashFromRaw data =
     (if length data < 2 then []
      else
        (let headerType = drop_bit HeaderTypeShift (data ! 0 AND HeaderTypeMask);
             ifacFlag = drop_bit HeaderIFACShift (data ! 0 AND HeaderIFACMask);
             start = (if ifacFlag = 1 then HeaderSize + 1 else HeaderSize);
             addrSize = (if headerType = 1 then DoubleAddrSize else AddrHashSize)
         in if length data < start + addrSize then [] else take AddrHashSize (drop start data)))"

datatype traffic_class = TCData | TCAnnounce | TCPathRequest | TCIngressLimited

definition classifyInboundTraffic :: "inbound_ctx \<Rightarrow> bytes \<Rightarrow> iface \<Rightarrow> byte \<Rightarrow> traffic_class" where
  "classifyInboundTraffic n data ifc packetType =
     (let tc = (if packetType = PacketTypeAnnounce then TCAnnounce
                else if length (in_pathRequestDestHash n) > 0 \<and> length (destinationHashFromRaw data) > 0
                  \<and> destinationHashFromRaw data = in_pathRequestDestHash n then TCPathRequest
                else TCData)
      in if tc = TCAnnounce \<and> in_announceBurst n ifc then TCIngressLimited
         else if tc = TCPathRequest \<and> in_prBurst n ifc then TCIngressLimited
         else tc)"

text \<open>\<open>parsePathRequestWire\<close>: destination, requesting transport and tag; \<open>None\<close> when too short or without a tag.\<close>

definition parsePathRequestWire :: "bytes \<Rightarrow> (bytes \<times> bytes option \<times> bytes) option" where
  "parsePathRequestWire data =
     (if length data < 16 then None
      else if length data > 32 then Some (take 16 data, Some (take 16 (drop 16 data)), take 16 (drop 32 data))
      else if length data > 16 then Some (take 16 data, None, take 16 (drop 16 data))
      else None)"

record packetJob =
  j_buf :: bytes
  j_pkt :: packet
  j_iface :: iface
  j_packetType :: byte
  j_destType :: byte
  j_headerType :: byte

text \<open>
  \<open>preprocessInboundPacket\<close>: \<open>Some None\<close> is a dropped frame. The job keeps its own copy of the
  unmasked frame.
\<close>

definition preprocessInboundPacket ::
  "inbound_ctx \<Rightarrow> bytes \<Rightarrow> iface \<Rightarrow> transport \<Rightarrow> (packetJob \<times> traffic_class) option option" where
  "preprocessInboundPacket n data ifc t =
     (let x = in_relay n in
      if length data < 2 then Some None
      else if \<not> in_online n ifc then Some None
      else case ApplyIFACInbound (x_hash x) (in_ifac n ifc) data of
        None \<Rightarrow> Some None
      | Some data \<Rightarrow>
          if x_MTU x ifc > 0 \<and> int (length data) > x_MTU x ifc + 64 then Some None
          else do {
            h \<leftarrow> go_index data 0;
            (pkt, err) \<leftarrow> Unpack (x_hash x) (raw_packet data);
            let packetType = h AND HeaderPacketTypeMask;
            let headerType = drop_bit HeaderTypeShift (h AND HeaderTypeMask);
            let destType = drop_bit HeaderDestTypeShift (h AND HeaderDestTypeMask);
            if err \<noteq> None then Some None
            else if packetType \<noteq> PacketTypeAnnounce \<and> (destType = DestTypePlain \<or> destType = DestTypeGroup)
              \<and> AccountInboundHops x (data ! 1) (Some ifc) > 1 then Some None
            else do {
              pass \<leftarrow> packetFilter x pkt t;
              let tc = classifyInboundTraffic n data ifc packetType;
              if \<not> pass then Some None
              else if packetType = PacketTypeAnnounce \<and> (destType = DestTypePlain \<or> destType = DestTypeGroup) then Some None
              else if packetType \<noteq> PacketTypeAnnounce \<and> tc = TCPathRequest \<and> parsePathRequestWire (p_Data pkt) = None
              then Some None
              else Some (Some (\<lparr> j_buf = data, j_pkt = pkt, j_iface = ifc, j_packetType = packetType, j_destType = destType,
                                 j_headerType = headerType \<rparr>, tc)) } })"

text \<open>A frame that is preprocessed and handled at once, with no other packet in between.\<close>

definition receive :: "inbound_ctx \<Rightarrow> bytes \<Rightarrow> iface \<Rightarrow> transport \<Rightarrow> handled" where
  "receive n data ifc t = do {
     pre \<leftarrow> preprocessInboundPacket n data ifc t;
     case pre of
       None \<Rightarrow> Some (t, [], Nowhere)
     | Some (job, _) \<Rightarrow>
         dispatchInboundPacket (in_relay n) (Some (j_pkt job)) (j_buf job) ifc (j_packetType job) (j_destType job) t }"

section \<open>Lemmas\<close>

text \<open>The packets the duplicate list decides about.\<close>

definition filterable :: "packet \<Rightarrow> bool" where
  "filterable pkt \<longleftrightarrow>
     p_Context pkt \<notin> {ContextKeepalive, ContextResourceReq, ContextResourcePRF, ContextResource, ContextCacheReq, ContextChannel}
     \<and> p_DestinationType pkt \<noteq> DestinationPlain \<and> p_DestinationType pkt \<noteq> DestinationGroup
     \<and> \<not> (p_PacketType pkt = PacketTypeAnnounce \<and> p_DestinationType pkt = DestinationSingle)"

lemma same_message_filterable: "same_message H p q \<Longrightarrow> filterable q = filterable p"
  by (simp add: filterable_def same_message_def)

lemma GetHash_valid: "p_hashValid p \<Longrightarrow> GetHash H p = Some (p, p_PacketHash p)"
  by (simp add: GetHash_def)

lemma packetFilter_filterable:
  assumes "filterable pkt" "\<not> connectedToShared t" "p_hashValid pkt"
  shows "packetFilter x pkt t = map_option Not (hl_seen (t_packetHashes t) (p_PacketHash pkt))"
  using assms unfolding packetFilter_def filterable_def
  by (cases "hl_seen (t_packetHashes t) (p_PacketHash pkt)") (auto simp: GetHash_valid)

lemma remembered:
  assumes "hl_history R hs (t_packetHashes t)" "\<not> connectedToShared t" "p_hashValid pkt"
    "lt_get (dest16 pkt) (t_linkTable t) = None" "\<not> (p_PacketType pkt = PacketTypeProof \<and> p_Context pkt = ContextLRProof)"
  obtains hl where "maybeRememberPacketHash x pkt t = Some (t\<lparr> t_packetHashes := hl \<rparr>)"
    "hl_history R (hs @ [p_PacketHash pkt]) hl"
proof -
  obtain hl where "hl_add (t_packetHashes t) (p_PacketHash pkt) = Some hl" "hl_history R (hs @ [p_PacketHash pkt]) hl"
    using hl_history_add [OF assms(1)] by blast
  then show ?thesis using that assms(2-5) by (auto simp: maybeRememberPacketHash_def GetHash_valid)
qed

lemma hl_history_more:
  assumes "hl_history R hs hl"
  shows "\<exists>hl'. hl_addAll hl bs = Some hl' \<and> hl_history R (hs @ bs) hl'"
  using assms
proof (induction bs arbitrary: hs hl)
  case (Cons b bs)
  obtain hl1 where "hl_add hl b = Some hl1" "hl_history R (hs @ [b]) hl1" using hl_history_add [OF Cons.prems] by blast
  then show ?case using Cons.IH [of "hs @ [b]" hl1] by auto
qed simp

lemma hl_history_seen:
  assumes "hl_history R (hs @ h # bs) hl" "h \<noteq> []" "length bs \<le> R"
  shows "hl_seen hl h = Some True"
proof -
  have inv: "hl_inv hl" using assms(1) by (simp add: hl_history_def)
  have "hash32FromSlice h \<in> hl_known hl"
    using assms unfolding hl_history_def hl_known_def by blast
  then show ?thesis using hl_seen_eq [OF inv] assms(2) by simp
qed

lemma preprocess_filtered:
  assumes "ApplyIFACInbound (x_hash (in_relay n)) (in_ifac n ifc) data = Some raw"
    "Unpack (x_hash (in_relay n)) (raw_packet raw) = Some (q, None)" "packetFilter (in_relay n) q t = Some False"
  shows "preprocessInboundPacket n data ifc t = Some None"
proof -
  have "go_index raw 0 = Some (raw ! 0)" using assms(2) by (cases rule: Unpack_shape) (simp_all add: go_index_def del: drop_bit_and)
  then show ?thesis using assms by (simp add: preprocessInboundPacket_def Let_def)
qed

section \<open>Properties\<close>


lemmas packet_kinds = ContextKeepalive_def ContextResourceReq_def ContextResourcePRF_def ContextResource_def ContextCacheReq_def
  ContextChannel_def ContextLRProof_def DestinationPlain_def DestinationGroup_def DestinationSingle_def DestinationLink_def
  PacketTypeAnnounce_def PacketTypeLinkReq_def PacketTypeProof_def PacketTypeData_def

definition sample_inbound :: inbound_ctx where
  "sample_inbound = \<lparr> in_relay = sample_ctx, in_online = (\<lambda>_. True), in_ifac = (\<lambda>_. None), in_announceBurst = (\<lambda>_. False),
     in_prBurst = (\<lambda>_. False), in_pathRequestDestHash = replicate 16 6 \<rparr>"

text \<open>The same message as \<open>sample_frame\<close>, received without transport header and with another hop count.\<close>

definition sample_copy :: bytes where
  "sample_copy = [0, 5] @ replicate 16 9 @ [0, 1, 2, 3]"

lemma sample_copy_relayed: "relayed_as sample_hash sample_pkt sample_copy 5 None"
proof (rule relayed_asI [where f = "0xD0" and tid = "Some (replicate 16 7)" and f' = 0])
  show "sample_pkt = decoded sample_hash (raw_packet sample_frame) 0xD0 3 (Some (replicate 16 7)) (replicate 16 9) 0 [1, 2, 3]"
    by (rule sample_pkt_def)
qed (simp_all add: sample_frame_def sample_copy_def packet_consts)


lemma linkOutIface_touch: "linkOutIface (e\<lparr> lr_Timestamp := n \<rparr>) i h = linkOutIface e i h"
  by (simp add: linkOutIface_def)

lemma forwardLinkData_again:
  assumes "lt_get lid (t_linkTable t) = Some e" "length lid \<le> 16" "forwardLinkData x lid raw i t = Some (t1, fs, r)"
  shows "t_config t1 = t_config t \<and> t_packetHashes t1 = t_packetHashes t \<and> t_links t1 = t_links t
    \<and> lt_get lid (t_linkTable t1) \<noteq> None \<and> (\<exists>t2. forwardLinkData x lid raw i t1 = Some (t2, fs, r))"
proof (cases "t1 = t")
  case True
  then show ?thesis using assms by auto
next
  case False
  have lid: "(if length lid > 16 then take 16 lid else lid) = lid" using assms(2) by simp
  let ?key = "hash16FromSlice lid" and ?e = "e\<lparr> lr_Timestamp := x_now x \<rparr>"
  obtain h out where g: "\<not> (length raw < 18 \<or> length lid = 0)"
    "mayRelayForSharedInstanceClient x t (Some i) [lr_ReceivedIface e, lr_NextHopIface e]" "go_index raw 1 = Some h"
    "linkOutIface e i (linkRelayAccountedHops h (isLocalClientInterface x (Some i))) = Inr out"
    "\<not> (case out of None \<Rightarrow> True | Some i \<Rightarrow> \<not> x_enabled x i)"
    "t1 = t\<lparr> t_linkTable := go_put ?key ?e (t_linkTable t) \<rparr>"
    "fs = sendOnInterface x out (rewriteHopsOnly raw (linkRelayAccountedHops h (isLocalClientInterface x (Some i))))" "r"
    using assms(3) False unfolding forwardLinkData_def lid
    by (auto simp: assms(1) lt_touch_def Let_def split: if_splits bind_splits sum.splits)
  have "lt_get lid (t_linkTable t1) = Some ?e" using g(6) by (simp add: lt_get_def get_put)
  moreover have "mayRelayForSharedInstanceClient x t1 (Some i) [lr_ReceivedIface ?e, lr_NextHopIface ?e]"
    using g(2,6) by (simp add: mayRelayForSharedInstanceClient_def transportEnabled_def)
  ultimately have "\<exists>t2. forwardLinkData x lid raw i t1 = Some (t2, fs, r)"
    unfolding forwardLinkData_def lid using g(1,3,4,5,7,8) by (simp add: Let_def linkOutIface_touch)
  then show ?thesis using g(6) \<open>lt_get lid (t_linkTable t1) = Some ?e\<close> by simp
qed

text \<open>
  C40: link traffic in transit is not deduplicated. A packet for a link in the relay table is neither
  entered into the duplicate list when it is admitted nor after it was relayed: receiving the same
  packet again relays the same frames again.
\<close>

theorem transit_link_data_relayed_again:
  assumes "lt_get (dest16 pkt) (t_linkTable t) = Some e" "handleLinkData x data pkt ifc t = Some (t1, fs, d)"
  shows "t_packetHashes t1 = t_packetHashes t \<and> (\<exists>t2. handleLinkData x data pkt ifc t1 = Some (t2, fs, d))"
proof -
  have rem: "maybeRememberPacketHash x pkt s = Some s" if "lt_get (dest16 pkt) (t_linkTable s) \<noteq> None" for s
    using that by (simp add: maybeRememberPacketHash_def)
  have filt: "packetFilter x pkt s = packetFilter x pkt t" if "t_packetHashes s = t_packetHashes t" "t_config s = t_config t" for s
    using that by (simp add: packetFilter_def connectedToShared_def)
  have len: "length (dest16 pkt) \<le> 16" by (simp add: dest16_def)
  show ?thesis
  proof (cases "packetFilter x pkt t = Some True \<and> hash16FromSlice (dest16 pkt) \<notin> set (t_links t)")
    case True
    have h: "handleLinkData x data pkt ifc s = do { (t2, fs, _) \<leftarrow> forwardLinkData x (dest16 pkt) data ifc s; Some (t2, fs, Nowhere) }"
      if "lt_get (dest16 pkt) (t_linkTable s) \<noteq> None" "t_packetHashes s = t_packetHashes t" "t_config s = t_config t" "t_links s = t_links t" for s
      using True rem [OF that(1)] filt [OF that(2,3)] that(4) by (simp add: handleLinkData_def admitted_def Let_def)
    obtain r where f: "forwardLinkData x (dest16 pkt) data ifc t = Some (t1, fs, r)" "d = Nowhere"
      using assms(2) h [of t] assms(1) by (auto split: bind_splits)
    note ag = forwardLinkData_again [OF assms(1) len f(1)]
    then show ?thesis using h [of t1] f(2) by auto
  next
    case False
    have r: "maybeRememberPacketHash x pkt t = Some t" using rem [of t] assms(1) by simp
    have "t1 = t" using assms(2) False
      by (cases "packetFilter x pkt t") (auto simp: handleLinkData_def admitted_def Let_def r split: if_splits)
    then show ?thesis using assms(2) by auto
  qed
qed

definition sample_transit :: transport where
  "sample_transit = sample_transport\<lparr> t_linkTable := [(hash16FromSlice (replicate 16 7), sample_relay True)] \<rparr>"

definition sample_transit_data :: bytes where
  "sample_transit_data = [0x0C, 1] @ replicate 16 7 @ [0] @ [1, 2]"

theorem transit_link_data_relayed_again_witness:
  "\<exists>pkt t1 t2. Unpack sample_hash (raw_packet sample_transit_data) = Some (pkt, None)
     \<and> handleLinkData sample_ctx sample_transit_data pkt 2 sample_transit
         = Some (t1, [(1, rewriteHopsOnly sample_transit_data 2)], Nowhere)
     \<and> handleLinkData sample_ctx sample_transit_data pkt 2 t1 = Some (t2, [(1, rewriteHopsOnly sample_transit_data 2)], Nowhere)"
proof -
  define pkt where "pkt = decoded sample_hash (raw_packet sample_transit_data) 0x0C 1 None (replicate 16 7) 0 [1, 2]"
  have u: "Unpack sample_hash (raw_packet sample_transit_data) = Some (pkt, None)"
    unfolding pkt_def by (rule Unpack_HT1) (simp_all add: sample_transit_data_def packet_consts)
  have d: "dest16 pkt = replicate 16 7" by (simp add: pkt_def dest16_def)
  have e: "lt_get (dest16 pkt) (t_linkTable sample_transit) = Some (sample_relay True)" by (simp add: d sample_transit_def lt_get_def)
  have "\<not> connectedToShared sample_transit" by (simp add: connectedToShared_def sample_transit_def sample_transport_def sample_config_def)
  moreover have "filterable pkt" by (simp add: filterable_def pkt_def packet_consts packet_kinds)
  moreover have "hl_seen (t_packetHashes sample_transit) (p_PacketHash pkt) = Some False"
    by (simp add: sample_transit_def sample_transport_def hl_seen_eq [OF hl_new_inv(1)] hl_new_inv(2))
  ultimately have f: "packetFilter sample_ctx pkt sample_transit = Some True"
    using packetFilter_filterable [OF _ _ Unpack_hashValid [OF u]] by simp
  have r: "maybeRememberPacketHash sample_ctx pkt sample_transit = Some sample_transit"
    using e by (simp add: maybeRememberPacketHash_def)
  have h: "go_index sample_transit_data (Suc 0) = Some 1" "length sample_transit_data = 21"
    by (simp_all add: sample_transit_data_def go_index_def)
  have o: "linkOutIface (sample_relay True) 2 2 = Inr (Some 1)" by (simp add: linkOutIface_def sample_relay_def)
  have "\<exists>t1. forwardLinkData sample_ctx (dest16 pkt) sample_transit_data 2 sample_transit
      = Some (t1, [(1, rewriteHopsOnly sample_transit_data 2)], True)"
    using e h o unfolding d
    by (simp add: forwardLinkData_def Let_def linkRelayAccountedHops_def isLocalClientInterface_def mayRelayForSharedInstanceClient_def
        transportEnabled_def sendOnInterface_def sample_ctx_def sample_transit_def sample_transport_def sample_config_def)
  then obtain t1 where "handleLinkData sample_ctx sample_transit_data pkt 2 sample_transit
      = Some (t1, [(1, rewriteHopsOnly sample_transit_data 2)], Nowhere)"
    using f r by (auto simp: handleLinkData_def admitted_def Let_def sample_transit_def sample_transport_def)
  then show ?thesis using transit_link_data_relayed_again [OF e] u by blast
qed

text \<open>
  Classification reads the wrong address of transport packets. For an accepted frame without
  access-code flag, \<open>destinationHashFromRaw\<close> yields the destination only if the frame has a type 1
  header; of a type 2 header it yields the transport identifier. A path request in a type 2 frame is
  therefore not classified as one, unless the transport identifier happens to equal the path request
  destination.
\<close>

theorem destinationHashFromRaw_of_transport_header:
  assumes "Unpack H (raw_packet raw) = Some (p, None)" "\<not> bit (raw ! 0) 7"
  shows "destinationHashFromRaw raw = (case p_TransportID p of None \<Rightarrow> p_DestinationHash p | Some tid \<Rightarrow> tid)"
proof -
  have fl: "drop_bit 7 (f AND 0x80) \<noteq> (1 :: byte)" if "\<not> bit f 7" for f :: byte
  proof
    assume "drop_bit 7 (f AND 0x80) = 1"
    then have "bit (drop_bit 7 (f AND 0x80)) 0" by simp
    then show False using that by (simp add: bit_drop_bit_eq bit_and_iff)
  qed
  have mt: "HeaderMaskHeaderType = HeaderTypeMask" "HeaderType2 = 1" by (simp_all add: HeaderMaskHeaderType_def wire_consts HeaderType2_def)
  show ?thesis using assms(1)
  proof (cases rule: Unpack_shape)
    case (HT1 f h dst ctx dat)
    then show ?thesis using fl [of f] assms(2)
      by (simp add: destinationHashFromRaw_def Let_def mt HeaderTypeShift_def HeaderIFACShift_def HeaderIFACMask_def HeaderSize_def
          AddrHashSize_def del: drop_bit_and)
  next
    case (HT2 f h tid dst ctx dat)
    then show ?thesis using fl [of f] assms(2)
      by (simp add: destinationHashFromRaw_def Let_def mt HeaderTypeShift_def HeaderIFACShift_def HeaderIFACMask_def HeaderSize_def
          AddrHashSize_def DoubleAddrSize_def del: drop_bit_and)
  qed
qed

definition sample_ht2 :: bytes where
  "sample_ht2 = [0x50, 1] @ replicate 16 7 @ replicate 16 9 @ [0, 1]"

theorem destinationHashFromRaw_of_transport_header_witness:
  "\<exists>p. Unpack sample_hash (raw_packet sample_ht2) = Some (p, None) \<and> p_DestinationHash p = replicate 16 9
     \<and> destinationHashFromRaw sample_ht2 = replicate 16 7"
proof -
  have u: "Unpack sample_hash (raw_packet sample_ht2)
      = Some (decoded sample_hash (raw_packet sample_ht2) 0x50 1 (Some (replicate 16 7)) (replicate 16 9) 0 [1], None)"
    by (rule Unpack_HT2) (simp_all add: sample_ht2_def packet_consts)
  have "\<not> bit (sample_ht2 ! 0) 7" by (simp add: sample_ht2_def)
  from destinationHashFromRaw_of_transport_header [OF u this] u show ?thesis by simp
qed

end
