(* ===== verification/Inbound_Queues.thy ===== *)
theory Inbound_Queues
  imports RNS_Prelude
begin

text \<open>
  The inbound priority queues of \<open>pkg/transport/inbound_queues.go\<close>: four bounded queues, one per
  traffic class, filled by the interfaces (\<open>put\<close>, or \<open>putWait\<close> when the caller may block) and drained
  by one goroutine that always takes from the first class that is not empty (\<open>get\<close>). All methods hold
  one mutex, and both the drainer and blocked producers sleep on one condition variable: \<open>put\<close> and
  \<open>putWait\<close> wake one sleeper with \<open>Signal\<close>, \<open>get\<close> wakes all with \<open>Broadcast\<close>.

  The queue operations are functions on the queues. The goroutines are a step relation: a step is one
  critical section, from taking the mutex to releasing it or to sleeping in \<open>Wait\<close>. Which sleeper
  \<open>Signal\<close> wakes is left open.
\<close>

section \<open>The queues\<close>

definition inboundQueueCount :: nat where "inboundQueueCount = 4"

record 'j inboundQueues =
  q_queues :: "'j list list"
  q_sizes :: "int list"
  q_dropped :: "u64 list"

definition defaultInboundSizes :: "int list" where
  "defaultInboundSizes = [1024, 128, 128, 8]"

definition newInboundQueues :: "int list \<Rightarrow> 'j inboundQueues" where
  "newInboundQueues sizes =
     \<lparr> q_queues = replicate inboundQueueCount [],
       q_sizes = map (\<lambda>i. if sizes ! i \<le> 0 then defaultInboundSizes ! i else sizes ! i) [0..<inboundQueueCount],
       q_dropped = replicate inboundQueueCount 0 \<rparr>"

definition iq_append :: "nat \<Rightarrow> 'j \<Rightarrow> 'j inboundQueues \<Rightarrow> 'j inboundQueues" where
  "iq_append tc job q = q\<lparr> q_queues := (q_queues q)[tc := q_queues q ! tc @ [job]] \<rparr>"

definition iq_put :: "int \<Rightarrow> 'j \<Rightarrow> 'j inboundQueues \<Rightarrow> 'j inboundQueues \<times> bool" where
  "iq_put tc job q =
     (if tc < 0 \<or> tc \<ge> int inboundQueueCount then (q, False)
      else if int (length (q_queues q ! nat tc)) \<ge> q_sizes q ! nat tc
      then (q\<lparr> q_dropped := (q_dropped q)[nat tc := q_dropped q ! nat tc + 1] \<rparr>, False)
      else (iq_append (nat tc) job q, True))"

text \<open>The scan of \<open>get\<close>: the first job of the first class that has one.\<close>

fun iq_scan :: "nat list \<Rightarrow> 'j inboundQueues \<Rightarrow> (nat \<times> 'j \<times> 'j inboundQueues) option" where
  "iq_scan [] q = None"
| "iq_scan (tc # tcs) q =
     (case q_queues q ! tc of
        [] \<Rightarrow> iq_scan tcs q
      | job # rest \<Rightarrow> Some (tc, job, q\<lparr> q_queues := (q_queues q)[tc := rest] \<rparr>))"

definition iq_take :: "'j inboundQueues \<Rightarrow> (nat \<times> 'j \<times> 'j inboundQueues) option" where
  "iq_take q = iq_scan [0..<inboundQueueCount] q"

definition iq_snapshot :: "'j inboundQueues \<Rightarrow> nat \<times> nat list \<times> u64 list" where
  "iq_snapshot q = (sum_list (map length (q_queues q)), map length (q_queues q), q_dropped q)"

text \<open>\<open>inboundQueueSizesFromConfig\<close>: values that are not positive leave the zero value.\<close>

definition inboundQueueSizesFromConfig :: "int list option \<Rightarrow> int list" where
  "inboundQueueSizesFromConfig cfg =
     (case cfg of None \<Rightarrow> replicate inboundQueueCount 0
      | Some vs \<Rightarrow> map (\<lambda>i. if vs ! i > 0 then vs ! i else 0) [0..<inboundQueueCount])"

section \<open>Goroutines\<close>

datatype waiter = Drainer | Producer nat

datatype drainer_pc = DBusy | DScan | DAsleep | DWoken | DStopped

datatype 'j producer_pc = PIdle | PTry nat 'j | PAsleep nat 'j | PWoken nat 'j

text \<open>
  Besides the queues: the goroutines sleeping on the condition variable, where the drainer and every
  producer is, whether \<open>done\<close> is closed, and per class the jobs that were accepted and taken so far.
\<close>

record 'j iq_sys =
  s_q :: "'j inboundQueues"
  s_wait :: "waiter list"
  s_drainer :: drainer_pc
  s_prod :: "nat \<Rightarrow> 'j producer_pc"
  s_done :: bool
  s_in :: "nat \<Rightarrow> 'j list"
  s_out :: "nat \<Rightarrow> 'j list"

definition wake :: "waiter \<Rightarrow> 'j iq_sys \<Rightarrow> 'j iq_sys" where
  "wake w s =
     (case w of
        Drainer \<Rightarrow> s\<lparr> s_drainer := DWoken \<rparr>
      | Producer p \<Rightarrow>
          (case s_prod s p of
             PAsleep tc job \<Rightarrow> s\<lparr> s_prod := (s_prod s)(p := PWoken tc job) \<rparr>
           | _ \<Rightarrow> s))"

definition cond_Signal :: "waiter \<Rightarrow> 'j iq_sys \<Rightarrow> 'j iq_sys" where
  "cond_Signal w s = (if w \<in> set (s_wait s) then wake w (s\<lparr> s_wait := remove1 w (s_wait s) \<rparr>) else s)"

definition cond_Broadcast :: "'j iq_sys \<Rightarrow> 'j iq_sys" where
  "cond_Broadcast s = fold wake (s_wait s) (s\<lparr> s_wait := [] \<rparr>)"

text \<open>\<open>Signal\<close> wakes some sleeper whenever there is one.\<close>

definition picks :: "waiter \<Rightarrow> 'j iq_sys \<Rightarrow> bool" where
  "picks w s \<longleftrightarrow> s_wait s = [] \<or> w \<in> set (s_wait s)"

definition accept :: "nat \<Rightarrow> 'j \<Rightarrow> 'j iq_sys \<Rightarrow> 'j iq_sys" where
  "accept tc job s = s\<lparr> s_q := iq_append tc job (s_q s), s_in := (s_in s)(tc := s_in s tc @ [job]) \<rparr>"

definition iq_full :: "nat \<Rightarrow> 'j iq_sys \<Rightarrow> bool" where
  "iq_full tc s \<longleftrightarrow> int (length (q_queues (s_q s) ! tc)) \<ge> q_sizes (s_q s) ! tc"

inductive iq_step :: "'j iq_sys \<Rightarrow> 'j iq_sys \<Rightarrow> bool" where
  put: "iq_step s (cond_Signal w (accept tc job s))"
    if "tc < inboundQueueCount" "iq_put (int tc) job (s_q s) = (q, True)" "picks w s"
| put_dropped: "iq_step s (s\<lparr> s_q := q \<rparr>)"
    if "tc < inboundQueueCount" "iq_put (int tc) job (s_q s) = (q, False)"
| put_blocks: "iq_step s (s\<lparr> s_q := q, s_prod := (s_prod s)(p := PTry tc job) \<rparr>)"
    if "tc < inboundQueueCount" "iq_put (int tc) job (s_q s) = (q, False)" "s_prod s p = PIdle"
| try_put: "iq_step s (cond_Signal w ((accept tc job s)\<lparr> s_prod := (s_prod s)(p := PIdle) \<rparr>))"
    if "s_prod s p = PTry tc job" "\<not> iq_full tc s" "picks w s"
| try_done: "iq_step s (s\<lparr> s_prod := (s_prod s)(p := PIdle) \<rparr>)"
    if "s_prod s p = PTry tc job" "iq_full tc s" "s_done s"
| try_sleep: "iq_step s (s\<lparr> s_prod := (s_prod s)(p := PAsleep tc job), s_wait := s_wait s @ [Producer p] \<rparr>)"
    if "s_prod s p = PTry tc job" "iq_full tc s" "\<not> s_done s"
| producer_woken: "iq_step s (s\<lparr> s_prod := (s_prod s)(p := (if s_done s then PIdle else PTry tc job)) \<rparr>)"
    if "s_prod s p = PWoken tc job"
| get: "iq_step s (s\<lparr> s_drainer := DScan \<rparr>)"
    if "s_drainer s = DBusy"
| get_take: "iq_step s (cond_Broadcast (s\<lparr> s_q := q, s_drainer := DBusy, s_out := (s_out s)(tc := s_out s tc @ [job]) \<rparr>))"
    if "s_drainer s = DScan" "iq_take (s_q s) = Some (tc, job, q)"
| get_done: "iq_step s (s\<lparr> s_drainer := DStopped \<rparr>)"
    if "s_drainer s = DScan" "iq_take (s_q s) = None" "s_done s"
| get_sleep: "iq_step s (s\<lparr> s_drainer := DAsleep, s_wait := s_wait s @ [Drainer] \<rparr>)"
    if "s_drainer s = DScan" "iq_take (s_q s) = None" "\<not> s_done s"
| drainer_woken: "iq_step s (s\<lparr> s_drainer := (if s_done s then DStopped else DScan) \<rparr>)"
    if "s_drainer s = DWoken"
| close: "iq_step s (s\<lparr> s_done := True \<rparr>)"
| wakeAll: "iq_step s (cond_Broadcast s)"

definition iq_start :: "int list \<Rightarrow> 'j iq_sys" where
  "iq_start sizes = \<lparr> s_q = newInboundQueues sizes, s_wait = [], s_drainer = DBusy, s_prod = (\<lambda>_. PIdle), s_done = False,
     s_in = (\<lambda>_. []), s_out = (\<lambda>_. []) \<rparr>"

inductive iq_reach :: "int list \<Rightarrow> 'j iq_sys \<Rightarrow> bool" for sizes where
  start: "iq_reach sizes (iq_start sizes)"
| step: "iq_reach sizes s \<Longrightarrow> iq_step s s' \<Longrightarrow> iq_reach sizes s'"

section \<open>Waking\<close>

fun woken :: "'j producer_pc \<Rightarrow> 'j producer_pc" where
  "woken (PAsleep tc job) = PWoken tc job"
| "woken pc = pc"

fun asleep :: "'j producer_pc \<Rightarrow> bool" where
  "asleep (PAsleep tc job) = True"
| "asleep pc = False"

fun pc_class :: "'j producer_pc \<Rightarrow> nat option" where
  "pc_class PIdle = None"
| "pc_class (PTry tc job) = Some tc"
| "pc_class (PAsleep tc job) = Some tc"
| "pc_class (PWoken tc job) = Some tc"

lemma woken_simps [simp]: "asleep (woken pc) = False" "pc_class (woken pc) = pc_class pc" "\<not> asleep pc \<Longrightarrow> woken pc = pc"
  by (cases pc; simp)+

lemma wake_eq:
  "wake w s = s\<lparr> s_drainer := (if w = Drainer then DWoken else s_drainer s),
     s_prod := (\<lambda>p. if w = Producer p then woken (s_prod s p) else s_prod s p) \<rparr>"
  by (cases w; cases "s_prod s (case w of Producer p \<Rightarrow> p | Drainer \<Rightarrow> 0)") (auto simp: wake_def fun_eq_iff)

lemma fold_wake:
  "fold wake ws s = s\<lparr> s_drainer := (if Drainer \<in> set ws then DWoken else s_drainer s),
     s_prod := (\<lambda>p. if Producer p \<in> set ws then woken (s_prod s p) else s_prod s p) \<rparr>"
  by (induction ws arbitrary: s) (auto simp: wake_eq fun_eq_iff)

lemma Broadcast_eq:
  "cond_Broadcast s = s\<lparr> s_wait := [], s_drainer := (if Drainer \<in> set (s_wait s) then DWoken else s_drainer s),
     s_prod := (\<lambda>p. if Producer p \<in> set (s_wait s) then woken (s_prod s p) else s_prod s p) \<rparr>"
  by (simp add: cond_Broadcast_def fold_wake cong: if_cong)

lemma Signal_eq:
  "w \<in> set (s_wait s) \<Longrightarrow> cond_Signal w s = s\<lparr> s_wait := remove1 w (s_wait s), s_drainer := (if w = Drainer then DWoken else s_drainer s),
     s_prod := (\<lambda>p. if w = Producer p then woken (s_prod s p) else s_prod s p) \<rparr>"
  by (simp add: cond_Signal_def wake_eq cong: if_cong)

section \<open>The invariant\<close>

definition q_inv :: "'j inboundQueues \<Rightarrow> bool" where
  "q_inv q \<longleftrightarrow> length (q_queues q) = 4
     \<and> (\<forall>i < 4. 0 < q_sizes q ! i \<and> int (length (q_queues q ! i)) \<le> q_sizes q ! i)"

text \<open>Who is registered with the condition variable is who is asleep.\<close>

definition wait_inv :: "'j iq_sys \<Rightarrow> bool" where
  "wait_inv s \<longleftrightarrow> distinct (s_wait s) \<and> (Drainer \<in> set (s_wait s) \<longleftrightarrow> s_drainer s = DAsleep)
     \<and> (\<forall>p. Producer p \<in> set (s_wait s) \<longleftrightarrow> asleep (s_prod s p))
     \<and> (\<forall>p tc. pc_class (s_prod s p) = Some tc \<longrightarrow> tc < 4)"

text \<open>Nobody sleeps who could go on.\<close>

definition sleep_inv :: "'j iq_sys \<Rightarrow> bool" where
  "sleep_inv s \<longleftrightarrow> (s_drainer s = DAsleep \<longrightarrow> (\<forall>i < 4. q_queues (s_q s) ! i = []))
     \<and> (\<forall>p tc job. s_prod s p = PAsleep tc job \<longrightarrow> iq_full tc s)"

definition fifo_inv :: "'j iq_sys \<Rightarrow> bool" where
  "fifo_inv s \<longleftrightarrow> (\<forall>i < 4. s_in s i = s_out s i @ q_queues (s_q s) ! i)"

definition iq_inv :: "'j iq_sys \<Rightarrow> bool" where
  "iq_inv s \<longleftrightarrow> q_inv (s_q s) \<and> wait_inv s \<and> sleep_inv s \<and> fifo_inv s"

lemma scan_None: "iq_scan tcs q = None \<longleftrightarrow> (\<forall>tc \<in> set tcs. q_queues q ! tc = [])"
  by (induction tcs q rule: iq_scan.induct) (auto split: list.splits)

lemma scan_Some:
  "iq_scan tcs q = Some (tc, job, q') \<Longrightarrow> sorted tcs \<Longrightarrow>
     tc \<in> set tcs \<and> (\<forall>i \<in> set tcs. i < tc \<longrightarrow> q_queues q ! i = [])
     \<and> (\<exists>rest. q_queues q ! tc = job # rest \<and> q' = q\<lparr> q_queues := (q_queues q)[tc := rest] \<rparr>)"
  by (induction tcs q rule: iq_scan.induct) (auto split: list.splits)

lemma take_None: "iq_take q = None \<longleftrightarrow> (\<forall>i < 4. q_queues q ! i = [])"
  by (auto simp: iq_take_def scan_None inboundQueueCount_def)

lemma take_Some:
  assumes "iq_take q = Some (tc, job, q')"
  obtains rest where "tc < 4" "\<And>i. i < tc \<Longrightarrow> q_queues q ! i = []" "q_queues q ! tc = job # rest"
    "q' = q\<lparr> q_queues := (q_queues q)[tc := rest] \<rparr>"
proof -
  note c = scan_Some [OF assms [unfolded iq_take_def]]
  have "tc < 4 \<and> (\<forall>i < tc. q_queues q ! i = [])" using c by (auto simp: inboundQueueCount_def)
  then show ?thesis using c that by auto
qed

lemma put_True:
  "tc < inboundQueueCount \<Longrightarrow> iq_put (int tc) job (s_q s) = (q, True) \<longleftrightarrow> \<not> iq_full tc s \<and> q = iq_append tc job (s_q s)"
  by (auto simp: iq_put_def iq_full_def)

lemma put_False:
  "tc < inboundQueueCount \<Longrightarrow> iq_put (int tc) job (s_q s) = (q, False) \<Longrightarrow>
     iq_full tc s \<and> q_queues q = q_queues (s_q s) \<and> q_sizes q = q_sizes (s_q s)"
  by (auto simp: iq_put_def iq_full_def split: if_splits)

lemma append_q:
  assumes "q_inv q" "tc < 4" "int (length (q_queues q ! tc)) < q_sizes q ! tc"
  shows "q_inv (iq_append tc job q)" "i < 4 \<Longrightarrow> q_queues (iq_append tc job q) ! i = q_queues q ! i @ (if i = tc then [job] else [])"
    "q_sizes (iq_append tc job q) = q_sizes q"
  using assms by (auto simp: q_inv_def iq_append_def nth_list_update)

lemma class_lt: "iq_inv s \<Longrightarrow> pc_class (s_prod s p) = Some tc \<Longrightarrow> tc < 4"
  unfolding iq_inv_def wait_inv_def by blast

lemma asleep_full: "wait_inv s \<Longrightarrow> sleep_inv s \<Longrightarrow> s_prod s p = PAsleep tc j \<Longrightarrow> iq_full tc s \<and> tc < 4"
  unfolding sleep_inv_def wait_inv_def by (metis pc_class.simps(3))

text \<open>Accepting a job: if the drainer sleeps it is the only sleeper, so the signal reaches it.\<close>

lemma accept_signal:
  assumes inv: "iq_inv s" and tc: "tc < 4" "\<not> iq_full tc s" and w: "picks w s"
    and P: "\<And>p. P p = s_prod s p \<or> P p = PIdle \<and> \<not> asleep (s_prod s p)"
  shows "iq_inv (cond_Signal w ((accept tc job s)\<lparr> s_prod := P \<rparr>))"
proof -
  let ?s = "(accept tc job s)\<lparr> s_prod := P \<rparr>"
  have q: "q_inv (s_q s)" and wi: "wait_inv s" and sl: "sleep_inv s" and ff: "fifo_inv s" using inv by (simp_all add: iq_inv_def)
  have lt: "int (length (q_queues (s_q s) ! tc)) < q_sizes (s_q s) ! tc" using tc(2) by (simp add: iq_full_def)
  note ap = append_q [where job = job, OF q tc(1) lt]
  have as: "asleep (P p) = asleep (s_prod s p)" for p using P [of p] by auto
  have ps: "P p = PAsleep tc' j \<Longrightarrow> s_prod s p = PAsleep tc' j" for p tc' j using P [of p] by auto
  have cl: "pc_class (P p) = Some c \<Longrightarrow> c < 4" for p c using P [of p] wi by (auto simp: wait_inv_def)
  have full: "iq_full tc' ?s" if "s_prod s p = PAsleep tc' j" for p tc' j
  proof -
    have f: "iq_full tc' s" "tc' < 4" using asleep_full [OF wi sl that] by simp_all
    then have "tc' \<noteq> tc" using tc(2) by auto
    then show ?thesis using f ap(2,3) by (simp add: iq_full_def accept_def)
  qed
  have fifo: "s_in ?s i = s_out ?s i @ q_queues (s_q ?s) ! i" if "i < 4" for i
    using ff that ap(2) [OF that] by (auto simp: fifo_inv_def accept_def)
  have only: "s_drainer s = DAsleep \<Longrightarrow> set (s_wait s) = {Drainer}"
  proof -
    assume d: "s_drainer s = DAsleep"
    have "\<not> asleep (s_prod s p)" for p
    proof
      assume "asleep (s_prod s p)"
      then obtain c j where "s_prod s p = PAsleep c j" by (cases "s_prod s p") auto
      then have "iq_full c s" "c < 4" using asleep_full [OF wi sl] by blast+
      then show False using d sl q by (auto simp: sleep_inv_def iq_full_def q_inv_def)
    qed
    then have "Producer p \<notin> set (s_wait s)" for p using wi by (simp add: wait_inv_def)
    then show ?thesis using d wi by (auto simp: wait_inv_def) (metis waiter.exhaust)
  qed
  show ?thesis
  proof (cases "s_wait s = []")
    case True
    then have "cond_Signal w ?s = ?s" "s_drainer s \<noteq> DAsleep" using only by (auto simp: cond_Signal_def accept_def)
    moreover have "wait_inv ?s" using wi as cl by (simp add: wait_inv_def accept_def)
    moreover have "iq_full tc' ?s" if "s_prod ?s p = PAsleep tc' j" for p tc' j
      using full [OF ps] that by simp
    ultimately show ?thesis using ap(1) fifo
      by (auto simp: iq_inv_def sleep_inv_def fifo_inv_def accept_def)
  next
    case False
    then have wm: "w \<in> set (s_wait s)" using w by (simp add: picks_def)
    then have sg: "cond_Signal w ?s = ?s\<lparr> s_wait := remove1 w (s_wait s),
      s_drainer := (if w = Drainer then DWoken else s_drainer s), s_prod := (\<lambda>p. if w = Producer p then woken (P p) else P p) \<rparr>" (is "_ = ?t")
      using Signal_eq [of w ?s] by (simp add: accept_def cong: if_cong)
    have "w = Drainer" if "s_drainer s = DAsleep" using only that wm by auto
    then have da: "s_drainer ?t \<noteq> DAsleep" by (auto simp: accept_def)
    have "wait_inv ?t"
      using wi as cl wm by (auto simp: wait_inv_def accept_def split: if_splits)
    moreover have "sleep_inv ?t"
    proof -
      have "iq_full tc' ?t" if "s_prod ?t p = PAsleep tc' j" for p tc' j
      proof -
        have "P p = PAsleep tc' j" using that by (cases "P p") (auto split: if_splits)
        then have "iq_full tc' ?s" using full [OF ps] by blast
        then show ?thesis by (simp add: iq_full_def)
      qed
      then show ?thesis using da by (simp add: sleep_inv_def)
    qed
    moreover have "fifo_inv ?t" using fifo by (simp add: fifo_inv_def)
    moreover have "q_inv (s_q ?t)" using ap(1) by (simp add: accept_def)
    ultimately show ?thesis unfolding sg by (simp add: iq_inv_def)
  qed
qed

text \<open>A broadcast leaves nobody asleep.\<close>

lemma Broadcast_inv:
  assumes "q_inv (s_q s)" "wait_inv s" "fifo_inv s"
  shows "iq_inv (cond_Broadcast s)"
proof -
  have "wait_inv (cond_Broadcast s)" using assms(2) by (auto simp: wait_inv_def Broadcast_eq)
  moreover have na: "\<not> asleep (s_prod (cond_Broadcast s) p)" for p using assms(2) by (simp add: wait_inv_def Broadcast_eq)
  moreover have "s_prod (cond_Broadcast s) p \<noteq> PAsleep tc j" for p tc j using na [of p] by auto
  moreover have "s_drainer (cond_Broadcast s) \<noteq> DAsleep" using assms(2) by (simp add: wait_inv_def Broadcast_eq)
  ultimately show ?thesis using assms by (simp add: iq_inv_def sleep_inv_def fifo_inv_def) (simp add: Broadcast_eq)
qed

text \<open>Changes of the program counters only, with nobody newly asleep.\<close>

lemma pc_inv:
  assumes "iq_inv s" "q_queues q = q_queues (s_q s)" "q_sizes q = q_sizes (s_q s)"
    "\<And>p. P p = s_prod s p \<or> \<not> asleep (P p) \<and> \<not> asleep (s_prod s p) \<and> (\<forall>tc. pc_class (P p) = Some tc \<longrightarrow> tc < 4)"
    "d = s_drainer s \<or> d \<noteq> DAsleep \<and> s_drainer s \<noteq> DAsleep"
  shows "iq_inv (s\<lparr> s_q := q, s_drainer := d, s_prod := P, s_done := b \<rparr>)" (is "iq_inv ?s")
proof -
  have i: "q_inv (s_q s)" "wait_inv s" "sleep_inv s" "fifo_inv s" using assms(1) by (simp_all add: iq_inv_def)
  have as: "asleep (P p) = asleep (s_prod s p)" for p using assms(4) [of p] by auto
  have cl: "pc_class (P p) = Some tc \<Longrightarrow> tc < 4" for p tc using class_lt [OF assms(1), of p tc] assms(4) [of p] by auto
  have "iq_full tc ?s" if "P p = PAsleep tc j" for p tc j
  proof -
    have "s_prod s p = PAsleep tc j" using assms(4) [of p] that by auto
    then show ?thesis using asleep_full [OF i(2,3)] assms(2,3) by (auto simp: iq_full_def)
  qed
  then have "sleep_inv ?s" using i(3) assms(2,5) by (auto simp: sleep_inv_def)
  moreover have "wait_inv ?s" using i(2) as cl assms(5) by (auto simp: wait_inv_def)
  moreover have "q_inv q" "fifo_inv ?s" using i(1,4) assms(2,3) by (simp_all add: q_inv_def fifo_inv_def)
  ultimately show ?thesis by (simp add: iq_inv_def)
qed

lemma sleep_producer:
  assumes "iq_inv s" "s_prod s p = PTry tc job" "iq_full tc s"
  shows "iq_inv (s\<lparr> s_prod := (s_prod s)(p := PAsleep tc job), s_wait := s_wait s @ [Producer p] \<rparr>)"
proof -
  have "\<not> asleep (s_prod s p)" "tc < 4" using class_lt [OF assms(1), of p tc] assms(2) by simp_all
  moreover have "Producer p \<notin> set (s_wait s)" using calculation assms(1) by (simp add: iq_inv_def wait_inv_def)
  ultimately show ?thesis using assms
    by (auto simp: iq_inv_def wait_inv_def sleep_inv_def fifo_inv_def iq_full_def)
qed

lemma sleep_drainer:
  assumes "iq_inv s" "s_drainer s = DScan" "iq_take (s_q s) = None"
  shows "iq_inv (s\<lparr> s_drainer := DAsleep, s_wait := s_wait s @ [Drainer] \<rparr>)"
proof -
  have "Drainer \<notin> set (s_wait s)" using assms(1,2) by (simp add: iq_inv_def wait_inv_def)
  then show ?thesis using assms by (auto simp: iq_inv_def wait_inv_def sleep_inv_def fifo_inv_def iq_full_def take_None)
qed

lemma iq_step_inv:
  assumes "iq_step s s'" "iq_inv s"
  shows "iq_inv s'"
  using assms
proof (induction rule: iq_step.induct)
  case (put tc job s q w)
  then have "\<not> iq_full tc s" "tc < 4" using put_True [of tc job s q] by (simp_all add: inboundQueueCount_def)
  then show ?case using accept_signal [OF put.prems _ _ put.hyps(3), where P = "s_prod s"] by (simp add: accept_def)
next
  case (put_dropped tc job s q)
  then show ?case using pc_inv [of s q "s_prod s" "s_drainer s" "s_done s"] put_False [of tc job s q] by simp
next
  case (put_blocks tc job s q p)
  have "iq_inv (s\<lparr> s_q := q, s_drainer := s_drainer s, s_prod := (s_prod s)(p := PTry tc job), s_done := s_done s \<rparr>)"
    by (rule pc_inv) (use put_blocks put_False [of tc job s q] in \<open>auto simp: inboundQueueCount_def\<close>)
  then show ?case by simp
next
  case (try_put s p tc job w)
  have "tc < 4" using class_lt [OF try_put.prems, of p tc] try_put.hyps(1) by simp
  moreover have "((s_prod s)(p := PIdle)) p' = s_prod s p' \<or> ((s_prod s)(p := PIdle)) p' = PIdle \<and> \<not> asleep (s_prod s p')" for p'
    using try_put.hyps(1) by simp
  ultimately show ?case using accept_signal [OF try_put.prems _ try_put.hyps(2,3)] by blast
next
  case (try_done s p tc job)
  have "iq_inv (s\<lparr> s_q := s_q s, s_drainer := s_drainer s, s_prod := (s_prod s)(p := PIdle), s_done := s_done s \<rparr>)"
    by (rule pc_inv) (use try_done in auto)
  then show ?case by simp
next
  case (producer_woken s p tc job)
  have "tc < 4" using class_lt [OF producer_woken.prems, of p tc] producer_woken.hyps(1) by simp
  then have "iq_inv (s\<lparr> s_q := s_q s, s_drainer := s_drainer s,
      s_prod := (s_prod s)(p := (if s_done s then PIdle else PTry tc job)), s_done := s_done s \<rparr>)"
    by (intro pc_inv) (use producer_woken in auto)
  then show ?case by simp
next
  case (get s)
  then show ?case using pc_inv [of s "s_q s" "s_prod s" DScan "s_done s"] by simp
next
  case (get_take s tc job q)
  obtain rest where t: "tc < 4" "q_queues (s_q s) ! tc = job # rest" "q = (s_q s)\<lparr> q_queues := (q_queues (s_q s))[tc := rest] \<rparr>"
    using take_Some [OF get_take.hyps(2)] by metis
  let ?s = "s\<lparr> s_q := q, s_drainer := DBusy, s_out := (s_out s)(tc := s_out s tc @ [job]) \<rparr>"
  have i: "q_inv (s_q s)" "wait_inv s" "fifo_inv s" using get_take.prems by (simp_all add: iq_inv_def)
  have "q_inv q" using i(1) t by (auto simp: q_inv_def nth_list_update)
  moreover have "wait_inv ?s" using i(2) get_take.hyps(1) by (auto simp: wait_inv_def)
  moreover have "fifo_inv ?s" using i(1,3) t by (auto simp: fifo_inv_def q_inv_def nth_list_update)
  ultimately show ?case using Broadcast_inv [of ?s] by simp
next
  case (get_done s)
  have "iq_inv (s\<lparr> s_q := s_q s, s_drainer := DStopped, s_prod := s_prod s, s_done := s_done s \<rparr>)"
    by (rule pc_inv) (use get_done in auto)
  then show ?case by simp
next
  case (drainer_woken s)
  then show ?case using pc_inv [of s "s_q s" "s_prod s" "if s_done s then DStopped else DScan" "s_done s"] by simp
next
  case (close s)
  then show ?case using pc_inv [of s "s_q s" "s_prod s" "s_drainer s" True] by simp
next
  case (wakeAll s)
  then show ?case using Broadcast_inv [of s] by (simp add: iq_inv_def)
qed (simp_all add: sleep_producer sleep_drainer)

lemma iq_start_inv: "length sizes = 4 \<Longrightarrow> iq_inv (iq_start sizes)"
proof -
  have "i < 4 \<Longrightarrow> 0 < defaultInboundSizes ! i \<and> 0 \<le> defaultInboundSizes ! i" for i
    by (auto simp: defaultInboundSizes_def less_Suc_eq numeral_eq_Suc)
  then have "q_inv (newInboundQueues sizes)"
    by (auto simp: q_inv_def newInboundQueues_def inboundQueueCount_def)
  then show ?thesis
    by (simp add: iq_inv_def wait_inv_def sleep_inv_def fifo_inv_def iq_start_def newInboundQueues_def inboundQueueCount_def)
qed

lemma iq_reach_inv: "iq_reach sizes s \<Longrightarrow> length sizes = 4 \<Longrightarrow> iq_inv s"
  by (induction rule: iq_reach.induct) (auto intro: iq_start_inv iq_step_inv)

section \<open>Properties\<close>

text \<open>
  C10: no wake-up is lost. Whatever producers and the drainer do, in whatever order, and whichever
  sleeper a signal wakes: the drainer never sleeps while a job is queued; a producer sleeps only while
  the queue of its class is full, and then the drainer is awake to make room; no queue exceeds its
  size; and per class the jobs are taken in the order they were accepted, none lost and none twice.
  When the drainer looks for work and there is some, it can take the first job of the first class
  that has one, and leaves no goroutine asleep.
\<close>

theorem inbound_queues_no_lost_wakeup:
  assumes "iq_reach sizes s" "length sizes = 4"
  shows "(\<forall>tc < 4. q_queues (s_q s) ! tc \<noteq> [] \<longrightarrow> s_drainer s \<noteq> DAsleep)
    \<and> (\<forall>p tc job. s_prod s p = PAsleep tc job \<longrightarrow> iq_full tc s \<and> s_drainer s \<noteq> DAsleep)
    \<and> (\<forall>tc < 4. int (length (q_queues (s_q s) ! tc)) \<le> q_sizes (s_q s) ! tc
          \<and> s_in s tc = s_out s tc @ q_queues (s_q s) ! tc)
    \<and> (s_drainer s = DScan \<longrightarrow> (\<exists>tc < 4. q_queues (s_q s) ! tc \<noteq> []) \<longrightarrow>
        (\<exists>s' tc job rest. iq_step s s' \<and> tc < 4 \<and> (\<forall>i < tc. q_queues (s_q s) ! i = []) \<and> q_queues (s_q s) ! tc = job # rest
           \<and> q_queues (s_q s') ! tc = rest \<and> s_out s' tc = s_out s tc @ [job] \<and> s_wait s' = []))"
proof -
  have inv: "iq_inv s" using iq_reach_inv [OF assms] .
  have q: "q_inv (s_q s)" and wi: "wait_inv s" and sl: "sleep_inv s" and ff: "fifo_inv s" using inv by (simp_all add: iq_inv_def)
  have drained: "\<forall>tc < 4. q_queues (s_q s) ! tc \<noteq> [] \<longrightarrow> s_drainer s \<noteq> DAsleep" using sl by (auto simp: sleep_inv_def)
  moreover have "iq_full tc s \<and> s_drainer s \<noteq> DAsleep" if "s_prod s p = PAsleep tc job" for p tc job
  proof -
    have f: "iq_full tc s" "tc < 4" using asleep_full [OF wi sl that] by simp_all
    then have "0 < int (length (q_queues (s_q s) ! tc))" using q by (force simp: iq_full_def q_inv_def)
    then show ?thesis using f drained by auto
  qed
  moreover have "\<exists>s' tc job rest. iq_step s s' \<and> tc < 4 \<and> (\<forall>i < tc. q_queues (s_q s) ! i = []) \<and> q_queues (s_q s) ! tc = job # rest
           \<and> q_queues (s_q s') ! tc = rest \<and> s_out s' tc = s_out s tc @ [job] \<and> s_wait s' = []"
    if d: "s_drainer s = DScan" and ne: "\<exists>tc < 4. q_queues (s_q s) ! tc \<noteq> []"
  proof -
    obtain tc job q' where t: "iq_take (s_q s) = Some (tc, job, q')" using ne take_None by (metis not_None_eq prod_cases3)
    obtain rest where r: "tc < 4" "\<And>i. i < tc \<Longrightarrow> q_queues (s_q s) ! i = []" "q_queues (s_q s) ! tc = job # rest"
      "q' = (s_q s)\<lparr> q_queues := (q_queues (s_q s))[tc := rest] \<rparr>"
      using take_Some [OF t] by metis
    show ?thesis
      using iq_step.get_take [OF d t] r q
      by (intro exI [where x = tc] exI [where x = job] exI [where x = rest]
          exI [where x = "cond_Broadcast (s\<lparr> s_q := q', s_drainer := DBusy, s_out := (s_out s)(tc := s_out s tc @ [job]) \<rparr>)"])
        (auto simp: Broadcast_eq q_inv_def)
  qed
  ultimately show ?thesis using q ff by (auto simp: q_inv_def fifo_inv_def)
qed

theorem inbound_queues_no_lost_wakeup_witness:
  "\<exists>s. iq_reach [1, 1, 1, 1] s \<and> q_queues (s_q s) ! 0 = [7 :: nat] \<and> s_drainer s \<noteq> DAsleep"
proof -
  let ?s1 = "(iq_start [1, 1, 1, 1] :: nat iq_sys)\<lparr> s_drainer := DScan \<rparr>"
  let ?s2 = "?s1\<lparr> s_drainer := DAsleep, s_wait := s_wait ?s1 @ [Drainer] \<rparr>"
  let ?s3 = "cond_Signal Drainer (accept 0 7 ?s2)"
  have "iq_reach [1, 1, 1, 1] ?s1"
    by (rule iq_reach.step [OF iq_reach.start iq_step.get]) (simp add: iq_start_def)
  then have "iq_reach [1, 1, 1, 1] ?s2"
    by (rule iq_reach.step [OF _ iq_step.get_sleep])
      (simp_all add: iq_start_def newInboundQueues_def take_None inboundQueueCount_def)
  then have r: "iq_reach [1, 1, 1, 1] ?s3"
    by (rule iq_reach.step [OF _ iq_step.put [where q = "iq_append 0 7 (s_q ?s2)"]])
      (simp_all add: iq_put_def picks_def iq_start_def newInboundQueues_def inboundQueueCount_def upt_rec)
  have "q_queues (s_q ?s3) ! 0 = [7]"
    by (simp add: cond_Signal_def wake_def accept_def iq_append_def iq_start_def newInboundQueues_def inboundQueueCount_def)
  then show ?thesis using inbound_queues_no_lost_wakeup [OF r] r by auto
qed

end
