(* ===== verification/Resource.thy ===== *)
theory Resource
  imports Crypto
begin

text \<open>
  Resources as their sender sees them (\<open>pkg/resource/resource.go\<close> and \<open>constants.go\<close>): the fixed
  segmentation of \<open>New\<close>, the preparation for a link (metadata prefix, optional compression, random
  prefix, encryption, part hashes), the splitting of large bodies over several advertisements, and the
  part, map-hash and proof lookups that the link uses during a transfer.

  A file handle is its contents and read position; it is read with \<open>Seek\<close> and \<open>ReadFull\<close>, whose
  operating-system errors are not modelled. Sizes are int64 and far from its bounds, so they are
  \<open>int\<close>; the uint16 counters are 16-bit words. \<open>bz\<close> is the vendored bzip2 compressor, \<open>enc\<close> the
  encryption callback, \<open>rnd\<close> the four bytes from the random source (\<open>None\<close> for an error). The
  progress is kept as the pair of its numerator and denominator.
\<close>

section \<open>Constants\<close>

definition res_StatusPending :: byte where "res_StatusPending = 0x00"
definition res_StatusActive :: byte where "res_StatusActive = 0x01"
definition res_StatusComplete :: byte where "res_StatusComplete = 0x02"
definition res_StatusFailed :: byte where "res_StatusFailed = 0x03"
definition res_StatusCancelled :: byte where "res_StatusCancelled = 0x04"
definition DefaultSegmentSize :: int where "DefaultSegmentSize = 384"
definition MaxSegments :: int where "MaxSegments = 65535"
definition res_Window :: int where "res_Window = 4"
definition WindowMin :: int where "WindowMin = 2"
definition WindowMaxSlow :: int where "WindowMaxSlow = 10"
definition WindowMaxFast :: int where "WindowMaxFast = 75"
definition WindowMax :: int where "WindowMax = WindowMaxFast"
definition WindowFlexibility :: int where "WindowFlexibility = 4"
definition MapHashLen :: nat where "MapHashLen = 4"
definition RandomHashSize :: nat where "RandomHashSize = 4"
definition MaxEfficientSize :: int where "MaxEfficientSize = 1 * 1024 * 1024 - 1"
definition AutoCompressMaxSize :: int where "AutoCompressMaxSize = MaxEfficientSize"
definition MetadataMaxSize :: nat where "MetadataMaxSize = 16 * 1024"
definition Overhead :: int where "Overhead = 134"
definition DefaultLinkMDU :: int where "DefaultLinkMDU = 431"
definition HashmapMaxLen :: int where "HashmapMaxLen = (DefaultLinkMDU - Overhead) div int MapHashLen"
definition CollisionGuardSize :: int where "CollisionGuardSize = 2 * WindowMax + HashmapMaxLen"

lemmas status_consts = res_StatusPending_def res_StatusActive_def res_StatusComplete_def res_StatusFailed_def res_StatusCancelled_def
lemmas window_consts = res_Window_def WindowMin_def WindowMaxSlow_def WindowMaxFast_def WindowMax_def WindowFlexibility_def
lemmas size_consts = DefaultSegmentSize_def MaxSegments_def MapHashLen_def RandomHashSize_def MaxEfficientSize_def
  AutoCompressMaxSize_def MetadataMaxSize_def Overhead_def DefaultLinkMDU_def HashmapMaxLen_def CollisionGuardSize_def

section \<open>State\<close>

datatype resource_error =
    UnsupportedData | InvalidSegment | NoDataSource | NoData | InvalidSDU
  | MetadataTooLarge | MetadataMarshal | InvalidSegmentIndex | MetadataExceedsSegment | NegativeRead
  | OffsetPastEnd | RandomFailed | CompressFailed | EncryptFailed crypto_error | TooLarge | NoNextSegment | EndOfData

text \<open>A call of one of the two user callbacks, in the order of the calls.\<close>

datatype resource_call = CallDone | CallProgress

record resource =
  r_data :: "bytes option"
  r_sourceData :: "bytes option"
  r_file :: "bytes option"
  r_filePos :: nat
  r_hash :: bytes
  r_randomHash :: "bytes option"
  r_originalHash :: "bytes option"
  r_status :: byte
  r_compressed :: bool
  r_autoCompress :: bool
  r_encrypted :: bool
  r_split :: bool
  r_segments :: u16
  r_segmentIndex :: u16
  r_totalSegments :: u16
  r_completedParts :: "u16 list"
  r_transferSize :: int
  r_dataSize :: int
  r_totalSize :: int
  r_progress :: "nat \<times> nat"
  r_completedAt :: "int option"
  r_callback :: bool
  r_progressCallback :: bool
  r_calls :: "resource_call list"
  r_readOffset :: nat
  r_requestID :: "bytes option"
  r_isResponse :: bool
  r_hashmap :: "bytes option"
  r_outboundCipher :: "bytes option"
  r_outboundPartSent :: "bool list option"
  r_outboundSentCount :: nat
  r_hasMetadata :: bool
  r_metadataPacked :: bytes

text \<open>
  \<open>metadata\<close> is a map that is only marshalled: \<open>r_hasMetadata\<close> tells that it is not empty, and the
  marshalled bytes are an argument \<open>packed\<close> of the operation that marshals it.
\<close>

datatype resource_source = SrcBytes bytes | SrcFile bytes | SrcOther

section \<open>Creation\<close>

definition parts_of :: "int \<Rightarrow> u16" where
  "parts_of dataSize =
     (let parts = (dataSize + DefaultSegmentSize - 1) div DefaultSegmentSize;
          parts = (if parts < 1 then 1 else parts)
      in if parts > MaxSegments then of_int MaxSegments else of_int parts)"

definition calculateHash :: "hashfn \<Rightarrow> resource \<Rightarrow> resource" where
  "calculateHash H r =
     (case r_data r of
        Some d \<Rightarrow> r\<lparr> r_hash := sum256 H d \<rparr>
      | None \<Rightarrow>
          (case r_file r of
             Some c \<Rightarrow> r\<lparr> r_filePos := 0, r_hash := sum256 H c \<rparr>
           | None \<Rightarrow> r\<lparr> r_hash := sum256 H [] \<rparr>))"

text \<open>
  \<open>New\<close>. The estimated transfer size of a compressible resource is \<open>int64(float64(dataSize) * ratio)\<close>;
  \<open>estimate\<close> stands for this floating-point value. It is replaced when the resource is prepared.
\<close>

definition new_resource :: "hashfn \<Rightarrow> int \<Rightarrow> bool \<Rightarrow> bytes option \<Rightarrow> bytes option \<Rightarrow> int \<Rightarrow> resource" where
  "new_resource H estimate autoCompress d f sz =
     calculateHash H
       \<lparr> r_data = d, r_sourceData = None, r_file = f, r_filePos = 0, r_hash = [], r_randomHash = None,
         r_originalHash = None, r_status = res_StatusPending, r_compressed = False,
         r_autoCompress = autoCompress, r_encrypted = False, r_split = False,
         r_segments = parts_of sz, r_segmentIndex = 0, r_totalSegments = 0, r_completedParts = [],
         r_transferSize = (if autoCompress then (if estimate < sz div 10 then sz div 10 else estimate) + 64 else sz),
         r_dataSize = sz, r_totalSize = 0, r_progress = (0, 1),
         r_completedAt = None, r_callback = False, r_progressCallback = False, r_calls = [],
         r_readOffset = 0, r_requestID = None, r_isResponse = False, r_hashmap = None,
         r_outboundCipher = None, r_outboundPartSent = None, r_outboundSentCount = 0,
         r_hasMetadata = False, r_metadataPacked = [] \<rparr>"

definition res_New :: "hashfn \<Rightarrow> int \<Rightarrow> resource_source \<Rightarrow> bool \<Rightarrow> resource_error + resource" where
  "res_New H estimate src autoCompress =
     (case src of
        SrcBytes d \<Rightarrow> Inr (new_resource H estimate autoCompress (Some d) None (int (length d)))
      | SrcFile c \<Rightarrow> Inr (new_resource H estimate autoCompress None (Some c) (int (length c)))
      | SrcOther \<Rightarrow> Inl UnsupportedData)"

section \<open>Status and progress\<close>

definition fire :: "resource_call \<Rightarrow> bool \<Rightarrow> resource \<Rightarrow> resource" where
  "fire c on r = (if on then r\<lparr> r_calls := r_calls r @ [c] \<rparr> else r)"

definition res_conclude :: "byte \<Rightarrow> int \<Rightarrow> resource \<Rightarrow> resource" where
  "res_conclude st now r = fire CallDone (r_callback r) (r\<lparr> r_status := st, r_completedAt := Some now \<rparr>)"

definition res_Cancel :: "int \<Rightarrow> resource \<Rightarrow> resource" where
  "res_Cancel now r =
     (if r_status r = res_StatusPending \<or> r_status r = res_StatusActive then res_conclude res_StatusCancelled now r else r)"

definition res_Activate :: "resource \<Rightarrow> resource" where
  "res_Activate r = (if r_status r = res_StatusPending then r\<lparr> r_status := res_StatusActive \<rparr> else r)"

definition SetFailed :: "int \<Rightarrow> resource \<Rightarrow> resource" where
  "SetFailed now r = (if r_status r \<noteq> res_StatusComplete then res_conclude res_StatusFailed now r else r)"

definition MarkSegmentComplete :: "int \<Rightarrow> u16 \<Rightarrow> resource \<Rightarrow> resource" where
  "MarkSegmentComplete now segment r =
     (if segment \<ge> r_segments r then r
      else
        (let r1 = r\<lparr> r_completedParts := List.insert segment (r_completedParts r) \<rparr>;
             completed = length (r_completedParts r1);
             r2 = fire CallProgress (r_progressCallback r1) (r1\<lparr> r_progress := (completed, unat (r_segments r1)) \<rparr>)
         in if completed = unat (r_segments r2) then res_conclude res_StatusComplete now r2 else r2))"

definition IsSegmentComplete :: "u16 \<Rightarrow> resource \<Rightarrow> bool" where
  "IsSegmentComplete segment r \<longleftrightarrow> segment \<in> set (r_completedParts r)"

definition GetTotalSize :: "resource \<Rightarrow> int" where
  "GetTotalSize r = (if r_totalSize r > 0 then r_totalSize r else r_dataSize r)"

text \<open>
  \<open>GetSegmentData\<close>: a negative size panics in \<open>make\<close>, a range outside the data in the slice
  expression; a short file is an error of \<open>ReadFull\<close>.
\<close>

definition GetSegmentData :: "u16 \<Rightarrow> resource \<Rightarrow> ((resource_error + bytes) \<times> resource) option" where
  "GetSegmentData segment r =
     (if segment \<ge> r_segments r then Some (Inl InvalidSegment, r)
      else
        (let start = int (unat segment) * DefaultSegmentSize;
             size = (if segment = r_segments r - 1 then r_dataSize r - start else DefaultSegmentSize)
         in if size < 0 then None
            else case r_data r of
                   Some d \<Rightarrow> map_option (\<lambda>s. (Inr s, r)) (go_slice d (nat start) (nat (start + size)))
                 | None \<Rightarrow>
                     (case r_file r of
                        Some c \<Rightarrow>
                          (let pos = min (nat (start + size)) (max (nat start) (length c)) in
                           Some (if nat (start + size) \<le> length c
                                 then (Inr (take (nat size) (drop (nat start) c)), r\<lparr> r_filePos := pos \<rparr>)
                                 else if size = 0 then (Inr [], r\<lparr> r_filePos := nat start \<rparr>)
                                 else (Inl EndOfData, r\<lparr> r_filePos := pos \<rparr>)))
                      | None \<Rightarrow> Some (Inl NoDataSource, r))))"

section \<open>Metadata\<close>

text \<open>The three-byte big-endian length prefix.\<close>

definition len24 :: "nat \<Rightarrow> bytes" where
  "len24 n = [of_nat (n div 65536), of_nat (n div 256), of_nat n]"

definition metadata_blob :: "bytes \<Rightarrow> bytes" where
  "metadata_blob packed = len24 (length packed) @ packed"

definition SetMetadataPacked :: "bytes \<Rightarrow> resource \<Rightarrow> resource \<times> resource_error option" where
  "SetMetadataPacked packed r =
     (if length packed = 0 then (r\<lparr> r_hasMetadata := False, r_metadataPacked := [] \<rparr>, None)
      else if length packed > MetadataMaxSize then (r, Some MetadataTooLarge)
      else (r\<lparr> r_hasMetadata := False, r_metadataPacked := metadata_blob packed \<rparr>, None))"

text \<open>\<open>packed\<close> is the marshalled metadata map, \<open>None\<close> if marshalling fails.\<close>

definition ensureMetadataPackedLocked :: "bytes option \<Rightarrow> resource \<Rightarrow> resource \<times> resource_error option" where
  "ensureMetadataPackedLocked packed r =
     (if length (r_metadataPacked r) > 0 then (r, None)
      else if \<not> r_hasMetadata r then (r, None)
      else case packed of
             None \<Rightarrow> (r, Some MetadataMarshal)
           | Some p \<Rightarrow>
               if length p > MetadataMaxSize then (r, Some MetadataTooLarge)
               else (r\<lparr> r_metadataPacked := metadata_blob p \<rparr>, None))"

text \<open>\<open>SetMetadata\<close> of a nil map (\<open>None\<close>) or of a map that is empty or not.\<close>

definition SetMetadata :: "bool option \<Rightarrow> bytes option \<Rightarrow> resource \<Rightarrow> resource \<times> resource_error option" where
  "SetMetadata meta packed r =
     (case meta of
        None \<Rightarrow> (r\<lparr> r_hasMetadata := False, r_metadataPacked := [] \<rparr>, None)
      | Some nonempty \<Rightarrow> ensureMetadataPackedLocked packed (r\<lparr> r_hasMetadata := nonempty, r_metadataPacked := [] \<rparr>))"

definition HasMetadata :: "resource \<Rightarrow> bool" where
  "HasMetadata r \<longleftrightarrow> r_hasMetadata r \<or> length (r_metadataPacked r) > 0"

section \<open>Preparing a resource for a link\<close>

definition raw_source :: "resource \<Rightarrow> bytes option" where
  "raw_source r = (if r_sourceData r \<noteq> None then r_sourceData r else r_data r)"

definition rawBodySizeLocked :: "resource \<Rightarrow> resource_error + int" where
  "rawBodySizeLocked r =
     (case r_file r of
        Some c \<Rightarrow> Inr (int (length c))
      | None \<Rightarrow> (case raw_source r of Some src \<Rightarrow> Inr (int (length src)) | None \<Rightarrow> Inl NoData))"

definition readRawBodyLocked :: "int \<Rightarrow> int \<Rightarrow> resource \<Rightarrow> (resource_error + bytes) \<times> resource" where
  "readRawBodyLocked offset len r =
     (if len < 0 then (Inl NegativeRead, r)
      else if len = 0 then (Inr [], r)
      else case r_file r of
             Some c \<Rightarrow>
               (let body = take (nat len) (drop (nat offset) c) in
                (Inr body, r\<lparr> r_filePos := nat offset + length body \<rparr>))
           | None \<Rightarrow>
               (case raw_source r of
                  Some src \<Rightarrow>
                    if offset > int (length src) then (Inl OffsetPastEnd, r)
                    else (Inr (take (nat (min (offset + len) (int (length src)) - offset)) (drop (nat offset) src)), r)
                | None \<Rightarrow> (Inl NoData, r)))"

text \<open>Part \<open>i\<close> of a ciphertext cut into pieces of \<open>sdu\<close> bytes, and its entry in the hash map.\<close>

definition part_slice :: "bytes \<Rightarrow> nat \<Rightarrow> nat \<Rightarrow> bytes" where
  "part_slice blob sdu i = take (min (i * sdu + sdu) (length blob) - i * sdu) (drop (i * sdu) blob)"

definition map_hash :: "hashfn \<Rightarrow> bytes \<Rightarrow> bytes \<Rightarrow> bytes" where
  "map_hash H randomHash part = take MapHashLen (sum256 H (part @ randomHash))"

definition part_count :: "bytes \<Rightarrow> nat \<Rightarrow> nat" where
  "part_count blob sdu = (length blob + sdu - 1) div sdu"

definition build_hashmap :: "hashfn \<Rightarrow> bytes \<Rightarrow> bytes \<Rightarrow> nat \<Rightarrow> bytes" where
  "build_hashmap H randomHash blob sdu =
     concat (map (\<lambda>i. map_hash H randomHash (part_slice blob sdu i)) [0..<part_count blob sdu])"

definition finishPrepareSegmentLocked ::
  "hashfn \<Rightarrow> (bytes \<Rightarrow> bytes option) \<Rightarrow> bytes option \<Rightarrow> (bytes \<Rightarrow> bytes crypto) \<Rightarrow> nat \<Rightarrow> bytes \<Rightarrow> bool \<Rightarrow> resource
     \<Rightarrow> (resource \<times> resource_error option) option" where
  "finishPrepareSegmentLocked H bz rnd enc sdu segmentBody includeMeta r =
     (let wireBody = (if includeMeta \<and> length (r_metadataPacked r) > 0 then r_metadataPacked r @ segmentBody else segmentBody) in
      case rnd of
        None \<Rightarrow> Some (r, Some RandomFailed)
      | Some rb \<Rightarrow>
         (let randomHash = fixed RandomHashSize rb in
          case (if r_autoCompress r
                then (case bz wireBody of
                        None \<Rightarrow> None
                      | Some z \<Rightarrow> Some (if length z < length wireBody then (z, True) else (wireBody, False)))
                else Some (wireBody, False)) of
            None \<Rightarrow> Some (r, Some CompressFailed)
          | Some (payload, compressed) \<Rightarrow>
             (let hash = sum256 H (wireBody @ randomHash);
                  keep = (case r_originalHash r of Some o' \<Rightarrow> length o' = 32 | None \<Rightarrow> False);
                  r1 = r\<lparr> r_compressed := compressed, r_hash := hash, r_randomHash := Some randomHash,
                          r_originalHash := (if keep then r_originalHash r else Some hash),
                          r_sourceData := (if r_split r \<and> r_sourceData r = None \<and> r_data r \<noteq> None \<and> r_file r = None
                                           then r_data r else r_sourceData r),
                          r_data := Some segmentBody \<rparr>
              in case enc (randomHash @ payload) of
                   None \<Rightarrow> None
                 | Some (Inl e) \<Rightarrow> Some (r1, Some (EncryptFailed e))
                 | Some (Inr innerBlob) \<Rightarrow>
                    (let r2 = r1\<lparr> r_encrypted := True \<rparr>; partCount = part_count innerBlob sdu in
                     if int partCount > MaxSegments then Some (r2, Some TooLarge)
                     else Some (r2\<lparr> r_segments := of_nat partCount, r_transferSize := int (length innerBlob),
                                    r_dataSize := int (length wireBody),
                                    r_hashmap := Some (build_hashmap H randomHash innerBlob sdu),
                                    r_outboundCipher := Some innerBlob, r_readOffset := 0 \<rparr>, None)))))"

text \<open>The offset and length of the part of the body that segment \<open>idx\<close> (from 1) of a split resource carries.\<close>

definition segment_range :: "int \<Rightarrow> int \<Rightarrow> u16 \<Rightarrow> int \<times> int" where
  "segment_range firstRead fileSize idx =
     (if idx = 1 then (0, min firstRead fileSize)
      else
        (let offset = firstRead + int (unat (idx - 2)) * MaxEfficientSize;
             len = (if offset + MaxEfficientSize > fileSize then fileSize - offset else MaxEfficientSize)
         in (offset, if len < 0 then 0 else len)))"

definition PrepareOutboundForLink ::
  "hashfn \<Rightarrow> (bytes \<Rightarrow> bytes option) \<Rightarrow> bytes option \<Rightarrow> bytes option \<Rightarrow> (bytes \<Rightarrow> bytes crypto) \<Rightarrow> int \<Rightarrow> resource
     \<Rightarrow> (resource \<times> resource_error option) option" where
  "PrepareOutboundForLink H bz rnd packed enc sdu r0 =
     (if sdu \<le> 0 then Some (r0, Some InvalidSDU)
      else
        (let r1 = r0\<lparr> r_outboundPartSent := None, r_outboundSentCount := 0 \<rparr> in
         case ensureMetadataPackedLocked packed r1 of
           (r2, Some e) \<Rightarrow> Some (r2, Some e)
         | (r2, None) \<Rightarrow>
            (let metaLen = int (length (r_metadataPacked r2)) in
             case rawBodySizeLocked r2 of
               Inl e \<Rightarrow> Some (r2, Some e)
             | Inr fileSize \<Rightarrow>
                (let totalSize = fileSize + metaLen;
                     r3 = r2\<lparr> r_totalSize := totalSize,
                              r_segmentIndex := (if r_segmentIndex r2 = 0 then 1 else r_segmentIndex r2) \<rparr>
                 in if totalSize \<le> MaxEfficientSize
                    then
                      (let r4 = r3\<lparr> r_split := False, r_totalSegments := 1, r_segmentIndex := 1 \<rparr> in
                       case readRawBodyLocked 0 fileSize r4 of
                         (Inl e, r5) \<Rightarrow> Some (r5, Some e)
                       | (Inr body, r5) \<Rightarrow> finishPrepareSegmentLocked H bz rnd enc (nat sdu) body True r5)
                    else
                      (let r4 = r3\<lparr> r_split := True,
                                    r_totalSegments := of_int ((totalSize - 1) div MaxEfficientSize + 1) \<rparr>;
                           idx = r_segmentIndex r4
                       in if idx < 1 \<or> idx > r_totalSegments r4 then Some (r4, Some InvalidSegmentIndex)
                          else if MaxEfficientSize - metaLen < 0 then Some (r4, Some MetadataExceedsSegment)
                          else
                            (let (offset, len) = segment_range (MaxEfficientSize - metaLen) fileSize idx in
                             case readRawBodyLocked offset len r4 of
                               (Inl e, r5) \<Rightarrow> Some (r5, Some e)
                             | (Inr body, r5) \<Rightarrow> finishPrepareSegmentLocked H bz rnd enc (nat sdu) body (idx = 1) r5))))))"

definition PrepareNextOutboundSegment ::
  "hashfn \<Rightarrow> (bytes \<Rightarrow> bytes option) \<Rightarrow> bytes option \<Rightarrow> bytes option \<Rightarrow> (bytes \<Rightarrow> bytes crypto) \<Rightarrow> int \<Rightarrow> resource
     \<Rightarrow> (resource \<times> resource_error option) option" where
  "PrepareNextOutboundSegment H bz rnd packed enc sdu r =
     (if \<not> r_split r \<or> r_segmentIndex r \<ge> r_totalSegments r then Some (r, Some NoNextSegment)
      else PrepareOutboundForLink H bz rnd packed enc sdu (r\<lparr> r_segmentIndex := r_segmentIndex r + 1 \<rparr>))"

section \<open>Lookups during a transfer\<close>

definition res_Read :: "nat \<Rightarrow> resource \<Rightarrow> (resource_error + bytes) \<times> resource" where
  "res_Read n r =
     (let buffered = (\<lambda>d. if r_readOffset r \<ge> length d then (Inl EndOfData, r)
                          else (let s = take n (drop (r_readOffset r) d) in
                                (Inr s, r\<lparr> r_readOffset := r_readOffset r + length s \<rparr>)))
      in case r_outboundCipher r of
           Some d \<Rightarrow> buffered d
         | None \<Rightarrow>
            (case r_data r of
               Some d \<Rightarrow> buffered d
             | None \<Rightarrow>
                (case r_file r of
                   Some c \<Rightarrow>
                     (let s = take n (drop (r_filePos r) c) in
                      if s = [] \<and> 0 < n then (Inl EndOfData, r) else (Inr s, r\<lparr> r_filePos := r_filePos r + length s \<rparr>))
                 | None \<Rightarrow> (Inl NoDataSource, r))))"

definition res_IsRequest :: "resource \<Rightarrow> bool" where
  "res_IsRequest r \<longleftrightarrow> r_requestID r \<noteq> None \<and> \<not> r_isResponse r"

text \<open>\<open>MapHashAt\<close>, with \<open>None\<close> for nil.\<close>

definition MapHashAt :: "int \<Rightarrow> resource \<Rightarrow> bytes option" where
  "MapHashAt i r =
     (let m = (case r_hashmap r of None \<Rightarrow> [] | Some m \<Rightarrow> m); off = nat i * MapHashLen in
      if i < 0 then None
      else if off + MapHashLen > length m then None
      else Some (take MapHashLen (drop off m)))"

definition PartIndicesForMapHash :: "bytes \<Rightarrow> resource \<Rightarrow> nat list" where
  "PartIndicesForMapHash mh r =
     (case r_hashmap r of
        None \<Rightarrow> []
      | Some m \<Rightarrow>
          if length mh \<noteq> MapHashLen then []
          else filter (\<lambda>i. take MapHashLen (drop (i * MapHashLen) m) = mh) [0..<length m div MapHashLen])"

definition PartIndexForMapHash :: "bytes \<Rightarrow> resource \<Rightarrow> int" where
  "PartIndexForMapHash mh r = (case PartIndicesForMapHash mh r of [] \<Rightarrow> -1 | i # _ \<Rightarrow> int i)"

definition OutboundCiphertextSlice :: "int \<Rightarrow> int \<Rightarrow> resource \<Rightarrow> bytes option" where
  "OutboundCiphertextSlice partIndex sdu r =
     (case r_outboundCipher r of
        None \<Rightarrow> None
      | Some c \<Rightarrow>
          if sdu \<le> 0 then None
          else if partIndex < 0 \<or> partIndex \<ge> int (unat (r_segments r)) then None
          else if nat (partIndex * sdu) \<ge> length c then None
          else Some (part_slice c (nat sdu) (nat partIndex)))"

definition MarkOutboundPartSent :: "int \<Rightarrow> resource \<Rightarrow> bool \<times> resource" where
  "MarkOutboundPartSent i r =
     (let n = unat (r_segments r) in
      if n = 0 then (True, r)
      else if i < 0 \<or> i \<ge> int n then (False, r)
      else
        (let sent = (case r_outboundPartSent r of None \<Rightarrow> replicate n False | Some s \<Rightarrow> s);
             r1 = r\<lparr> r_outboundPartSent := Some sent \<rparr>;
             r2 = (if \<not> sent ! nat i
                   then r1\<lparr> r_outboundPartSent := Some (sent[nat i := True]),
                            r_outboundSentCount := r_outboundSentCount r1 + 1 \<rparr>
                   else r1)
         in (r_outboundSentCount r2 \<ge> n, r2)))"

definition IsOutboundPartSent :: "int \<Rightarrow> resource \<Rightarrow> bool" where
  "IsOutboundPartSent i r \<longleftrightarrow>
     (case r_outboundPartSent r of
        None \<Rightarrow> False
      | Some s \<Rightarrow> 0 \<le> i \<and> i < int (unat (r_segments r)) \<and> s ! nat i)"

definition OutboundTransferComplete :: "resource \<Rightarrow> bool" where
  "OutboundTransferComplete r \<longleftrightarrow> unat (r_segments r) > 0 \<and> r_outboundSentCount r \<ge> unat (r_segments r)"

definition HashmapEntriesPerSegment :: "int \<Rightarrow> int" where
  "HashmapEntriesPerSegment linkMDU =
     (let n = ((if linkMDU \<le> 0 then DefaultLinkMDU else linkMDU) - Overhead) div int MapHashLen in if n \<le> 0 then 1 else n)"

definition HashmapSegment :: "int \<Rightarrow> int \<Rightarrow> resource \<Rightarrow> bytes option" where
  "HashmapSegment linkMDU segment r =
     (let m = (case r_hashmap r of None \<Rightarrow> [] | Some m \<Rightarrow> m);
          entries = HashmapEntriesPerSegment linkMDU;
          totalEntries = int (length m div MapHashLen);
          startEntry = segment * entries;
          endEntry = min (startEntry + entries) totalEntries
      in if segment < 0 \<or> length m = 0 then None
         else if startEntry \<ge> totalEntries then None
         else Some (take (nat (endEntry - startEntry) * MapHashLen) (drop (nat startEntry * MapHashLen) m)))"

definition ExpectedProof :: "hashfn \<Rightarrow> resource \<Rightarrow> bytes option" where
  "ExpectedProof H r =
     (if length (r_hash r) \<noteq> 32 then None
      else case r_data r of
             None \<Rightarrow> None
           | Some d \<Rightarrow>
               (let body = (if length (r_metadataPacked r) > 0 \<and> (r_segmentIndex r = 0 \<or> r_segmentIndex r = 1)
                            then r_metadataPacked r @ d else d)
                in Some (sum256 H (body @ r_hash r))))"

section \<open>Parts and their hash map\<close>

lemma part_slice_take: "part_slice blob sdu i = take sdu (drop (i * sdu) blob)"
  by (simp add: part_slice_def min_def)

lemma concat_chunks:
  "0 < k \<Longrightarrow> length xs \<le> n * k \<Longrightarrow> concat (map (\<lambda>i. take k (drop (i * k) xs)) [0..<n]) = xs"
proof (induction n arbitrary: xs)
  case (Suc n)
  have "[0..<Suc n] = 0 # map Suc [0..<n]" by (simp add: upt_conv_Cons map_Suc_upt)
  then have "concat (map (\<lambda>i. take k (drop (i * k) xs)) [0..<Suc n])
      = take k xs @ concat (map (\<lambda>i. take k (drop (i * k) (drop k xs))) [0..<n])"
    by (simp add: comp_def add.commute)
  moreover have "concat (map (\<lambda>i. take k (drop (i * k) (drop k xs))) [0..<n]) = drop k xs"
    using Suc.prems by (intro Suc.IH) auto
  ultimately show ?case by simp
qed simp

lemma part_count_covers: "0 < sdu \<Longrightarrow> length blob \<le> part_count blob sdu * sdu"
  using div_mult_mod_eq [of "length blob + sdu - 1" sdu] mod_less_divisor [of sdu "length blob + sdu - 1"]
  unfolding part_count_def by linarith

text \<open>The parts of a ciphertext put together again are the ciphertext.\<close>

lemma concat_parts:
  "0 < sdu \<Longrightarrow> concat (map (part_slice blob sdu) [0..<part_count blob sdu]) = blob"
  using concat_chunks [OF _ part_count_covers, of sdu blob] by (simp add: part_slice_take cong: map_cong)

lemma part_start: "0 < sdu \<Longrightarrow> i < part_count blob sdu \<Longrightarrow> i * sdu < length blob"
proof -
  assume a: "0 < sdu" "i < part_count blob sdu"
  then have "Suc i \<le> (length blob + sdu - 1) div sdu" by (simp add: part_count_def)
  then have "Suc i * sdu \<le> length blob + sdu - 1" using a(1) by (simp add: less_eq_div_iff_mult_less_eq)
  then show ?thesis using a(1) by simp
qed

lemma part_slice_nonempty: "0 < sdu \<Longrightarrow> i < part_count blob sdu \<Longrightarrow> part_slice blob sdu i \<noteq> []"
  using part_start [of sdu i blob] by (simp add: part_slice_take)

lemma length_map_hash [simp]: "length (map_hash H rh p) = MapHashLen"
  by (simp add: map_hash_def MapHashLen_def)

lemma concat_fixed_nth:
  "(\<And>i. i < n \<Longrightarrow> length (f i) = k) \<Longrightarrow> i < n \<Longrightarrow> take k (drop (i * k) (concat (map f [0..<n]))) = f i"
proof (induction n arbitrary: i f)
  case (Suc n)
  have e: "concat (map f [0..<Suc n]) = f 0 @ concat (map (\<lambda>i. f (Suc i)) [0..<n])"
    by (simp add: upt_conv_Cons map_Suc_upt [symmetric] comp_def del: upt_Suc)
  show ?case
  proof (cases i)
    case (Suc j)
    have "take k (drop (j * k) (concat (map (\<lambda>i. f (Suc i)) [0..<n]))) = f (Suc j)"
      using Suc Suc.prems by (intro Suc.IH) auto
    then show ?thesis using Suc Suc.prems(1) [of 0] unfolding e by simp
  next
    case 0
    then show ?thesis using Suc.prems(1) [of 0] unfolding e by simp
  qed
qed simp

lemma length_concat_fixed: "(\<And>i. i < n \<Longrightarrow> length (f i) = k) \<Longrightarrow> length (concat (map f [0..<n])) = n * k"
  by (induction n) auto

lemma length_build_hashmap: "length (build_hashmap H rh blob sdu) = part_count blob sdu * MapHashLen"
  by (simp add: build_hashmap_def length_concat_fixed)

lemma build_hashmap_nth:
  "i < part_count blob sdu \<Longrightarrow>
     take MapHashLen (drop (i * MapHashLen) (build_hashmap H rh blob sdu)) = map_hash H rh (part_slice blob sdu i)"
  unfolding build_hashmap_def by (rule concat_fixed_nth) auto

section \<open>The fixed segmentation\<close>

lemma concat_last_rest:
  "(n - 1) * k \<le> length xs \<Longrightarrow> 0 < n \<Longrightarrow>
     concat (map (\<lambda>i. if i = n - 1 then drop (i * k) xs else take k (drop (i * k) xs)) [0..<n]) = xs"
proof (induction n)
  case (Suc n)
  have "concat (map (\<lambda>i. if i = Suc n - 1 then drop (i * k) xs else take k (drop (i * k) xs)) [0..<Suc n])
      = concat (map (\<lambda>i. take k (drop (i * k) (take (n * k) xs))) [0..<n]) @ drop (n * k) xs"
  proof -
    have "take k (drop (i * k) (take (n * k) xs)) = take k (drop (i * k) xs)" if "i < n" for i
    proof -
      have "i * k + k \<le> n * k" using mult_le_mono1 [of "Suc i" n k] that by simp
      then show ?thesis by (simp add: drop_take min_absorb1)
    qed
    then have "concat (map (\<lambda>i. if i = n then drop (i * k) xs else take k (drop (i * k) xs)) [0..<n])
        = concat (map (\<lambda>i. take k (drop (i * k) (take (n * k) xs))) [0..<n])" by (intro arg_cong [of _ _ concat] map_cong) auto
    then show ?thesis by simp
  qed
  also have "concat (map (\<lambda>i. take k (drop (i * k) (take (n * k) xs))) [0..<n]) = take (n * k) xs"
    using concat_chunks [of k "take (n * k) xs" n] by (cases "k = 0") auto
  finally show ?case by simp
qed simp

lemma parts_of_bounds:
  assumes "0 \<le> sz" "n = unat (parts_of sz)"
  shows "0 < n" "int (n - 1) * 384 \<le> sz" "n < 65536"
proof -
  define p where "p = (sz + 383) div 384"
  have "0 \<le> p" using assms(1) by (simp add: p_def)
  have u: "unat (word_of_int q :: u16) = nat q" if "0 \<le> q" "q \<le> 65535" for q
    using that by (simp add: unat_eq_nat_uint uint_word_of_int)
  have n: "n = nat (if p < 1 then 1 else if p > 65535 then 65535 else p)"
    unfolding assms(2) parts_of_def size_consts Let_def p_def [symmetric]
    using u [of 1] u [of 65535] u [of p] by (auto simp: p_def add.commute)
  show "0 < n" "n < 65536" using n by auto
  have "p * 384 \<le> sz + 383" by (simp add: p_def)
  then show "int (n - 1) * 384 \<le> sz" using n assms(1) by (auto split: if_splits)
qed

lemma new_resource_fields [simp]:
  "r_data (new_resource H e c d f sz) = d" "r_file (new_resource H e c d f sz) = f"
  "r_dataSize (new_resource H e c d f sz) = sz" "r_segments (new_resource H e c d f sz) = parts_of sz"
  "r_autoCompress (new_resource H e c d f sz) = c" "r_segmentIndex (new_resource H e c d f sz) = 0"
  "r_sourceData (new_resource H e c d f sz) = None" "r_originalHash (new_resource H e c d f sz) = None"
  "r_metadataPacked (new_resource H e c d f sz) = []" "r_hasMetadata (new_resource H e c d f sz) = False"
  "r_status (new_resource H e c d f sz) = res_StatusPending" "r_requestID (new_resource H e c d f sz) = None"
  by (simp_all add: new_resource_def calculateHash_def split: option.split)

text \<open>
  The segments of a new resource are a partition of its data: every segment number below the
  count gives its data without a panic or error, and the segments in order are the whole data.
\<close>

theorem segments_partition_data:
  assumes "res_New H estimate (SrcBytes d) c = Inr r"
  shows "\<exists>f. (\<forall>i < unat (r_segments r). GetSegmentData (of_nat i) r = Some (Inr (f i), r))
    \<and> concat (map f [0..<unat (r_segments r)]) = d"
proof -
  define n where "n = unat (r_segments r)"
  have r: "r_data r = Some d" "r_dataSize r = int (length d)" "r_segments r = parts_of (int (length d))"
    using assms by (auto simp: res_New_def)
  note b = parts_of_bounds [OF _ n_def [unfolded r(3)], OF of_nat_0_le_iff]
  let ?f = "\<lambda>i. if i = n - 1 then drop (i * 384) d else take 384 (drop (i * 384) d)"
  have le: "(n - 1) * 384 \<le> length d" using b(2) by linarith
  have "GetSegmentData (of_nat i) r = Some (Inr (?f i), r)" if "i < n" for i
  proof -
    have u: "unat (of_nat i :: u16) = i" using that b(3) by (simp add: unat_of_nat)
    have lt: "\<not> r_segments r \<le> (of_nat i :: u16)" using that u by (simp add: word_le_nat_alt n_def)
    have "unat (r_segments r - 1) = n - 1" using b(1) by (simp add: n_def unat_sub word_le_nat_alt)
    then have last: "(of_nat i :: u16) = r_segments r - 1 \<longleftrightarrow> i = n - 1" using u by (simp add: word_unat_eq_iff)
    show ?thesis
    proof (cases "i = n - 1")
      case True
      then have "i * 384 \<le> length d" using le by simp
      then show ?thesis using lt last True u r(1,2)
        by (simp add: GetSegmentData_def DefaultSegmentSize_def Let_def nat_mult_distrib)
    next
      case False
      then have "(i + 1) * 384 \<le> (n - 1) * 384" using that by (intro mult_le_mono1) simp
      then have e: "i * 384 + 384 \<le> length d" using le by simp
      have "nat (int i * 384) = i * 384" "nat (int i * 384 + 384) = i * 384 + 384" by auto
      then show ?thesis using lt last False e u r(1,2)
        by (simp add: GetSegmentData_def DefaultSegmentSize_def Let_def)
    qed
  qed
  moreover have "concat (map ?f [0..<n]) = d" by (rule concat_last_rest [OF le b(1)])
  ultimately show ?thesis unfolding n_def [symmetric] by (intro exI [of _ ?f] conjI allI impI)
qed

section \<open>Prepared resources\<close>

text \<open>
  What the preparation leaves behind: \<open>wire\<close> is the uncompressed content of the segment (the metadata
  prefix and the body), \<open>payload\<close> the content that is encrypted behind the random prefix \<open>rh\<close>, \<open>blob\<close>
  the ciphertext that is cut into parts.
\<close>

definition prepared ::
  "hashfn \<Rightarrow> (bytes \<Rightarrow> bytes option) \<Rightarrow> (bytes \<Rightarrow> bytes crypto) \<Rightarrow> nat \<Rightarrow> bytes \<Rightarrow> bytes \<Rightarrow> bytes \<Rightarrow> bytes \<Rightarrow> resource \<Rightarrow> bool" where
  "prepared H bz enc sdu rh wire payload blob r \<longleftrightarrow>
     length rh = RandomHashSize \<and> r_randomHash r = Some rh \<and> r_encrypted r
     \<and> (if r_compressed r then bz wire = Some payload \<and> length payload < length wire else payload = wire)
     \<and> enc (rh @ payload) = Some (Inr blob) \<and> int (part_count blob sdu) \<le> MaxSegments
     \<and> r_hash r = sum256 H (wire @ rh) \<and> r_hashmap r = Some (build_hashmap H rh blob sdu)
     \<and> r_outboundCipher r = Some blob \<and> r_segments r = of_nat (part_count blob sdu)
     \<and> r_transferSize r = int (length blob) \<and> r_outboundPartSent r = None
     \<and> ExpectedProof H r = Some (sum256 H (wire @ r_hash r))"

lemma finish_prepared:
  assumes "finishPrepareSegmentLocked H bz rnd enc sdu body incl r = Some (r', None)"
    and "r_outboundPartSent r = None" "incl \<longleftrightarrow> r_segmentIndex r = 1" "r_segmentIndex r \<noteq> 0"
  defines "wire \<equiv> if incl then r_metadataPacked r @ body else body"
  shows "(\<exists>rh payload blob. prepared H bz enc sdu rh wire payload blob r') \<and> r_segmentIndex r' = r_segmentIndex r
    \<and> r_totalSegments r' = r_totalSegments r \<and> r_split r' = r_split r \<and> r_totalSize r' = r_totalSize r
    \<and> r_status r' = r_status r \<and> r_metadataPacked r' = r_metadataPacked r
    \<and> r_sourceData r' = (if r_split r \<and> r_sourceData r = None \<and> r_data r \<noteq> None \<and> r_file r = None then r_data r else r_sourceData r)
    \<and> r_file r' = r_file r \<and> r_dataSize r' = int (length wire) \<and> r_data r' = Some body"
proof -
  have w: "(if incl \<and> length (r_metadataPacked r) > 0 then r_metadataPacked r @ body else body) = wire"
    by (simp add: wire_def)
  obtain rb where rb: "rnd = Some rb"
    using assms(1) by (cases rnd) (simp_all add: finishPrepareSegmentLocked_def)
  note d = assms(1) [unfolded finishPrepareSegmentLocked_def w rb Let_def option.case]
  obtain payload z where z: "(if r_autoCompress r
      then (case bz wire of None \<Rightarrow> None | Some z \<Rightarrow> Some (if length z < length wire then (z, True) else (wire, False)))
      else Some (wire, False)) = Some (payload, z)"
    using d by (cases "if r_autoCompress r
      then (case bz wire of None \<Rightarrow> None | Some z \<Rightarrow> Some (if length z < length wire then (z, True) else (wire, False)))
      else Some (wire, False)") auto
  have pz: "if z then bz wire = Some payload \<and> length payload < length wire else payload = wire"
    using z by (auto split: if_splits option.splits)
  note d = d [unfolded z option.case prod.case]
  obtain blob where b: "enc (fixed RandomHashSize rb @ payload) = Some (Inr blob)"
    using d by (cases "enc (fixed RandomHashSize rb @ payload)") (auto split: sum.splits)
  note d = d [unfolded b option.case sum.case]
  have le: "\<not> MaxSegments < int (part_count blob sdu)"
    using d by (cases "MaxSegments < int (part_count blob sdu)") simp_all
  note r' = d [unfolded if_not_P [OF le] option.inject prod.inject, THEN conjunct1, symmetric]
  have e: "ExpectedProof H r' = Some (sum256 H (wire @ r_hash r'))"
    unfolding r' ExpectedProof_def using assms(3,4) by (simp add: wire_def)
  have "prepared H bz enc sdu (fixed RandomHashSize rb) wire payload blob r'"
    unfolding prepared_def e unfolding r' using pz b le assms(2) by (simp add: not_less)
  moreover have "r_segmentIndex r' = r_segmentIndex r" "r_totalSegments r' = r_totalSegments r" "r_split r' = r_split r"
    "r_totalSize r' = r_totalSize r" "r_status r' = r_status r" "r_metadataPacked r' = r_metadataPacked r"
    "r_sourceData r' = (if r_split r \<and> r_sourceData r = None \<and> r_data r \<noteq> None \<and> r_file r = None then r_data r else r_sourceData r)"
    "r_file r' = r_file r" "r_dataSize r' = int (length wire)" "r_data r' = Some body"
    unfolding r' by simp_all
  ultimately show ?thesis by (intro conjI exI) 
qed

text \<open>The bytes a resource is made of: the file, or the source kept from before a split, or the data.\<close>

definition whole_body :: "resource \<Rightarrow> bytes option" where
  "whole_body r = (case r_file r of Some c \<Rightarrow> Some c | None \<Rightarrow> raw_source r)"

lemma rawBodySize_whole: "rawBodySizeLocked r = (case whole_body r of None \<Rightarrow> Inl NoData | Some b \<Rightarrow> Inr (int (length b)))"
  by (simp add: rawBodySizeLocked_def whole_body_def split: option.split)

lemma readRawBody_whole:
  assumes "whole_body r = Some b" "0 \<le> offset" "0 \<le> len" "offset + len \<le> int (length b)"
  shows "\<exists>pos. readRawBodyLocked offset len r = (Inr (take (nat len) (drop (nat offset) b)), r\<lparr> r_filePos := pos \<rparr>)"
proof (cases "len = 0")
  case True
  then show ?thesis by (auto simp: readRawBodyLocked_def intro!: exI [of _ "r_filePos r"])
next
  case False
  show ?thesis
  proof (cases "r_file r")
    case None
    then have "raw_source r = Some b" using assms(1) by (simp add: whole_body_def)
    then show ?thesis using None False assms
      by (auto simp: readRawBodyLocked_def min_def intro!: exI [of _ "r_filePos r"])
  next
    case (Some c)
    then show ?thesis using False assms by (simp add: readRawBodyLocked_def whole_body_def Let_def) blast
  qed
qed

text \<open>Segment \<open>k\<close>, counted from 1, of the metadata and the body together.\<close>

definition segment_wire :: "bytes \<Rightarrow> bytes \<Rightarrow> nat \<Rightarrow> bytes" where
  "segment_wire meta body k = take (nat MaxEfficientSize) (drop ((k - 1) * nat MaxEfficientSize) (meta @ body))"

definition segment_count :: "bytes \<Rightarrow> bytes \<Rightarrow> nat" where
  "segment_count meta body = max 1 ((length (meta @ body) + nat MaxEfficientSize - 1) div nat MaxEfficientSize)"

lemma segments_cover: "concat (map (segment_wire meta body) [1..<Suc (segment_count meta body)]) = meta @ body"
proof -
  let ?m = "nat MaxEfficientSize"
  have m: "0 < ?m" by (simp add: MaxEfficientSize_def)
  have "length (meta @ body) \<le> part_count (meta @ body) ?m * ?m" by (rule part_count_covers [OF m])
  also have "\<dots> \<le> segment_count meta body * ?m" by (simp add: segment_count_def part_count_def)
  finally have "concat (map (\<lambda>i. take ?m (drop (i * ?m) (meta @ body))) [0..<segment_count meta body]) = meta @ body"
    by (rule concat_chunks [OF m])
  moreover have "[1..<Suc (segment_count meta body)] = map Suc [0..<segment_count meta body]" by (simp add: map_Suc_upt)
  ultimately show ?thesis by (simp add: segment_wire_def comp_def)
qed

lemma segment_range_body:
  assumes "int (length meta) \<le> MaxEfficientSize" "idx \<noteq> 0" "int (unat idx - 1) * MaxEfficientSize < int (length (meta @ body))"
    and "segment_range (MaxEfficientSize - int (length meta)) (int (length body)) idx = (offset, len)"
  shows "0 \<le> offset \<and> 0 \<le> len \<and> offset + len \<le> int (length body)
    \<and> (if idx = 1 then meta @ take (nat len) (drop (nat offset) body) else take (nat len) (drop (nat offset) body))
      = segment_wire meta body (unat idx)"
proof (cases "idx = 1")
  case True
  then show ?thesis using assms(1,4)
    by (auto simp: segment_range_def segment_wire_def MaxEfficientSize_def min_def nat_diff_distrib split: if_splits)
next
  case False
  define k where "k = unat idx - 2"
  have i: "unat idx = k + 2" "unat (idx - 2) = k"
  proof -
    have "unat idx \<noteq> 0" using assms(2) by (simp add: unat_eq_zero)
    moreover have "unat idx \<noteq> 1"
    proof
      assume "unat idx = 1"
      then have "unat idx = unat (1 :: u16)" by simp
      then show False using False by (simp only: word_unat_eq_iff [symmetric])
    qed
    ultimately have "2 \<le> unat idx" by linarith
    then show "unat idx = k + 2" "unat (idx - 2) = k" by (auto simp: k_def unat_sub word_le_nat_alt)
  qed
  define M where "M = nat MaxEfficientSize"
  have M: "MaxEfficientSize = int M" by (simp add: M_def MaxEfficientSize_def)
  define p where "p = (k + 1) * M"
  have p: "int p = int M + int k * int M" by (simp add: p_def algebra_simps)
  have lt: "p < length meta + length body" using assms(3) unfolding M i
    by (simp add: p_def) (metis (mono_tags) of_nat_less_iff of_nat_add of_nat_mult of_nat_Suc add.commute mult_Suc)
  have lm: "length meta \<le> M" using assms(1) by (simp add: M)
  have s: "length meta \<le> p" using lm by (simp add: p_def)
  have "offset = int p - int (length meta)
      \<and> len = (if int p - int (length meta) + int M > int (length body) then int (length body) - (int p - int (length meta)) else int M)"
  proof -
    have e: "int M - int (length meta) + int k * int M = int p - int (length meta)" by (simp add: p)
    have "int p - int (length meta) < int (length body)" using lt s by linarith
    then show ?thesis using assms(4) [unfolded segment_range_def Let_def M i(2) e] False by (auto split: if_splits)
  qed
  then have ol: "offset = int (p - length meta)" "len = int (min M (length body - (p - length meta)))"
    using lt s by (auto simp: of_nat_diff min_def)
  have "drop p (meta @ body) = drop (p - length meta) body" using s by simp
  then have w: "segment_wire meta body (unat idx) = take M (drop (p - length meta) body)"
    by (simp add: segment_wire_def M_def [symmetric] i p_def del: drop_append)
  have "take (min M (length body - x)) (drop x body) = take M (drop x body)" for x
    by (simp add: min_def)
  then have "take (nat len) (drop (nat offset) body) = segment_wire meta body (unat idx)" by (simp add: ol w)
  moreover have "offset + len \<le> int (length body)" using lt s by (auto simp: ol min_def)
  ultimately show ?thesis using False by (simp add: ol)
qed

lemma ensureMetadata_frame:
  "ensureMetadataPackedLocked packed r = (r', None) \<Longrightarrow> \<exists>m. r' = r\<lparr> r_metadataPacked := m \<rparr>"
  by (auto simp: ensureMetadataPackedLocked_def split: if_splits option.splits intro: exI [of _ "r_metadataPacked r"])

lemma whole_body_update [simp]:
  "whole_body (r\<lparr> r_metadataPacked := m \<rparr>) = whole_body r" "whole_body (r\<lparr> r_totalSize := t \<rparr>) = whole_body r"
  "whole_body (r\<lparr> r_segmentIndex := i \<rparr>) = whole_body r" "whole_body (r\<lparr> r_totalSegments := n \<rparr>) = whole_body r"
  "whole_body (r\<lparr> r_split := b \<rparr>) = whole_body r" "whole_body (r\<lparr> r_filePos := p \<rparr>) = whole_body r"
  "whole_body (r\<lparr> r_outboundPartSent := s \<rparr>) = whole_body r" "whole_body (r\<lparr> r_outboundSentCount := c \<rparr>) = whole_body r"
  by (simp_all add: whole_body_def raw_source_def split: option.split)

lemma segment_count_one: "segment_count meta body = 1 \<longleftrightarrow> int (length (meta @ body)) \<le> MaxEfficientSize"
proof -
  define M where "M = nat MaxEfficientSize"
  have M: "MaxEfficientSize = int M" "0 < M" by (simp_all add: M_def MaxEfficientSize_def)
  have "(n + M - 1) div M \<le> 1 \<longleftrightarrow> n \<le> M" for n
    using div_le_mono [of "n + M - 1" "2 * M - 1" M] div_less_iff_less_mult [OF M(2), of "n + M - 1" 2] M(2) by auto
  then have "(length (meta @ body) + M - 1) div M \<le> 1 \<longleftrightarrow> length (meta @ body) \<le> M" by blast
  moreover have "segment_count meta body = 1 \<longleftrightarrow> (length (meta @ body) + M - 1) div M \<le> 1"
    unfolding segment_count_def M_def [symmetric] by linarith
  ultimately show ?thesis unfolding M(1) by linarith
qed

lemma total_segments:
  assumes "int (length (meta @ body)) > MaxEfficientSize" "int (length (meta @ body)) \<le> 65535 * MaxEfficientSize"
  shows "unat (of_int ((int (length body) + int (length meta) - 1) div MaxEfficientSize + 1) :: u16) = segment_count meta body"
    "segment_count meta body \<le> 65535"
proof -
  define M where "M = nat MaxEfficientSize"
  have M: "MaxEfficientSize = int M" "0 < M" by (simp_all add: M_def MaxEfficientSize_def)
  define n where "n = length (meta @ body)"
  have n: "M < n" "n \<le> 65535 * M" using assms unfolding n_def [symmetric] M(1) by linarith+
  have c: "segment_count meta body = (n - 1) div M + 1"
  proof -
    have "(n + M - 1) div M = (n - 1 + M) div M" using n by simp
    also have "\<dots> = (n - 1) div M + 1" using M(2) by (subst div_add_self2) simp_all
    finally show ?thesis unfolding segment_count_def M_def [symmetric] n_def [symmetric] by simp
  qed
  have "(n - 1) div M < 65535" using n M(2) by (simp add: div_less_iff_less_mult)
  then show le: "segment_count meta body \<le> 65535" by (simp add: c)
  have "(int (length body) + int (length meta) - 1) div int M + 1 = int ((n - 1) div M + 1)"
    using n(1) by (simp add: n_def zdiv_int of_nat_diff add.commute)
  then show "unat (of_int ((int (length body) + int (length meta) - 1) div MaxEfficientSize + 1) :: u16) = segment_count meta body"
    using le unfolding M(1) c by (simp add: unat_of_nat flip: of_nat_Suc of_nat_add)
qed

lemma segment_index_within:
  assumes "0 < k" "k \<le> segment_count meta body" "1 < segment_count meta body"
  shows "int (k - 1) * MaxEfficientSize < int (length (meta @ body))"
proof -
  define M where "M = nat MaxEfficientSize"
  have M: "MaxEfficientSize = int M" "0 < M" by (simp_all add: M_def MaxEfficientSize_def)
  have "k \<le> part_count (meta @ body) M" using assms by (auto simp: segment_count_def part_count_def M_def max_def split: if_splits)
  then have "(k - 1) * M < length (meta @ body)" using assms(1) by (intro part_start [OF M(2)]) simp
  then show ?thesis unfolding M(1) by (metis of_nat_less_iff of_nat_mult)
qed

lemma readRawBody_frame: "readRawBodyLocked offset len r = (x, r') \<Longrightarrow> \<exists>pos. r' = r\<lparr> r_filePos := pos \<rparr>"
  by (auto simp: readRawBodyLocked_def Let_def split: if_splits option.splits intro: exI [of _ "r_filePos r"])


definition sample_resource :: resource where
  "sample_resource = new_resource sample_hash 0 False (Some [1, 2, 3, 4, 5]) None 5"

theorem segments_partition_data_witness:
  "res_New sample_hash 0 (SrcBytes [1, 2, 3, 4, 5]) False = Inr sample_resource
   \<and> (\<exists>f. (\<forall>i < unat (r_segments sample_resource). GetSegmentData (of_nat i) sample_resource = Some (Inr (f i), sample_resource))
        \<and> concat (map f [0..<unat (r_segments sample_resource)]) = [1, 2, 3, 4, 5])"
proof -
  have n: "res_New sample_hash 0 (SrcBytes [1, 2, 3, 4, 5]) False = Inr sample_resource"
    by (simp add: res_New_def sample_resource_def)
  show ?thesis using n segments_partition_data [OF n] by blast
qed


end
