(* ===== verification/Resource_Adv.thy ===== *)
theory Resource_Adv
  imports Resource
begin

text \<open>
  Resource advertisements (\<open>pkg/resource/advertisement.go\<close>): their construction from a prepared resource,
  the dictionary that is marshalled, and the validation of a dictionary that arrives.

  The msgpack library is a parameter: \<open>marshal\<close> gives the bytes of a dictionary and \<open>unmarshal\<close> the
  dictionary of some bytes (\<open>None\<close> for an error). A dictionary is the list of its entries, and a value
  of type \<open>any\<close> keeps its dynamic Go type, because the code switches on it. \<open>int\<close> has 64 bits.
\<close>

datatype int_kind = KInt | KInt8 | KInt16 | KInt32 | KInt64 | KUint8 | KUint16 | KUint32 | KUint64

datatype any = ANil | ABool bool | AInt int_kind int | ABytes bytes | AStr string | AOther nat

type_synonym dict = "(string \<times> any) list"

definition math_MaxInt :: int where "math_MaxInt = 2 ^ 63 - 1"
definition math_MinInt :: int where "math_MinInt = - (2 ^ 63)"
definition math_MaxInt32 :: int where "math_MaxInt32 = 2 ^ 31 - 1"
definition math_MaxUint16 :: int where "math_MaxUint16 = 2 ^ 16 - 1"

lemmas math_consts = math_MaxInt_def math_MinInt_def math_MaxInt32_def math_MaxUint16_def

fun kind_range :: "int_kind \<Rightarrow> int \<times> int" where
  "kind_range KInt = (- (2 ^ 63), 2 ^ 63 - 1)"
| "kind_range KInt8 = (- (2 ^ 7), 2 ^ 7 - 1)"
| "kind_range KInt16 = (- (2 ^ 15), 2 ^ 15 - 1)"
| "kind_range KInt32 = (- (2 ^ 31), 2 ^ 31 - 1)"
| "kind_range KInt64 = (- (2 ^ 63), 2 ^ 63 - 1)"
| "kind_range KUint8 = (0, 2 ^ 8 - 1)"
| "kind_range KUint16 = (0, 2 ^ 16 - 1)"
| "kind_range KUint32 = (0, 2 ^ 32 - 1)"
| "kind_range KUint64 = (0, 2 ^ 64 - 1)"

text \<open>A value that exists: an integer within the range of its type.\<close>

fun any_ok :: "any \<Rightarrow> bool" where
  "any_ok (AInt k n) = (fst (kind_range k) \<le> n \<and> n \<le> snd (kind_range k))"
| "any_ok v = True"

section \<open>Flags\<close>

definition AdvFlagEncrypted :: byte where "AdvFlagEncrypted = 0x01"
definition AdvFlagCompressed :: byte where "AdvFlagCompressed = 0x02"
definition AdvFlagSplit :: byte where "AdvFlagSplit = 0x04"
definition AdvFlagIsRequest :: byte where "AdvFlagIsRequest = 0x08"
definition AdvFlagIsResponse :: byte where "AdvFlagIsResponse = 0x10"
definition AdvFlagHasMetadata :: byte where "AdvFlagHasMetadata = 0x20"

lemmas adv_flag_defs = AdvFlagEncrypted_def AdvFlagCompressed_def AdvFlagSplit_def AdvFlagIsRequest_def
  AdvFlagIsResponse_def AdvFlagHasMetadata_def

section \<open>The advertisement\<close>

record resource_adv =
  a_TransferSize :: int
  a_DataSize :: int
  a_Parts :: int
  a_Hash :: "bytes option"
  a_RandomHash :: "bytes option"
  a_OriginalHash :: "bytes option"
  a_Hashmap :: "bytes option"
  a_Compressed :: bool
  a_Encrypted :: bool
  a_Split :: bool
  a_HasMetadata :: bool
  a_SegmentIndex :: u16
  a_TotalSegments :: u16
  a_RequestID :: "bytes option"
  a_IsRequest :: bool
  a_IsResponse :: bool
  a_Flags :: byte

definition flag_if :: "bool \<Rightarrow> byte \<Rightarrow> byte \<Rightarrow> byte" where
  "flag_if b f flags = (if b then flags OR f else flags)"

definition adv_flag_byte :: "bool \<Rightarrow> bool \<Rightarrow> bool \<Rightarrow> bool \<Rightarrow> bool \<Rightarrow> bool \<Rightarrow> byte" where
  "adv_flag_byte encrypted compressed split isRequest isResponse hasMetadata =
     flag_if encrypted AdvFlagEncrypted (flag_if compressed AdvFlagCompressed (flag_if split AdvFlagSplit
       (flag_if isRequest AdvFlagIsRequest (flag_if isResponse AdvFlagIsResponse (flag_if hasMetadata AdvFlagHasMetadata 0)))))"

definition NewResourceAdvertisement :: "resource \<Rightarrow> resource_adv" where
  "NewResourceAdvertisement res =
     \<lparr> a_TransferSize = r_transferSize res, a_DataSize = GetTotalSize res, a_Parts = int (unat (r_segments res)),
       a_Hash = Some (r_hash res), a_RandomHash = r_randomHash res, a_OriginalHash = r_originalHash res,
       a_Hashmap = r_hashmap res, a_Compressed = r_compressed res, a_Encrypted = r_encrypted res,
       a_Split = r_split res, a_HasMetadata = HasMetadata res, a_SegmentIndex = r_segmentIndex res,
       a_TotalSegments = r_totalSegments res, a_RequestID = r_requestID res, a_IsRequest = res_IsRequest res,
       a_IsResponse = r_isResponse res,
       a_Flags = adv_flag_byte (r_encrypted res) (r_compressed res) (r_split res) (res_IsRequest res) (r_isResponse res)
                   (HasMetadata res) \<rparr>"

definition packInt64Compact :: "int \<Rightarrow> any" where
  "packInt64Compact v = (if v \<ge> math_MinInt \<and> v \<le> math_MaxInt then AInt KInt v else AInt KInt64 v)"

text \<open>A byte slice as a value: the encoder writes nil for a nil slice.\<close>

definition any_bytes :: "bytes option \<Rightarrow> any" where
  "any_bytes b = (case b of None \<Rightarrow> ANil | Some x \<Rightarrow> ABytes x)"

text \<open>
  The dictionary of \<open>Pack\<close> for one segment of the hash map; \<open>None\<close> when the slice expression panics,
  which happens for a segment past the end of the map. A slice of a nil map is nil.
\<close>

definition adv_dict :: "int \<Rightarrow> int \<Rightarrow> resource_adv \<Rightarrow> dict option" where
  "adv_dict segment linkMDU ra =
     (let hashmapMaxLen = HashmapEntriesPerSegment linkMDU;
          m = (case a_Hashmap ra of None \<Rightarrow> [] | Some m \<Rightarrow> m);
          hashmapStart = segment * hashmapMaxLen;
          hashmapEnd = min (hashmapStart + hashmapMaxLen) (int (length m div MapHashLen))
      in if hashmapStart < 0 \<or> hashmapEnd < 0 then None
         else case go_slice m (nat hashmapStart * MapHashLen) (nat hashmapEnd * MapHashLen) of
                None \<Rightarrow> None
              | Some hashmap \<Rightarrow>
                  Some [(''t'', packInt64Compact (a_TransferSize ra)), (''d'', packInt64Compact (a_DataSize ra)),
                        (''n'', AInt KInt (a_Parts ra)), (''h'', any_bytes (a_Hash ra)), (''r'', any_bytes (a_RandomHash ra)),
                        (''o'', any_bytes (a_OriginalHash ra)), (''i'', AInt KInt (int (unat (a_SegmentIndex ra)))),
                        (''l'', AInt KInt (int (unat (a_TotalSegments ra)))), (''q'', any_bytes (a_RequestID ra)),
                        (''f'', AInt KUint8 (uint (a_Flags ra))),
                        (''m'', any_bytes (if a_Hashmap ra = None then None else Some hashmap))])"

definition adv_Pack :: "(dict \<Rightarrow> bytes option) \<Rightarrow> int \<Rightarrow> int \<Rightarrow> resource_adv \<Rightarrow> bytes option option" where
  "adv_Pack marshal segment linkMDU ra = map_option marshal (adv_dict segment linkMDU ra)"

section \<open>Validation of a received dictionary\<close>

datatype adv_error =
    AdvTooLarge | AdvUnmarshal | TransferSizeOverflow | TransferSizeNegative | TransferSizeInvalid
  | DataSizeOverflow | DataSizeNegative | PartsOutOfRange | PartsOverflow | PartsNegative
  | HashLength | OriginalHashLength | FlagsRange | FlagsType | SegmentIndexRange | TotalSegmentsRange

definition coerceUint16 :: "any \<Rightarrow> u16 option" where
  "coerceUint16 v =
     (case v of
        AInt KUint16 n \<Rightarrow> Some (of_int n)
      | AInt KUint8 n \<Rightarrow> Some (of_int n)
      | AInt KUint32 n \<Rightarrow> if n > math_MaxUint16 then None else Some (of_int n)
      | AInt KUint64 n \<Rightarrow> if n > math_MaxUint16 then None else Some (of_int n)
      | AInt KInt n \<Rightarrow> if n < 0 \<or> n > math_MaxUint16 then None else Some (of_int n)
      | AInt KInt8 n \<Rightarrow> if n < 0 then None else Some (of_int n)
      | AInt KInt16 n \<Rightarrow> if n < 0 then None else Some (of_int n)
      | AInt KInt32 n \<Rightarrow> if n < 0 \<or> n > math_MaxUint16 then None else Some (of_int n)
      | AInt KInt64 n \<Rightarrow> if n < 0 \<or> n > math_MaxUint16 then None else Some (of_int n)
      | _ \<Rightarrow> None)"

definition wireFlagsFromAny :: "any \<Rightarrow> adv_error + byte" where
  "wireFlagsFromAny f =
     (case f of
        AInt KUint8 v \<Rightarrow> Inr (of_int v)
      | AInt KInt v \<Rightarrow> if v < 0 \<or> v > 255 then Inl FlagsRange else Inr (of_int v)
      | AInt KInt8 v \<Rightarrow> if v < 0 then Inl FlagsRange else Inr (of_int v)
      | AInt KInt16 v \<Rightarrow> if v < 0 \<or> v > 255 then Inl FlagsRange else Inr (of_int v)
      | AInt KInt32 v \<Rightarrow> if v < 0 \<or> v > 255 then Inl FlagsRange else Inr (of_int v)
      | AInt KInt64 v \<Rightarrow> if v < 0 \<or> v > 255 then Inl FlagsRange else Inr (of_int v)
      | AInt KUint16 v \<Rightarrow> if v > 255 then Inl FlagsRange else Inr (of_int v)
      | AInt KUint32 v \<Rightarrow> if v > 255 then Inl FlagsRange else Inr (of_int v)
      | AInt KUint64 v \<Rightarrow> if v > 255 then Inl FlagsRange else Inr (of_int v)
      | _ \<Rightarrow> Inl FlagsType)"

text \<open>The integer switches of the fields \<open>t\<close>, \<open>d\<close> and \<open>n\<close>; a value of another type leaves zero.\<close>

definition adv_int64 :: "adv_error \<Rightarrow> any option \<Rightarrow> adv_error + int" where
  "adv_int64 overflow v =
     (case v of
        Some (AInt KUint64 t) \<Rightarrow> if t > 2 ^ 63 - 1 then Inl overflow else Inr t
      | Some (AInt _ t) \<Rightarrow> Inr t
      | _ \<Rightarrow> Inr 0)"

definition adv_parts :: "any option \<Rightarrow> adv_error + int" where
  "adv_parts v =
     (case v of
        Some (AInt KInt64 n) \<Rightarrow> if n < 0 \<or> n > math_MaxInt32 then Inl PartsOutOfRange else Inr n
      | Some (AInt KUint64 n) \<Rightarrow> if n > math_MaxInt32 then Inl PartsOverflow else Inr n
      | Some (AInt _ n) \<Rightarrow> Inr n
      | _ \<Rightarrow> Inr 0)"

definition adv_bytes :: "any option \<Rightarrow> bytes option" where
  "adv_bytes v = (case v of Some (ABytes b) \<Rightarrow> Some b | _ \<Rightarrow> None)"

definition adv_hash_bad :: "bytes option \<Rightarrow> bool" where
  "adv_hash_bad h \<longleftrightarrow> (case h of Some b \<Rightarrow> length b \<noteq> 0 \<and> length b \<noteq> 32 | None \<Rightarrow> False)"

definition adv_u16 :: "adv_error \<Rightarrow> any option \<Rightarrow> adv_error + u16" where
  "adv_u16 e v = (case v of None \<Rightarrow> Inr 0 | Some x \<Rightarrow> (case coerceUint16 x of None \<Rightarrow> Inl e | Some n \<Rightarrow> Inr n))"

definition adv_flags :: "any option \<Rightarrow> adv_error + byte" where
  "adv_flags v = (case v of None \<Rightarrow> Inr 0 | Some f \<Rightarrow> wireFlagsFromAny f)"

definition adv_of_dict :: "dict \<Rightarrow> adv_error + resource_adv" where
  "adv_of_dict dict =
     (case adv_int64 TransferSizeOverflow (map_of dict ''t'') of
        Inl e \<Rightarrow> Inl e
      | Inr t \<Rightarrow>
     if t < 0 then Inl TransferSizeNegative
     else if t > MaxEfficientSize * 3 then Inl TransferSizeInvalid
     else case adv_int64 DataSizeOverflow (map_of dict ''d'') of
        Inl e \<Rightarrow> Inl e
      | Inr d \<Rightarrow>
     if d < 0 then Inl DataSizeNegative
     else case adv_parts (map_of dict ''n'') of
        Inl e \<Rightarrow> Inl e
      | Inr n \<Rightarrow>
     if n < 0 then Inl PartsNegative
     else if adv_hash_bad (adv_bytes (map_of dict ''h'')) then Inl HashLength
     else if adv_hash_bad (adv_bytes (map_of dict ''o'')) then Inl OriginalHashLength
     else case adv_flags (map_of dict ''f'') of
        Inl e \<Rightarrow> Inl e
      | Inr flags \<Rightarrow>
     (case adv_u16 SegmentIndexRange (map_of dict ''i'') of
        Inl e \<Rightarrow> Inl e
      | Inr i \<Rightarrow>
     (case adv_u16 TotalSegmentsRange (map_of dict ''l'') of
        Inl e \<Rightarrow> Inl e
      | Inr l \<Rightarrow>
     (let split = (flags AND AdvFlagSplit \<noteq> 0) in
      Inr \<lparr> a_TransferSize = t, a_DataSize = d, a_Parts = n, a_Hash = adv_bytes (map_of dict ''h''),
            a_RandomHash = adv_bytes (map_of dict ''r''), a_OriginalHash = adv_bytes (map_of dict ''o''),
            a_Hashmap = adv_bytes (map_of dict ''m''), a_Compressed = (flags AND AdvFlagCompressed \<noteq> 0),
            a_Encrypted = (flags AND AdvFlagEncrypted \<noteq> 0), a_Split = split,
            a_HasMetadata = (flags AND AdvFlagHasMetadata \<noteq> 0),
            a_SegmentIndex = (if split \<and> i = 0 then 1 else i), a_TotalSegments = (if split \<and> l = 0 then 1 else l),
            a_RequestID = adv_bytes (map_of dict ''q''), a_IsRequest = (flags AND AdvFlagIsRequest \<noteq> 0),
            a_IsResponse = (flags AND AdvFlagIsResponse \<noteq> 0), a_Flags = flags \<rparr>))))"

definition maxAdvertisementBytes :: nat where "maxAdvertisementBytes = 64 * 1024"

definition UnpackResourceAdvertisement :: "(bytes \<Rightarrow> dict option) \<Rightarrow> bytes \<Rightarrow> adv_error + resource_adv" where
  "UnpackResourceAdvertisement unmarshal data =
     (if length data > maxAdvertisementBytes then Inl AdvTooLarge
      else case unmarshal data of None \<Rightarrow> Inl AdvUnmarshal | Some dict \<Rightarrow> adv_of_dict dict)"

definition IsRequestAdvertisement :: "(bytes \<Rightarrow> dict option) \<Rightarrow> bytes \<Rightarrow> bool" where
  "IsRequestAdvertisement unmarshal data \<longleftrightarrow>
     (case UnpackResourceAdvertisement unmarshal data of Inl _ \<Rightarrow> False | Inr adv \<Rightarrow> a_IsRequest adv \<and> a_RequestID adv \<noteq> None)"

definition IsResponseAdvertisement :: "(bytes \<Rightarrow> dict option) \<Rightarrow> bytes \<Rightarrow> bool" where
  "IsResponseAdvertisement unmarshal data \<longleftrightarrow>
     (case UnpackResourceAdvertisement unmarshal data of Inl _ \<Rightarrow> False | Inr adv \<Rightarrow> a_IsResponse adv \<and> a_RequestID adv \<noteq> None)"

definition ReadRequestID :: "(bytes \<Rightarrow> dict option) \<Rightarrow> bytes \<Rightarrow> bytes option" where
  "ReadRequestID unmarshal data =
     (case UnpackResourceAdvertisement unmarshal data of Inl _ \<Rightarrow> None | Inr adv \<Rightarrow> a_RequestID adv)"

definition ReadTransferSize :: "(bytes \<Rightarrow> dict option) \<Rightarrow> bytes \<Rightarrow> int" where
  "ReadTransferSize unmarshal data =
     (case UnpackResourceAdvertisement unmarshal data of Inl _ \<Rightarrow> 0 | Inr adv \<Rightarrow> a_TransferSize adv)"

definition ReadSize :: "(bytes \<Rightarrow> dict option) \<Rightarrow> bytes \<Rightarrow> int" where
  "ReadSize unmarshal data =
     (case UnpackResourceAdvertisement unmarshal data of Inl _ \<Rightarrow> 0 | Inr adv \<Rightarrow> a_DataSize adv)"

text \<open>\<open>wireInt\<close> of the link package: an integer of any Go type as an \<open>int\<close>.\<close>

definition wireInt :: "any \<Rightarrow> int option" where
  "wireInt v =
     (case v of
        AInt KInt64 x \<Rightarrow> if x > math_MaxInt \<or> x < math_MinInt then None else Some x
      | AInt KUint32 x \<Rightarrow> if x > math_MaxInt then None else Some x
      | AInt KUint64 x \<Rightarrow> if x > math_MaxInt then None else Some x
      | AInt _ x \<Rightarrow> Some x
      | _ \<Rightarrow> None)"

section \<open>An advertisement arrives as it was sent\<close>

text \<open>
  The library does not keep the Go type of an integer, only its value: a decoded dictionary has the
  same entries up to the integer types, and every integer fits the type it is decoded into.
\<close>

fun any_sim :: "any \<Rightarrow> any \<Rightarrow> bool" where
  "any_sim (AInt k n) w = (\<exists>k'. w = AInt k' n \<and> any_ok (AInt k' n))"
| "any_sim v w = (v = w)"

definition dict_sim :: "dict \<Rightarrow> dict \<Rightarrow> bool" where
  "dict_sim d d' \<longleftrightarrow> (\<forall>k. rel_option any_sim (map_of d k) (map_of d' k))"

lemma sim_int64: "rel_option any_sim (Some (AInt k n)) v \<Longrightarrow> n \<le> 2 ^ 63 - 1 \<Longrightarrow> adv_int64 e v = Inr n"
  by (auto simp: adv_int64_def split: option.splits any.splits int_kind.splits elim!: option.rel_cases)

lemma sim_parts: "rel_option any_sim (Some (AInt k n)) v \<Longrightarrow> 0 \<le> n \<Longrightarrow> n \<le> 65535 \<Longrightarrow> adv_parts v = Inr n"
  by (auto simp: adv_parts_def math_consts split: int_kind.splits elim!: option.rel_cases)

lemma sim_u16: "rel_option any_sim (Some (AInt k (int (unat (w :: u16))))) v \<Longrightarrow> adv_u16 e v = Inr w"
  using uint_lt2p [of w]
  by (auto simp: adv_u16_def coerceUint16_def math_consts split: int_kind.splits elim!: option.rel_cases)

lemma sim_flags: "rel_option any_sim (Some (AInt k (uint (w :: byte)))) v \<Longrightarrow> adv_flags v = Inr w"
  using uint_lt2p [of w] uint_ge_0 [of w]
  by (auto simp: adv_flags_def wireFlagsFromAny_def split: int_kind.splits elim!: option.rel_cases)

lemma sim_bytes: "rel_option any_sim (Some (any_bytes b)) v \<Longrightarrow> adv_bytes v = b"
  by (auto simp: adv_bytes_def any_bytes_def split: option.splits elim!: option.rel_cases)

lemma flag_bits:
  "adv_flag_byte e c s q p m AND AdvFlagEncrypted \<noteq> 0 \<longleftrightarrow> e" "adv_flag_byte e c s q p m AND AdvFlagCompressed \<noteq> 0 \<longleftrightarrow> c"
  "adv_flag_byte e c s q p m AND AdvFlagSplit \<noteq> 0 \<longleftrightarrow> s" "adv_flag_byte e c s q p m AND AdvFlagIsRequest \<noteq> 0 \<longleftrightarrow> q"
  "adv_flag_byte e c s q p m AND AdvFlagIsResponse \<noteq> 0 \<longleftrightarrow> p" "adv_flag_byte e c s q p m AND AdvFlagHasMetadata \<noteq> 0 \<longleftrightarrow> m"
  by (cases e; cases c; cases s; cases q; cases p; cases m; simp add: adv_flag_byte_def flag_if_def adv_flag_defs)+

definition adv_segment :: "int \<Rightarrow> resource_adv \<Rightarrow> bytes option" where
  "adv_segment linkMDU ra =
     map_option (take (nat (min (HashmapEntriesPerSegment linkMDU) (int (length (the (a_Hashmap ra)) div MapHashLen))) * MapHashLen))
       (a_Hashmap ra)"

lemma HashmapEntries_pos: "0 < HashmapEntriesPerSegment mdu"
  by (simp add: HashmapEntriesPerSegment_def Let_def)

lemma adv_dict_first:
  obtains d where "adv_dict 0 mdu ra = Some d"
    "map_of d ''t'' = Some (packInt64Compact (a_TransferSize ra))" "map_of d ''d'' = Some (packInt64Compact (a_DataSize ra))"
    "map_of d ''n'' = Some (AInt KInt (a_Parts ra))" "map_of d ''h'' = Some (any_bytes (a_Hash ra))"
    "map_of d ''r'' = Some (any_bytes (a_RandomHash ra))" "map_of d ''o'' = Some (any_bytes (a_OriginalHash ra))"
    "map_of d ''i'' = Some (AInt KInt (int (unat (a_SegmentIndex ra))))"
    "map_of d ''l'' = Some (AInt KInt (int (unat (a_TotalSegments ra))))" "map_of d ''q'' = Some (any_bytes (a_RequestID ra))"
    "map_of d ''f'' = Some (AInt KUint8 (uint (a_Flags ra)))" "map_of d ''m'' = Some (any_bytes (adv_segment mdu ra))"
proof -
  define m where "m = (case a_Hashmap ra of None \<Rightarrow> [] | Some m \<Rightarrow> m)"
  define n where "n = nat (min (HashmapEntriesPerSegment mdu) (int (length m div MapHashLen)))"
  have n: "min (0 + HashmapEntriesPerSegment mdu) (int (length m div MapHashLen)) = int n"
    using HashmapEntries_pos [of mdu] by (simp add: n_def)
  have "n \<le> length m div MapHashLen" using n by linarith
  then have le: "n * MapHashLen \<le> length m" by (meson div_times_less_eq_dividend mult_le_mono1 order_trans)
  have seg: "(if a_Hashmap ra = None then None else Some (take (n * MapHashLen) m)) = adv_segment mdu ra"
    by (auto simp: adv_segment_def n_def m_def)
  obtain d where d: "adv_dict 0 mdu ra = Some d" by (simp add: adv_dict_def m_def [symmetric] Let_def n [simplified] le)
  note e = d [unfolded adv_dict_def Let_def m_def [symmetric] mult_zero_left n nat_int]
  show thesis by (rule that [OF d]; use e le seg in auto)
qed

lemma adv_of_dict_Inr:
  assumes "adv_int64 TransferSizeOverflow (map_of d ''t'') = Inr t" "0 \<le> t" "t \<le> MaxEfficientSize * 3"
    and "adv_int64 DataSizeOverflow (map_of d ''d'') = Inr sz" "0 \<le> sz" "adv_parts (map_of d ''n'') = Inr n" "0 \<le> n"
    and "\<not> adv_hash_bad (adv_bytes (map_of d ''h''))" "\<not> adv_hash_bad (adv_bytes (map_of d ''o''))"
    and "adv_flags (map_of d ''f'') = Inr flags" "adv_u16 SegmentIndexRange (map_of d ''i'') = Inr i"
    and "adv_u16 TotalSegmentsRange (map_of d ''l'') = Inr l" "flags AND AdvFlagSplit \<noteq> 0 \<longrightarrow> i \<noteq> 0 \<and> l \<noteq> 0"
  shows "adv_of_dict d = Inr \<lparr> a_TransferSize = t, a_DataSize = sz, a_Parts = n, a_Hash = adv_bytes (map_of d ''h''),
      a_RandomHash = adv_bytes (map_of d ''r''), a_OriginalHash = adv_bytes (map_of d ''o''),
      a_Hashmap = adv_bytes (map_of d ''m''), a_Compressed = (flags AND AdvFlagCompressed \<noteq> 0),
      a_Encrypted = (flags AND AdvFlagEncrypted \<noteq> 0), a_Split = (flags AND AdvFlagSplit \<noteq> 0),
      a_HasMetadata = (flags AND AdvFlagHasMetadata \<noteq> 0), a_SegmentIndex = i, a_TotalSegments = l,
      a_RequestID = adv_bytes (map_of d ''q''), a_IsRequest = (flags AND AdvFlagIsRequest \<noteq> 0),
      a_IsResponse = (flags AND AdvFlagIsResponse \<noteq> 0), a_Flags = flags \<rparr>"
  unfolding adv_of_dict_def assms(1,4,6,10-12) sum.case using assms by (auto simp: Let_def)

lemma advertisement_arrives:
  assumes "ra = NewResourceAdvertisement r" "length (r_hash r) = 32" "\<And>h. r_originalHash r = Some h \<Longrightarrow> length h = 32"
    and "0 \<le> r_transferSize r" "r_transferSize r \<le> MaxEfficientSize * 3" "0 \<le> GetTotalSize r" "GetTotalSize r \<le> math_MaxInt"
    and "r_split r \<longrightarrow> r_segmentIndex r \<noteq> 0 \<and> r_totalSegments r \<noteq> 0"
  shows "\<exists>d. adv_dict 0 mdu ra = Some d
    \<and> (\<forall>d' data unmarshal. dict_sim d d' \<longrightarrow> unmarshal data = Some d' \<longrightarrow> length data \<le> maxAdvertisementBytes
          \<longrightarrow> UnpackResourceAdvertisement unmarshal data = Inr (ra\<lparr> a_Hashmap := adv_segment mdu ra \<rparr>))"
proof -
  obtain d where d: "adv_dict 0 mdu ra = Some d"
    "map_of d ''t'' = Some (packInt64Compact (a_TransferSize ra))" "map_of d ''d'' = Some (packInt64Compact (a_DataSize ra))"
    "map_of d ''n'' = Some (AInt KInt (a_Parts ra))" "map_of d ''h'' = Some (any_bytes (a_Hash ra))"
    "map_of d ''r'' = Some (any_bytes (a_RandomHash ra))" "map_of d ''o'' = Some (any_bytes (a_OriginalHash ra))"
    "map_of d ''i'' = Some (AInt KInt (int (unat (a_SegmentIndex ra))))"
    "map_of d ''l'' = Some (AInt KInt (int (unat (a_TotalSegments ra))))" "map_of d ''q'' = Some (any_bytes (a_RequestID ra))"
    "map_of d ''f'' = Some (AInt KUint8 (uint (a_Flags ra)))" "map_of d ''m'' = Some (any_bytes (adv_segment mdu ra))"
    by (rule adv_dict_first)
  have a: "a_TransferSize ra = r_transferSize r" "a_DataSize ra = GetTotalSize r" "a_Parts ra = int (unat (r_segments r))"
    "a_Hash ra = Some (r_hash r)" "a_OriginalHash ra = r_originalHash r" "a_SegmentIndex ra = r_segmentIndex r"
    "a_TotalSegments ra = r_totalSegments r" and
    f: "a_Flags ra = adv_flag_byte (a_Encrypted ra) (a_Compressed ra) (a_Split ra) (a_IsRequest ra) (a_IsResponse ra) (a_HasMetadata ra)"
    and s: "a_Split ra = r_split r"
    by (simp_all add: assms(1) NewResourceAdvertisement_def)
  have big: "r_transferSize r \<le> 2 ^ 63 - 1" using assms(5) by (simp add: MaxEfficientSize_def)
  have "adv_of_dict d' = Inr (ra\<lparr> a_Hashmap := adv_segment mdu ra \<rparr>)" if sim: "dict_sim d d'" for d'
  proof -
    note m = sim [unfolded dict_sim_def, rule_format]
    note bv = m [of "''h''", unfolded d, THEN sim_bytes] m [of "''r''", unfolded d, THEN sim_bytes]
      m [of "''o''", unfolded d, THEN sim_bytes] m [of "''q''", unfolded d, THEN sim_bytes] m [of "''m''", unfolded d, THEN sim_bytes]
    have t: "adv_int64 TransferSizeOverflow (map_of d' ''t'') = Inr (a_TransferSize ra)"
      using m [of "''t''", unfolded d] assms(4) big by (intro sim_int64) (auto simp: packInt64Compact_def a math_consts split: if_splits)
    have sz: "adv_int64 DataSizeOverflow (map_of d' ''d'') = Inr (a_DataSize ra)"
      using m [of "''d''", unfolded d] assms(6,7) by (intro sim_int64) (auto simp: packInt64Compact_def a math_consts split: if_splits)
    have n: "adv_parts (map_of d' ''n'') = Inr (a_Parts ra)"
      using m [of "''n''", unfolded d] uint_lt2p [of "r_segments r"] by (intro sim_parts) (auto simp: a)
    have hb: "\<not> adv_hash_bad (adv_bytes (map_of d' ''h''))" "\<not> adv_hash_bad (adv_bytes (map_of d' ''o''))"
      using assms(2,3) by (auto simp: bv a adv_hash_bad_def split: option.splits)
    have sp: "a_Flags ra AND AdvFlagSplit \<noteq> 0 \<longrightarrow> a_SegmentIndex ra \<noteq> 0 \<and> a_TotalSegments ra \<noteq> 0"
      unfolding f flag_bits using assms(8) a s by simp
    have rng: "0 \<le> a_TransferSize ra" "a_TransferSize ra \<le> MaxEfficientSize * 3" "0 \<le> a_DataSize ra" "0 \<le> a_Parts ra"
      using assms(4-6) by (simp_all add: a)
    show ?thesis
      using adv_of_dict_Inr [OF t rng(1,2) sz rng(3) n rng(4) hb m [of "''f''", unfolded d, THEN sim_flags]
          m [of "''i''", unfolded d, THEN sim_u16] m [of "''l''", unfolded d, THEN sim_u16] sp]
      unfolding bv by (simp add: f flag_bits)
  qed
  then show ?thesis using d(1) by (auto simp: UnpackResourceAdvertisement_def)
qed

text \<open>
  C20: the advertisement of a prepared resource arrives as it was sent. For a resource within the size
  limit, packing its advertisement never panics, and from every dictionary that agrees with the packed one
  up to the integer types the receiver reads the same advertisement, with the first segment of the
  hash map.
\<close>

theorem advertisement_roundtrip:
  assumes "ra = NewResourceAdvertisement r" "length (r_hash r) = 32" "\<And>h. r_originalHash r = Some h \<Longrightarrow> length h = 32"
    and "0 \<le> r_transferSize r" "r_transferSize r \<le> MaxEfficientSize * 3" "0 \<le> GetTotalSize r" "GetTotalSize r \<le> math_MaxInt"
    and "r_split r \<longrightarrow> r_segmentIndex r \<noteq> 0 \<and> r_totalSegments r \<noteq> 0"
  shows "\<exists>d. adv_dict 0 mdu ra = Some d
    \<and> (\<forall>d' data unmarshal. dict_sim d d' \<longrightarrow> unmarshal data = Some d' \<longrightarrow> length data \<le> maxAdvertisementBytes
          \<longrightarrow> UnpackResourceAdvertisement unmarshal data = Inr (ra\<lparr> a_Hashmap := adv_segment mdu ra \<rparr>))"
  using assms by (rule advertisement_arrives)

section \<open>The type of an accepted advertisement\<close>

text \<open>What the rest of the link code may rely on, whoever sent the advertisement.\<close>

definition adv_wf :: "resource_adv \<Rightarrow> bool" where
  "adv_wf ra \<longleftrightarrow>
     0 \<le> a_TransferSize ra \<and> a_TransferSize ra \<le> 3 * MaxEfficientSize
     \<and> 0 \<le> a_DataSize ra \<and> a_DataSize ra \<le> math_MaxInt \<and> 0 \<le> a_Parts ra \<and> a_Parts ra < 2 ^ 32
     \<and> (\<forall>h. a_Hash ra = Some h \<longrightarrow> length h \<in> {0, 32}) \<and> (\<forall>h. a_OriginalHash ra = Some h \<longrightarrow> length h \<in> {0, 32})
     \<and> (a_Split ra \<longrightarrow> a_SegmentIndex ra \<noteq> 0 \<and> a_TotalSegments ra \<noteq> 0)
     \<and> (a_Encrypted ra \<longleftrightarrow> a_Flags ra AND AdvFlagEncrypted \<noteq> 0) \<and> (a_Compressed ra \<longleftrightarrow> a_Flags ra AND AdvFlagCompressed \<noteq> 0)
     \<and> (a_Split ra \<longleftrightarrow> a_Flags ra AND AdvFlagSplit \<noteq> 0) \<and> (a_HasMetadata ra \<longleftrightarrow> a_Flags ra AND AdvFlagHasMetadata \<noteq> 0)
     \<and> (a_IsRequest ra \<longleftrightarrow> a_Flags ra AND AdvFlagIsRequest \<noteq> 0) \<and> (a_IsResponse ra \<longleftrightarrow> a_Flags ra AND AdvFlagIsResponse \<noteq> 0)"

lemma adv_int64_bound: "adv_int64 e v = Inr t \<Longrightarrow> pred_option any_ok v \<Longrightarrow> t \<le> 2 ^ 63 - 1"
  by (auto simp: adv_int64_def split: option.splits any.splits int_kind.splits if_splits)

lemma adv_parts_bound: "adv_parts v = Inr n \<Longrightarrow> pred_option any_ok v \<Longrightarrow> n < 2 ^ 32 \<or> v = Some (AInt KInt n)"
  by (auto simp: adv_parts_def math_consts split: option.splits any.splits int_kind.splits if_splits)

text \<open>
  C21: an accepted advertisement is well-typed, whatever the bytes were. The decoder never produces a
  plain \<open>int\<close>, the one integer type whose part count the code takes over unchecked.
\<close>

theorem accepted_advertisement_typed:
  assumes "UnpackResourceAdvertisement unmarshal data = Inr ra"
    and "\<And>d k v. unmarshal data = Some d \<Longrightarrow> map_of d k = Some v \<Longrightarrow> any_ok v \<and> (\<forall>n. v \<noteq> AInt KInt n)"
  shows "adv_wf ra"
proof -
  obtain d where d: "unmarshal data = Some d" "adv_of_dict d = Inr ra"
    using assms(1) by (auto simp: UnpackResourceAdvertisement_def split: if_splits option.splits)
  have ok: "pred_option any_ok (map_of d k)" "map_of d k \<noteq> Some (AInt KInt n)" for k n
    using assms(2) [OF d(1)] by (auto simp: pred_option_def)
  obtain t where t: "adv_int64 TransferSizeOverflow (map_of d ''t'') = Inr t"
    using d(2) by (cases "adv_int64 TransferSizeOverflow (map_of d ''t'')") (simp_all add: adv_of_dict_def)
  note e = d(2) [unfolded adv_of_dict_def t sum.case]
  have t': "0 \<le> t" "t \<le> MaxEfficientSize * 3" using e by (simp_all split: if_splits)
  obtain sz where sz: "adv_int64 DataSizeOverflow (map_of d ''d'') = Inr sz"
    using e t' by (cases "adv_int64 DataSizeOverflow (map_of d ''d'')") simp_all
  note e = e [unfolded sz sum.case]
  have sz': "0 \<le> sz" using e t' by (simp split: if_splits)
  obtain n where n: "adv_parts (map_of d ''n'') = Inr n" using e t' sz' by (cases "adv_parts (map_of d ''n'')") simp_all
  note e = e [unfolded n sum.case]
  have n': "0 \<le> n" "\<not> adv_hash_bad (adv_bytes (map_of d ''h''))" "\<not> adv_hash_bad (adv_bytes (map_of d ''o''))"
    using e t' sz' by (simp_all split: if_splits)
  obtain flags where fl: "adv_flags (map_of d ''f'') = Inr flags" using e t' sz' n' by (cases "adv_flags (map_of d ''f'')") simp_all
  note e = e [unfolded fl sum.case]
  obtain i where i: "adv_u16 SegmentIndexRange (map_of d ''i'') = Inr i"
    using e t' sz' n' by (cases "adv_u16 SegmentIndexRange (map_of d ''i'')") simp_all
  note e = e [unfolded i sum.case]
  obtain l where l: "adv_u16 TotalSegmentsRange (map_of d ''l'') = Inr l"
    using e t' sz' n' by (cases "adv_u16 TotalSegmentsRange (map_of d ''l'')") simp_all
  note e = e [unfolded l sum.case Let_def]
  have "sz \<le> math_MaxInt" using adv_int64_bound [OF sz ok(1)] by (simp add: math_consts)
  moreover have "n < 2 ^ 32" using adv_parts_bound [OF n ok(1)] ok(2) [of "''n''" n] by simp
  moreover have "\<forall>h. x = Some h \<longrightarrow> length h \<in> {0, 32}" if "\<not> adv_hash_bad x" for x
    using that by (auto simp: adv_hash_bad_def)
  moreover have "\<not> t < 0" "\<not> MaxEfficientSize * 3 < t" "\<not> sz < 0" "\<not> n < 0" using t' sz' n'(1) by simp_all
  note ra = e [unfolded this [THEN if_not_P] n'(2,3) [THEN if_not_P] sum.inject, symmetric]
  ultimately show ?thesis using t' sz' n' unfolding adv_wf_def ra by simp
qed

lemma dict_sim_refl: "list_all (\<lambda>(k, v). any_ok v) d \<Longrightarrow> dict_sim d d"
proof -
  assume a: "list_all (\<lambda>(k, v). any_ok v) d"
  have "any_sim v v" if "any_ok v" for v using that by (cases v) auto
  then show ?thesis using a unfolding dict_sim_def by (fastforce simp: rel_option_iff list_all_iff dest: map_of_SomeD split: option.split)
qed

lemma any_bytes_ok [simp]: "any_ok (any_bytes b)"
  by (simp add: any_bytes_def split: option.split)

lemma uint_ok [simp]: "any_ok (AInt KInt (uint (w :: u16)))" "any_ok (AInt KInt 5)"
proof -
  have "- (2 ^ 63) \<le> (0 :: int)" "uint w < 65536" using uint_lt2p [of w] by simp_all
  then have "- (2 ^ 63) \<le> uint w" using uint_ge_0 order_trans by blast
  then show "any_ok (AInt KInt (uint w))" using \<open>uint w < 65536\<close> by simp
qed simp

lemma flags_ok [simp]: "any_ok (AInt KUint8 (uint (w :: byte)))"
  using uint_lt2p [of w] by simp

theorem advertisement_roundtrip_witness:
  "\<exists>d. adv_dict 0 431 (NewResourceAdvertisement (sample_resource\<lparr> r_hash := replicate 32 7 \<rparr>)) = Some d
     \<and> (\<exists>ra. UnpackResourceAdvertisement (\<lambda>_. Some d) [] = Inr ra \<and> a_Hash ra = Some (replicate 32 7) \<and> a_DataSize ra = 5)"
proof -
  let ?r = "sample_resource\<lparr> r_hash := replicate 32 7 \<rparr>"
  have s: "r_originalHash ?r = None" "r_transferSize ?r = 5" "GetTotalSize ?r = 5" "\<not> r_split ?r"
    by (simp_all add: sample_resource_def new_resource_def calculateHash_def GetTotalSize_def)
  have "\<exists>d. adv_dict 0 431 (NewResourceAdvertisement ?r) = Some d
    \<and> (\<forall>d' data unmarshal. dict_sim d d' \<longrightarrow> unmarshal data = Some d' \<longrightarrow> length data \<le> maxAdvertisementBytes
          \<longrightarrow> UnpackResourceAdvertisement unmarshal data
               = Inr ((NewResourceAdvertisement ?r)\<lparr> a_Hashmap := adv_segment 431 (NewResourceAdvertisement ?r) \<rparr>))"
    by (rule advertisement_roundtrip [OF refl]) (simp_all add: s MaxEfficientSize_def math_consts)
  then obtain d where d: "adv_dict 0 431 (NewResourceAdvertisement ?r) = Some d"
    and u: "\<And>d' data unmarshal. dict_sim d d' \<Longrightarrow> unmarshal data = Some d' \<Longrightarrow> length data \<le> maxAdvertisementBytes
      \<Longrightarrow> UnpackResourceAdvertisement unmarshal data
        = Inr ((NewResourceAdvertisement ?r)\<lparr> a_Hashmap := adv_segment 431 (NewResourceAdvertisement ?r) \<rparr>)" by blast
  have "dict_sim d d"
    using d by (intro dict_sim_refl)
      (auto simp: adv_dict_def Let_def packInt64Compact_def math_consts NewResourceAdvertisement_def s(2,3)
        simp del: any_ok.simps(1) split: if_splits option.splits)
  from u [OF this, of "\<lambda>_. Some d" "[]"] show ?thesis using d s(3) by (simp add: NewResourceAdvertisement_def)
qed

theorem accepted_advertisement_typed_witness:
  "\<exists>ra. UnpackResourceAdvertisement (\<lambda>_. Some [(''t'', AInt KUint8 8), (''n'', AInt KUint8 2), (''h'', ABytes (replicate 32 7))]) [] = Inr ra
     \<and> adv_wf ra"
proof -
  let ?u = "\<lambda>_ :: bytes. Some [(''t'', AInt KUint8 8), (''n'', AInt KUint8 2), (''h'', ABytes (replicate 32 7))]"
  obtain ra where ra: "UnpackResourceAdvertisement ?u [] = Inr ra"
    by (simp add: UnpackResourceAdvertisement_def adv_of_dict_def adv_int64_def adv_parts_def adv_bytes_def adv_hash_bad_def
        adv_flags_def adv_u16_def Let_def MaxEfficientSize_def)
  moreover have "adv_wf ra" by (rule accepted_advertisement_typed [OF ra]) (auto split: if_splits)
  ultimately show ?thesis by blast
qed

end
