(* ===== verification/Requests.thy ===== *)
theory Requests
  imports Resource_Adv
begin

text \<open>
  Requests over a link (\<open>pkg/link/request_receipt.go\<close>, \<open>request_unpack.go\<close>, \<open>request_timestamp.go\<close>):
  the receipts of a link, how they are registered, concluded and failed, the two ways in which a response
  arrives, and the validation of a request that comes in.

  A receipt is identified by a number, the pointer of the code. A callback that the code starts in a
  goroutine is an event of the log \<open>qs_events\<close>; a closed \<open>done\<close> channel is \<open>q_done\<close>. Decoding a msgpack
  array into \<open>[]any\<close> and encoding one value are the parameters \<open>unlist\<close> and \<open>remarshal\<close>.
\<close>

definition link_StatusPending :: byte where "link_StatusPending = 0x00"
definition link_StatusActive :: byte where "link_StatusActive = 0x02"
definition link_StatusStale :: byte where "link_StatusStale = 0x03"
definition link_StatusClosed :: byte where "link_StatusClosed = 0x04"
definition link_StatusFailed :: byte where "link_StatusFailed = 0x05"
definition link_StatusReceiving :: byte where "link_StatusReceiving = 0x06"
definition MaxPendingRequests :: nat where "MaxPendingRequests = 8"
definition MinRequestDataLen :: nat where "MinRequestDataLen = 3"
definition MinResponseDataLen :: nat where "MinResponseDataLen = 2"
definition RequestTimestampMaxSkewPast :: int where "RequestTimestampMaxSkewPast = 300"
definition RequestTimestampMaxSkewFuture :: int where "RequestTimestampMaxSkewFuture = 60"

lemmas link_status_defs = link_StatusPending_def link_StatusActive_def link_StatusStale_def link_StatusClosed_def
  link_StatusFailed_def link_StatusReceiving_def

section \<open>Receipts\<close>

record receipt =
  q_requestID :: bytes
  q_pathHash :: bytes
  q_status :: byte
  q_sentAt :: int
  q_receivedAt :: "int option"
  q_response :: "bytes option"
  q_responseValue :: any
  q_metadata :: "dict option"
  q_timeout :: int
  q_bytesReceived :: int
  q_totalBytes :: int
  q_maxResponseSize :: int
  q_responseCb :: bool
  q_failedCb :: bool
  q_progressCb :: bool
  q_done :: bool

datatype req_event = ResponseCb nat | FailedCb nat | ProgressCb nat

record requests =
  qs_receipt :: "nat \<Rightarrow> receipt"
  qs_pending :: "nat list"
  qs_events :: "req_event list"

datatype request_error =
    ErrLinkRequestBusy | ErrLinkRequestDuplicate | ResponseUnmarshal | ResponseFormat | ResponseIDType
  | RequestUnmarshal | RequestFormat | RequestedAtInvalid | PathHashInvalid | NoDestination

definition open_status :: "byte \<Rightarrow> bool" where
  "open_status st \<longleftrightarrow> st = link_StatusPending \<or> st = link_StatusReceiving"

definition Concluded :: "receipt \<Rightarrow> bool" where
  "Concluded r \<longleftrightarrow> q_status r = link_StatusActive \<or> q_status r = link_StatusFailed"

definition upd_receipt :: "nat \<Rightarrow> (receipt \<Rightarrow> receipt) \<Rightarrow> requests \<Rightarrow> requests" where
  "upd_receipt i f s = s\<lparr> qs_receipt := (qs_receipt s)(i := f (qs_receipt s i)) \<rparr>"

definition emit :: "bool \<Rightarrow> req_event \<Rightarrow> requests \<Rightarrow> requests" where
  "emit on e s = (if on then s\<lparr> qs_events := qs_events s @ [e] \<rparr> else s)"

definition registerPendingRequest :: "nat \<Rightarrow> requests \<Rightarrow> requests \<times> request_error option" where
  "registerPendingRequest i s =
     (let ph = q_pathHash (qs_receipt s i) in
      if length (qs_pending s) \<ge> MaxPendingRequests then (s, Some ErrLinkRequestBusy)
      else if length ph > 0 \<and> (\<exists>p \<in> set (qs_pending s). q_pathHash (qs_receipt s p) = ph)
      then (s, Some ErrLinkRequestDuplicate)
      else (s\<lparr> qs_pending := qs_pending s @ [i] \<rparr>, None))"

definition removePendingRequest :: "nat \<Rightarrow> requests \<Rightarrow> requests" where
  "removePendingRequest i s = s\<lparr> qs_pending := remove1 i (qs_pending s) \<rparr>"

definition signalDone :: "nat \<Rightarrow> requests \<Rightarrow> requests" where
  "signalDone i s = upd_receipt i (\<lambda>r. r\<lparr> q_done := True \<rparr>) s"

definition failPendingRequest :: "nat \<Rightarrow> requests \<Rightarrow> requests" where
  "failPendingRequest i s =
     (if \<not> open_status (q_status (qs_receipt s i)) then s
      else
        (let cb = q_failedCb (qs_receipt s i);
             s1 = upd_receipt i (\<lambda>r. r\<lparr> q_status := link_StatusFailed \<rparr>) s
         in emit cb (FailedCb i) (removePendingRequest i (signalDone i s1))))"

definition failAllPendingRequests :: "requests \<Rightarrow> requests" where
  "failAllPendingRequests s = fold failPendingRequest (qs_pending s) s"

text \<open>The conclusion that \<open>completeRequestWithResourcePayload\<close> and \<open>handleResponse\<close> share.\<close>

definition conclude_receipt :: "int \<Rightarrow> nat \<Rightarrow> bytes option \<Rightarrow> any \<Rightarrow> receipt \<Rightarrow> receipt" where
  "conclude_receipt now i resp val r =
     (let n = (case resp of None \<Rightarrow> 0 | Some b \<Rightarrow> int (length b)) in
      r\<lparr> q_status := link_StatusActive, q_response := resp, q_responseValue := val, q_receivedAt := Some now,
         q_bytesReceived := n, q_totalBytes := n \<rparr>)"

definition completeRequestWithResourcePayload ::
  "(bytes \<Rightarrow> any list option) \<Rightarrow> (any \<Rightarrow> bytes option) \<Rightarrow> int \<Rightarrow> nat \<Rightarrow> bytes \<Rightarrow> dict option \<Rightarrow> requests \<Rightarrow> requests" where
  "completeRequestWithResourcePayload unlist remarshal now i payload metadata s =
     (let (respBytes, val) =
            (if metadata = None
             then (case unlist payload of
                     Some (x # y # xs) \<Rightarrow>
                       ((case y of
                           ABytes b \<Rightarrow> b
                         | AStr str \<Rightarrow> map (\<lambda>c. of_char c) str
                         | _ \<Rightarrow> (case remarshal y of Some b \<Rightarrow> b | None \<Rightarrow> payload)), y)
                   | _ \<Rightarrow> (payload, ABytes payload))
             else (payload, ABytes payload));
          r = qs_receipt s i
      in if \<not> open_status (q_status r) then s
         else
           (let s1 = upd_receipt i (\<lambda>r. (conclude_receipt now i (Some respBytes) val r)\<lparr> q_metadata := metadata \<rparr>) s;
                s2 = removePendingRequest i (signalDone i s1)
            in emit (q_responseCb r) (ResponseCb i) (emit (q_progressCb r) (ProgressCb i) s2)))"

text \<open>The first pending receipt with the request id.\<close>

definition find_request :: "bytes \<Rightarrow> requests \<Rightarrow> nat option" where
  "find_request rid s = find (\<lambda>i. q_requestID (qs_receipt s i) = rid) (qs_pending s)"

definition response_payload :: "(any \<Rightarrow> bytes option) \<Rightarrow> any \<Rightarrow> bytes option" where
  "response_payload remarshal v =
     (case v of
        ABytes b \<Rightarrow> Some b
      | AStr str \<Rightarrow> Some (map (\<lambda>c. of_char c) str)
      | ANil \<Rightarrow> None
      | ABool _ \<Rightarrow> None
      | AInt _ _ \<Rightarrow> None
      | AOther _ \<Rightarrow> remarshal v)"

definition handleResponse ::
  "(bytes \<Rightarrow> any list option) \<Rightarrow> (any \<Rightarrow> bytes option) \<Rightarrow> int \<Rightarrow> bytes \<Rightarrow> requests \<Rightarrow> requests \<times> request_error option" where
  "handleResponse unlist remarshal now plaintext s =
     (case unlist plaintext of
        None \<Rightarrow> (s, Some ResponseUnmarshal)
      | Some responseData \<Rightarrow>
          if length responseData < MinResponseDataLen then (s, Some ResponseFormat)
          else case responseData ! 0 of
                 ABytes requestID \<Rightarrow>
                   (let val = responseData ! 1; payload = response_payload remarshal val in
                    case find_request requestID s of
                      None \<Rightarrow> (s, None)
                    | Some i \<Rightarrow>
                        (let r = qs_receipt s i; n = (case payload of None \<Rightarrow> 0 | Some b \<Rightarrow> int (length b)) in
                         if q_maxResponseSize r > 0 \<and> n > q_maxResponseSize r then (failPendingRequest i s, None)
                         else if \<not> open_status (q_status r) then (s, None)
                         else
                           (let s1 = upd_receipt i (conclude_receipt now i payload val) s;
                                s2 = removePendingRequest i (signalDone i s1)
                            in (emit (q_responseCb r) (ResponseCb i) s2, None))))
               | _ \<Rightarrow> (s, Some ResponseIDType))"

text \<open>Attaching callbacks, which fire late when the receipt has already concluded.\<close>

definition SetResponseCallback :: "nat \<Rightarrow> bool \<Rightarrow> requests \<Rightarrow> requests" where
  "SetResponseCallback i cb s =
     (let r = qs_receipt s i; s1 = upd_receipt i (\<lambda>r. r\<lparr> q_responseCb := cb \<rparr>) s in
      emit (q_status r = link_StatusActive \<and> cb \<and> \<not> q_responseCb r) (ResponseCb i) s1)"

definition SetFailedCallback :: "nat \<Rightarrow> bool \<Rightarrow> requests \<Rightarrow> requests" where
  "SetFailedCallback i cb s =
     (let r = qs_receipt s i; s1 = upd_receipt i (\<lambda>r. r\<lparr> q_failedCb := cb \<rparr>) s in
      emit (q_status r = link_StatusFailed \<and> cb \<and> \<not> q_failedCb r) (FailedCb i) s1)"

definition Progress :: "nat \<Rightarrow> requests \<Rightarrow> int \<times> int" where
  "Progress i s = (q_bytesReceived (qs_receipt s i), q_totalBytes (qs_receipt s i))"

section \<open>Requests that come in\<close>

text \<open>Instants are nanoseconds; a decoded float is its seconds and rounded nanoseconds, \<open>None\<close> if not finite.\<close>

datatype ts_value = TsFloat "(int \<times> int) option" | TsInt int_kind int | TsOther

definition parseRequestedAt :: "ts_value \<Rightarrow> int option" where
  "parseRequestedAt v =
     (case v of
        TsFloat f \<Rightarrow> map_option (\<lambda>(sec, nsec). sec * 10 ^ 9 + nsec) f
      | TsInt KInt64 t \<Rightarrow> Some (t * 10 ^ 9)
      | TsInt KInt t \<Rightarrow> Some (t * 10 ^ 9)
      | TsInt KInt32 t \<Rightarrow> Some (t * 10 ^ 9)
      | TsInt KUint64 t \<Rightarrow> if t > 2 ^ 63 - 1 then None else Some (t * 10 ^ 9)
      | TsInt KUint32 t \<Rightarrow> Some (t * 10 ^ 9)
      | _ \<Rightarrow> None)"

definition requestTimestampValid :: "int \<Rightarrow> int \<Rightarrow> bool" where
  "requestTimestampValid requestedAt now \<longleftrightarrow>
     (let pastLimit = now - RequestTimestampMaxSkewPast * 10 ^ 9; futureLimit = now + RequestTimestampMaxSkewFuture * 10 ^ 9 in
      \<not> requestedAt < pastLimit \<and> \<not> requestedAt > futureLimit)"

definition linkRequestPayload :: "any \<Rightarrow> bytes \<Rightarrow> bytes option" where
  "linkRequestPayload decoded raw =
     (case decoded of
        ANil \<Rightarrow> None
      | ABytes v \<Rightarrow> Some v
      | AStr v \<Rightarrow> Some (map (\<lambda>c. of_char c) v)
      | _ \<Rightarrow> Some raw)"

text \<open>
  \<open>unpackLinkRequest\<close>: \<open>unraw\<close> splits an array into its raw elements, \<open>unts\<close>, \<open>unhash\<close> and \<open>unany\<close>
  decode one of them. The result has the instant, the path hash and the payload.
\<close>

definition unpackLinkRequest ::
  "(bytes \<Rightarrow> bytes list option) \<Rightarrow> (bytes \<Rightarrow> ts_value option) \<Rightarrow> (bytes \<Rightarrow> bytes option) \<Rightarrow> (bytes \<Rightarrow> any option) \<Rightarrow> bytes
     \<Rightarrow> request_error + (int \<times> bytes \<times> bytes option)" where
  "unpackLinkRequest unraw unts unhash unany plaintext =
     (case unraw plaintext of
        None \<Rightarrow> Inl RequestUnmarshal
      | Some parts \<Rightarrow>
          if length parts < MinRequestDataLen then Inl RequestFormat
          else case unts (parts ! 0) of
                 None \<Rightarrow> Inl RequestedAtInvalid
               | Some ts \<Rightarrow>
                  (case parseRequestedAt ts of
                     None \<Rightarrow> Inl RequestedAtInvalid
                   | Some requestedAt \<Rightarrow>
                      (case unhash (parts ! 1) of
                         None \<Rightarrow> Inl PathHashInvalid
                       | Some pathHash \<Rightarrow>
                          Inr (requestedAt, pathHash,
                               if length (parts ! 2) > 0
                               then (case unany (parts ! 2) of
                                       None \<Rightarrow> Some (parts ! 2)
                                     | Some decoded \<Rightarrow> linkRequestPayload decoded (parts ! 2))
                               else None))))"

text \<open>
  \<open>handleRequest\<close>: the call of the handler, if the request gets that far. \<open>maxSize\<close> is the limit of the
  destination and \<open>handler\<close> tells for which path hashes it has a handler.
\<close>

datatype request_call = RequestIgnored | RequestStale | RequestNoHandler bytes | RequestHandled bytes "bytes option" bytes int

definition handleRequest ::
  "(bytes \<Rightarrow> request_error + (int \<times> bytes \<times> bytes option)) \<Rightarrow> bool \<Rightarrow> int option \<Rightarrow> (bytes \<Rightarrow> bool) \<Rightarrow> int \<Rightarrow> bytes \<Rightarrow> bytes
     \<Rightarrow> request_error + request_call" where
  "handleRequest unpack hasDest maxSize handler now plaintext requestID =
     (if \<not> hasDest then Inl NoDestination
      else if (case maxSize of None \<Rightarrow> False | Some m \<Rightarrow> int (length plaintext) > m) then Inr RequestIgnored
      else case unpack plaintext of
             Inl e \<Rightarrow> Inl e
           | Inr (requestedAt, pathHash, payload) \<Rightarrow>
               if \<not> requestTimestampValid requestedAt now then Inr RequestStale
               else if handler pathHash then Inr (RequestHandled pathHash payload requestID requestedAt)
               else Inr (RequestNoHandler pathHash))"

section \<open>A request concludes once\<close>

text \<open>The update of \<open>reportIncomingResourceProgress\<close> on the receipt that a transfer answers.\<close>

definition report_progress :: "nat \<Rightarrow> int \<Rightarrow> requests \<Rightarrow> requests" where
  "report_progress i received s =
     (let r = qs_receipt s i;
          s1 = upd_receipt i (\<lambda>r. r\<lparr> q_status := (if q_status r = link_StatusPending then link_StatusReceiving else q_status r),
                                    q_bytesReceived := received \<rparr>) s
      in emit (q_progressCb r) (ProgressCb i) s1)"

text \<open>
  The operations on the receipts of a link, in any order: new receipts are registered, responses arrive
  in either form, receipts fail one by one or all together, transfers report progress, and the application
  attaches its callbacks.
\<close>

inductive req_step :: "requests \<Rightarrow> requests \<Rightarrow> bool" where
  Register: "q_status (qs_receipt s i) = link_StatusPending \<Longrightarrow> i \<notin> set (qs_pending s) \<Longrightarrow> req_step s (fst (registerPendingRequest i s))"
| FailOne: "req_step s (failPendingRequest i s)"
| FailAll: "req_step s (failAllPendingRequests s)"
| Complete: "req_step s (completeRequestWithResourcePayload unlist remarshal now i payload metadata s)"
| Response: "req_step s (fst (handleResponse unlist remarshal now plaintext s))"
| Report: "req_step s (report_progress i received s)"
| OnResponse: "req_step s (SetResponseCallback i True s)"
| OnFailed: "req_step s (SetFailedCallback i True s)"

definition fresh_requests :: "requests \<Rightarrow> bool" where
  "fresh_requests s \<longleftrightarrow> qs_pending s = [] \<and> qs_events s = []
     \<and> (\<forall>i. q_status (qs_receipt s i) = link_StatusPending \<and> \<not> q_done (qs_receipt s i))"

abbreviation count_ev :: "req_event \<Rightarrow> requests \<Rightarrow> nat" where
  "count_ev e s \<equiv> count_list (qs_events s) e"

definition receipt_inv :: "requests \<Rightarrow> nat \<Rightarrow> bool" where
  "receipt_inv s i \<longleftrightarrow>
     (let r = qs_receipt s i in
      (open_status (q_status r) \<or> Concluded r) \<and> (q_done r \<longleftrightarrow> Concluded r)
      \<and> count_ev (ResponseCb i) s \<le> (if q_status r = link_StatusActive \<and> q_responseCb r then 1 else 0)
      \<and> count_ev (FailedCb i) s \<le> (if q_status r = link_StatusFailed \<and> q_failedCb r then 1 else 0)
      \<and> (i \<in> set (qs_pending s) \<longrightarrow> open_status (q_status r)))"

definition pending_inv :: "requests \<Rightarrow> bool" where
  "pending_inv s \<longleftrightarrow> length (qs_pending s) \<le> MaxPendingRequests \<and> distinct (qs_pending s)
     \<and> (\<forall>i \<in> set (qs_pending s). \<forall>j \<in> set (qs_pending s).
          q_pathHash (qs_receipt s i) = q_pathHash (qs_receipt s j) \<longrightarrow> q_pathHash (qs_receipt s i) \<noteq> [] \<longrightarrow> i = j)"

definition req_inv :: "requests \<Rightarrow> bool" where
  "req_inv s \<longleftrightarrow> pending_inv s \<and> (\<forall>i. receipt_inv s i)"

lemma open_not_concluded: "open_status (q_status r) \<Longrightarrow> \<not> Concluded r"
  by (auto simp: open_status_def Concluded_def link_status_defs)

lemma emit_simps [simp]:
  "qs_receipt (emit b e s) = qs_receipt s" "qs_pending (emit b e s) = qs_pending s"
  "qs_events (emit b e s) = qs_events s @ (if b then [e] else [])"
  by (simp_all add: emit_def)

lemma upd_simps [simp]:
  "qs_receipt (upd_receipt i f s) = (qs_receipt s)(i := f (qs_receipt s i))" "qs_pending (upd_receipt i f s) = qs_pending s"
  "qs_events (upd_receipt i f s) = qs_events s"
  by (simp_all add: upd_receipt_def)

lemma remove_simps [simp]:
  "qs_receipt (removePendingRequest i s) = qs_receipt s" "qs_pending (removePendingRequest i s) = remove1 i (qs_pending s)"
  "qs_events (removePendingRequest i s) = qs_events s"
  by (simp_all add: removePendingRequest_def)

text \<open>
  Concluding receipt \<open>i\<close>: its status becomes final, it leaves the pending list, and its callback, if it
  has one, is called.
\<close>

definition concluding :: "nat \<Rightarrow> requests \<Rightarrow> requests \<Rightarrow> bool" where
  "concluding i s s' \<longleftrightarrow> open_status (q_status (qs_receipt s i)) \<and> (\<forall>j. j \<noteq> i \<longrightarrow> qs_receipt s' j = qs_receipt s j)
     \<and> qs_pending s' = remove1 i (qs_pending s) \<and> q_pathHash (qs_receipt s' i) = q_pathHash (qs_receipt s i)
     \<and> Concluded (qs_receipt s' i) \<and> q_done (qs_receipt s' i)
     \<and> q_responseCb (qs_receipt s' i) = q_responseCb (qs_receipt s i) \<and> q_failedCb (qs_receipt s' i) = q_failedCb (qs_receipt s i)
     \<and> (\<exists>ev. qs_events s' = qs_events s @ ev \<and>
          count_list ev (ResponseCb i) = (if q_status (qs_receipt s' i) = link_StatusActive \<and> q_responseCb (qs_receipt s i) then 1 else 0) \<and>
          count_list ev (FailedCb i) = (if q_status (qs_receipt s' i) = link_StatusFailed \<and> q_failedCb (qs_receipt s i) then 1 else 0) \<and>
          (\<forall>j. j \<noteq> i \<longrightarrow> count_list ev (ResponseCb j) = 0 \<and> count_list ev (FailedCb j) = 0))"

lemma failPending_cases: "failPendingRequest i s = s \<or> concluding i s (failPendingRequest i s)"
  by (auto simp: failPendingRequest_def concluding_def Let_def signalDone_def Concluded_def link_status_defs)

lemma complete_cases:
  "completeRequestWithResourcePayload u m now i p md s = s
   \<or> concluding i s (completeRequestWithResourcePayload u m now i p md s)"
proof (cases "open_status (q_status (qs_receipt s i))")
  case True
  obtain b v where bv: "(if md = None
             then (case u p of
                     Some (x # y # xs) \<Rightarrow>
                       ((case y of ABytes b \<Rightarrow> b | AStr str \<Rightarrow> map (\<lambda>c. of_char c) str
                         | _ \<Rightarrow> (case m y of Some b \<Rightarrow> b | None \<Rightarrow> p)), y)
                   | _ \<Rightarrow> (p, ABytes p))
             else (p, ABytes p)) = (b, v)" by (rule prod.exhaust)
  show ?thesis unfolding completeRequestWithResourcePayload_def bv Let_def prod.case using True
    by (simp add: concluding_def signalDone_def conclude_receipt_def Let_def Concluded_def link_status_defs)
next
  case False
  then show ?thesis by (simp add: completeRequestWithResourcePayload_def Let_def split: prod.split)
qed

lemma response_cases:
  "fst (handleResponse u m now p s) = s \<or> (\<exists>i. concluding i s (fst (handleResponse u m now p s)))"
proof (cases "u p")
  case (Some xs)
  show ?thesis
  proof (cases "length xs < MinResponseDataLen \<or> (\<forall>b. xs ! 0 \<noteq> ABytes b)")
    case True
    then show ?thesis using Some by (auto simp: handleResponse_def split: any.split)
  next
    case False
    then obtain b where b: "xs ! 0 = ABytes b" "\<not> length xs < MinResponseDataLen" by blast
    show ?thesis
    proof (cases "find_request b s")
      case (Some i)
      define n where "n = (case response_payload m (xs ! 1) of None \<Rightarrow> 0 | Some b \<Rightarrow> int (length b))"
      consider (big) "q_maxResponseSize (qs_receipt s i) > 0 \<and> n > q_maxResponseSize (qs_receipt s i)"
        | (shut) "\<not> (q_maxResponseSize (qs_receipt s i) > 0 \<and> n > q_maxResponseSize (qs_receipt s i))" "\<not> open_status (q_status (qs_receipt s i))"
        | (fine) "\<not> (q_maxResponseSize (qs_receipt s i) > 0 \<and> n > q_maxResponseSize (qs_receipt s i))" "open_status (q_status (qs_receipt s i))" by blast
      then show ?thesis
      proof cases
        case big
        then have "fst (handleResponse u m now p s) = failPendingRequest i s"
          unfolding handleResponse_def \<open>u p = Some xs\<close> option.case if_not_P [OF b(2)] b(1) any.case Some Let_def n_def [symmetric]
          by simp
        then show ?thesis using failPending_cases [of i s] by metis
      next
        case shut
        then show ?thesis
          unfolding handleResponse_def \<open>u p = Some xs\<close> option.case if_not_P [OF b(2)] b(1) any.case Some Let_def n_def [symmetric]
            if_not_P [OF shut(1)]
          by simp
      next
        case fine
        then have "concluding i s (fst (handleResponse u m now p s))"
          unfolding handleResponse_def \<open>u p = Some xs\<close> option.case if_not_P [OF b(2)] b(1) any.case Some Let_def n_def [symmetric] if_not_P [OF fine(1)]
          by (simp add: concluding_def signalDone_def conclude_receipt_def Let_def Concluded_def link_status_defs)
        then show ?thesis by blast
      qed
    qed (use \<open>u p = Some xs\<close> b in \<open>simp add: handleResponse_def Let_def\<close>)
  qed
qed (simp add: handleResponse_def)

lemma concluding_inv:
  assumes "req_inv s" "concluding i s s'"
  shows "req_inv s'"
proof -
  have p: "pending_inv s" and r: "\<And>j. receipt_inv s j" using assms(1) by (auto simp: req_inv_def)
  note c = assms(2) [unfolded concluding_def]
  obtain ev where ev: "qs_events s' = qs_events s @ ev"
    "count_list ev (ResponseCb i) = (if q_status (qs_receipt s' i) = link_StatusActive \<and> q_responseCb (qs_receipt s i) then 1 else 0)"
    "count_list ev (FailedCb i) = (if q_status (qs_receipt s' i) = link_StatusFailed \<and> q_failedCb (qs_receipt s i) then 1 else 0)"
    "\<And>j. j \<noteq> i \<Longrightarrow> count_list ev (ResponseCb j) = 0 \<and> count_list ev (FailedCb j) = 0" using c by blast
  have d: "distinct (qs_pending s)" "set (qs_pending s') = set (qs_pending s) - {i}" "qs_pending s' = remove1 i (qs_pending s)"
    using p c by (auto simp: pending_inv_def)
  have ph: "q_pathHash (qs_receipt s' j) = q_pathHash (qs_receipt s j)" for j using c by (cases "j = i") auto
  have "pending_inv s'" using p d ph unfolding pending_inv_def by (auto simp: length_remove1 distinct_remove1)
  moreover have "receipt_inv s' j" for j
  proof (cases "j = i")
    case True
    have "count_ev (ResponseCb i) s = 0" "count_ev (FailedCb i) s = 0"
      using r [of i] c by (auto simp: receipt_inv_def Let_def open_status_def link_status_defs split: if_splits)
    then show ?thesis using True c d ev by (auto simp: receipt_inv_def Let_def)
  next
    case False
    then show ?thesis using r [of j] c d ev by (auto simp: receipt_inv_def Let_def)
  qed
  ultimately show ?thesis by (simp add: req_inv_def)
qed

lemma fail_inv: "req_inv s \<Longrightarrow> req_inv (failPendingRequest i s)"
  using failPending_cases [of i s] concluding_inv by metis

lemma fold_fail_inv: "req_inv s \<Longrightarrow> req_inv (fold failPendingRequest is s)"
  by (induction "is" arbitrary: s) (auto simp: fail_inv)

lemma register_inv:
  assumes "req_inv s" "q_status (qs_receipt s i) = link_StatusPending" "i \<notin> set (qs_pending s)"
  shows "req_inv (fst (registerPendingRequest i s))"
proof -
  have "receipt_inv (s\<lparr> qs_pending := qs_pending s @ [i] \<rparr>) j" for j
    using assms by (auto simp: req_inv_def receipt_inv_def Let_def open_status_def)
  moreover have "pending_inv (s\<lparr> qs_pending := qs_pending s @ [i] \<rparr>)"
    if "length (qs_pending s) < MaxPendingRequests"
      "\<not> (length (q_pathHash (qs_receipt s i)) > 0 \<and> (\<exists>p \<in> set (qs_pending s). q_pathHash (qs_receipt s p) = q_pathHash (qs_receipt s i)))"
    using that assms by (auto simp: req_inv_def pending_inv_def)
  ultimately show ?thesis using assms(1) by (auto simp: registerPendingRequest_def Let_def req_inv_def)
qed

text \<open>An update of receipt \<open>i\<close> that concludes nothing.\<close>

lemma touch_inv:
  assumes "req_inv s" "qs_pending s' = qs_pending s" "\<And>j. j \<noteq> i \<Longrightarrow> qs_receipt s' j = qs_receipt s j"
    and "q_pathHash (qs_receipt s' i) = q_pathHash (qs_receipt s i)" "q_done (qs_receipt s' i) = q_done (qs_receipt s i)"
    and "q_status (qs_receipt s' i) = q_status (qs_receipt s i)
      \<or> open_status (q_status (qs_receipt s i)) \<and> open_status (q_status (qs_receipt s' i))"
    and "qs_events s' = qs_events s @ ev" "\<And>j. j \<noteq> i \<Longrightarrow> count_list ev (ResponseCb j) = 0 \<and> count_list ev (FailedCb j) = 0"
    and "q_responseCb (qs_receipt s i) \<Longrightarrow> q_responseCb (qs_receipt s' i)" "q_failedCb (qs_receipt s i) \<Longrightarrow> q_failedCb (qs_receipt s' i)"
    and "count_list ev (ResponseCb i) \<le>
      (if q_status (qs_receipt s i) = link_StatusActive \<and> q_responseCb (qs_receipt s' i) \<and> \<not> q_responseCb (qs_receipt s i) then 1 else 0)"
    and "count_list ev (FailedCb i) \<le>
      (if q_status (qs_receipt s i) = link_StatusFailed \<and> q_failedCb (qs_receipt s' i) \<and> \<not> q_failedCb (qs_receipt s i) then 1 else 0)"
  shows "req_inv s'"
proof -
  have p: "pending_inv s" and r: "\<And>j. receipt_inv s j" using assms(1) by (auto simp: req_inv_def)
  have ph: "q_pathHash (qs_receipt s' j) = q_pathHash (qs_receipt s j)" for j using assms(3,4) by (cases "j = i") auto
  have "pending_inv s'" using p unfolding pending_inv_def ph assms(2) .
  moreover have "receipt_inv s' j" for j
  proof (cases "j = i")
    case True
    have c: "Concluded (qs_receipt s' i) = Concluded (qs_receipt s i)"
      using assms(6) open_not_concluded by (auto simp: Concluded_def)
    have e: "count_ev (ResponseCb i) s' \<le> (if q_status (qs_receipt s' i) = link_StatusActive \<and> q_responseCb (qs_receipt s' i) then 1 else 0)"
      "count_ev (FailedCb i) s' \<le> (if q_status (qs_receipt s' i) = link_StatusFailed \<and> q_failedCb (qs_receipt s' i) then 1 else 0)"
      using r [of i] assms(6,7,9-12)
      by (auto simp: receipt_inv_def Let_def open_status_def link_status_defs split: if_splits)
    show ?thesis using True r [of i] c e assms(2,5,6) by (auto simp: receipt_inv_def Let_def)
  next
    case False
    then show ?thesis using r [of j] assms by (auto simp: receipt_inv_def Let_def)
  qed
  ultimately show ?thesis by (simp add: req_inv_def)
qed

lemma step_inv: "req_step s s' \<Longrightarrow> req_inv s \<Longrightarrow> req_inv s'"
proof (induction rule: req_step.induct)
  case (Register s i) then show ?case by (simp add: register_inv)
next
  case (FailOne s i) then show ?case by (rule fail_inv)
next
  case (FailAll s) then show ?case by (simp add: failAllPendingRequests_def fold_fail_inv)
next
  case (Complete s u m now i p md)
  then show ?case using complete_cases [of u m now i p md s] concluding_inv by metis
next
  case (Response s u m now p)
  then show ?case using response_cases [of u m now p s] concluding_inv by metis
next
  case (Report s i n)
  then show ?case
    by (rule touch_inv [where i = i]) (auto simp: report_progress_def Let_def open_status_def link_status_defs)
next
  case (OnResponse s i)
  then show ?case by (rule touch_inv [where i = i]) (auto simp: SetResponseCallback_def Let_def link_status_defs)
next
  case (OnFailed s i)
  then show ?case by (rule touch_inv [where i = i]) (auto simp: SetFailedCallback_def Let_def link_status_defs)
qed

lemma reachable_inv:
  assumes "fresh_requests s" "req_step\<^sup>*\<^sup>* s s'"
  shows "req_inv s'"
  using assms(2)
proof (induction rule: rtranclp_induct)
  case base
  then show ?case using assms(1)
    by (auto simp: req_inv_def pending_inv_def receipt_inv_def fresh_requests_def open_status_def Concluded_def link_status_defs Let_def)
qed (use step_inv in blast)

text \<open>
  C22: a request is answered or fails, once. After any sequence of registrations, responses, failures,
  progress reports and callback attachments, the response callback and the failure callback of a receipt
  have together run at most once, a concluded receipt has released its waiter and left the pending list,
  and at most eight receipts with different paths are pending.
\<close>

theorem request_concludes_once:
  assumes "fresh_requests s" "req_step\<^sup>*\<^sup>* s s'"
  shows "count_ev (ResponseCb i) s' + count_ev (FailedCb i) s' \<le> 1
    \<and> (Concluded (qs_receipt s' i) \<longrightarrow> q_done (qs_receipt s' i) \<and> i \<notin> set (qs_pending s'))
    \<and> length (qs_pending s') \<le> 8
    \<and> (i \<in> set (qs_pending s') \<longrightarrow> j \<in> set (qs_pending s') \<longrightarrow> i \<noteq> j \<longrightarrow> q_pathHash (qs_receipt s' i) \<noteq> [] \<longrightarrow>
         q_pathHash (qs_receipt s' i) \<noteq> q_pathHash (qs_receipt s' j))"
proof -
  have p: "pending_inv s'" and r: "receipt_inv s' i" using reachable_inv [OF assms] by (auto simp: req_inv_def)
  have c: "count_ev (ResponseCb i) s' \<le> (if q_status (qs_receipt s' i) = link_StatusActive then 1 else 0)"
    "count_ev (FailedCb i) s' \<le> (if q_status (qs_receipt s' i) = link_StatusFailed then 1 else 0)"
    using r by (simp_all add: receipt_inv_def Let_def split: if_splits)
  have "link_StatusActive \<noteq> link_StatusFailed" by (simp add: link_status_defs)
  then have "count_ev (ResponseCb i) s' + count_ev (FailedCb i) s' \<le> 1"
    using c by (cases "q_status (qs_receipt s' i) = link_StatusActive") (simp_all split: if_splits)
  moreover have "Concluded (qs_receipt s' i) \<longrightarrow> q_done (qs_receipt s' i) \<and> i \<notin> set (qs_pending s')"
    using r open_not_concluded [of "qs_receipt s' i"] by (simp add: receipt_inv_def Let_def) blast
  moreover have "i \<in> set (qs_pending s') \<longrightarrow> j \<in> set (qs_pending s') \<longrightarrow> i \<noteq> j \<longrightarrow> q_pathHash (qs_receipt s' i) \<noteq> [] \<longrightarrow>
       q_pathHash (qs_receipt s' i) \<noteq> q_pathHash (qs_receipt s' j)"
    using p unfolding pending_inv_def by blast
  ultimately show ?thesis using p by (simp add: pending_inv_def MaxPendingRequests_def)
qed

definition sample_receipt :: receipt where
  "sample_receipt = \<lparr> q_requestID = [1], q_pathHash = [2], q_status = link_StatusPending, q_sentAt = 0, q_receivedAt = None,
     q_response = None, q_responseValue = ANil, q_metadata = None, q_timeout = 5, q_bytesReceived = 0, q_totalBytes = 0,
     q_maxResponseSize = 0, q_responseCb = True, q_failedCb = True, q_progressCb = False, q_done = False \<rparr>"

definition sample_requests :: requests where
  "sample_requests = \<lparr> qs_receipt = \<lambda>_. sample_receipt, qs_pending = [], qs_events = [] \<rparr>"

theorem request_concludes_once_witness:
  "fresh_requests sample_requests \<and> count_ev (FailedCb 0) (failPendingRequest 0 sample_requests) = 1
   \<and> count_ev (ResponseCb 0) (failPendingRequest 0 sample_requests) = 0"
proof -
  have f: "fresh_requests sample_requests" by (simp add: fresh_requests_def sample_requests_def sample_receipt_def)
  have "req_step\<^sup>*\<^sup>* sample_requests (failPendingRequest 0 sample_requests)" by (intro r_into_rtranclp req_step.FailOne)
  moreover have "count_ev (FailedCb 0) (failPendingRequest 0 sample_requests) = 1"
    by (simp add: failPendingRequest_def sample_requests_def sample_receipt_def open_status_def link_status_defs Let_def signalDone_def)
  ultimately show ?thesis using f request_concludes_once [OF f, of _ 0] by fastforce
qed

text \<open>
  C23: replayed requests are refused: a request is handed to a handler only if its timestamp lies between
  five minutes before and one minute after the local clock, its size is within the limit of the
  destination, and there is a handler for its path.
\<close>

theorem handled_request_is_recent:
  assumes "handleRequest unpack hasDest maxSize handler now plaintext rid = Inr (RequestHandled path payload rid' at)"
  shows "now - 300 * 10 ^ 9 \<le> at \<and> at \<le> now + 60 * 10 ^ 9 \<and> handler path \<and> rid' = rid
    \<and> unpack plaintext = Inr (at, path, payload) \<and> (\<forall>m. maxSize = Some m \<longrightarrow> int (length plaintext) \<le> m)"
  using assms
  by (auto simp: handleRequest_def requestTimestampValid_def Let_def RequestTimestampMaxSkewPast_def RequestTimestampMaxSkewFuture_def
      split: if_splits option.splits sum.splits)

theorem handled_request_is_recent_witness:
  "handleRequest (\<lambda>p. Inr (7, p, None)) True (Some 9) (\<lambda>_. True) 0 [1] [2] = Inr (RequestHandled [1] None [2] 7)
   \<and> (7 :: int) \<le> 60 * 10 ^ 9"
proof -
  have "handleRequest (\<lambda>p. Inr (7, p, None)) True (Some 9) (\<lambda>_. True) 0 [1] [2] = Inr (RequestHandled [1] None [2] 7)"
    by (simp add: handleRequest_def requestTimestampValid_def Let_def RequestTimestampMaxSkewPast_def RequestTimestampMaxSkewFuture_def)
  then show ?thesis using handled_request_is_recent by fastforce
qed

end
