(* ===== verification/Resource_Receive.thy ===== *)
theory Resource_Receive
  imports Requests
begin

text \<open>
  The receiving side of a resource transfer (\<open>pkg/link/incoming_resource.go\<close> and the receiving handlers of
  \<open>link_resource.go\<close>): the assembly record, the hash map and its index, the request window, the watchdog,
  the acceptance of parts, and the final assembly with its hash check.

  Each definition is one section of code under \<open>incomingMu\<close>; work that the code starts in a goroutine or
  does after unlocking is in the list of actions it returns. Sending a request is split at the unlock: the
  section before the send, and the section that takes the reservations back when the send fails. An
  assembly is identified by a number, the pointer of the code. Times are nanoseconds.
\<close>

definition hashmapNotExhausted :: byte where "hashmapNotExhausted = 0x00"
definition hashmapExhausted :: byte where "hashmapExhausted = 0xff"
definition incomingResourceRetryInterval :: int where "incomingResourceRetryInterval = 100 * 10 ^ 6"
definition incomingResourceStallGrace :: int where "incomingResourceStallGrace = 250 * 10 ^ 6"
definition incomingResourceWindowShrinkStalls :: int where "incomingResourceWindowShrinkStalls = 2"
definition incomingResourceWindowMaxShrinkStalls :: int where "incomingResourceWindowMaxShrinkStalls = 3"
definition incomingResourceMaxStallRetries :: int where "incomingResourceMaxStallRetries = 16"

lemmas stall_consts = incomingResourceStallGrace_def incomingResourceWindowShrinkStalls_def
  incomingResourceWindowMaxShrinkStalls_def incomingResourceMaxStallRetries_def

section \<open>The assembly of one resource\<close>

record rx =
  rx_id :: nat
  rx_adv :: resource_adv
  rx_sdu :: int
  rx_hashmapSegLen :: int
  rx_partSlots :: "bytes option list"
  rx_mapHashes :: "bytes option list"
  rx_inflight :: "bool list"
  rx_hashIndex :: "bytes \<Rightarrow> nat list"
  rx_hashmapHeight :: nat
  rx_totalParts :: nat
  rx_consecutiveCompleted :: int
  rx_waitingForHmu :: bool
  rx_outstandingParts :: int
  rx_window :: int
  rx_windowMin :: int
  rx_windowMax :: int
  rx_consecutiveStalls :: int
  rx_lastProgressAt :: int
  rx_startedAt :: int
  rx_reqRounds :: nat
  rx_hmuRounds :: nat
  rx_stallRetries :: nat
  rx_partsReceived :: nat
  rx_bytesReceived :: int
  rx_hmuWaitNanos :: int
  rx_hmuWaitStarted :: "int option"
  rx_protectRelease :: bool
  rx_request :: "nat option"

definition indexMapHash :: "nat \<Rightarrow> bytes \<Rightarrow> rx \<Rightarrow> rx" where
  "indexMapHash idx mh x =
     (if length mh \<noteq> MapHashLen then x
      else
        (let l = rx_hashIndex x mh in
         if idx \<in> set l then x else x\<lparr> rx_hashIndex := (rx_hashIndex x)(mh := l @ [idx]) \<rparr>))"

text \<open>The loop of \<open>applyHashmapSegment\<close> from entry \<open>i\<close> of \<open>hashes\<close> entries.\<close>

function apply_hashes :: "int \<Rightarrow> nat \<Rightarrow> nat \<Rightarrow> bytes \<Rightarrow> nat \<Rightarrow> rx \<Rightarrow> nat \<times> rx" where
  "apply_hashes base i hashes hb added x =
     (if i \<ge> hashes then (added, x)
      else if int i > math_MaxInt - base then (added, x)
      else
        (let idx = base + int i in
         if idx < 0 \<or> idx \<ge> int (rx_totalParts x) then (added, x)
         else
           (let k = nat idx; new = (rx_mapHashes x ! k = None);
                x1 = (if new then x\<lparr> rx_hashmapHeight := rx_hashmapHeight x + 1 \<rparr> else x);
                mh = take MapHashLen (drop (i * MapHashLen) hb);
                x2 = indexMapHash k mh (x1\<lparr> rx_mapHashes := (rx_mapHashes x1)[k := Some mh] \<rparr>)
            in apply_hashes base (Suc i) hashes hb (if new then added + 1 else added) x2)))"
  by pat_completeness auto
termination by (relation "measure (\<lambda>(base, i, hashes, hb, added, x). hashes - i)") auto

definition applyHashmapSegment :: "int \<Rightarrow> bytes \<Rightarrow> rx \<Rightarrow> nat \<times> rx" where
  "applyHashmapSegment segment hb x =
     (if segment < 0 then (0, x)
      else
        (let segLen = (if rx_hashmapSegLen x \<le> 0 then 1 else rx_hashmapSegLen x) in
         if segment > math_MaxInt div segLen then (0, x)
         else apply_hashes (segment * segLen) 0 (length hb div MapHashLen) hb 0 x))"

definition lookupMapHash :: "bytes \<Rightarrow> nat \<Rightarrow> nat \<Rightarrow> rx \<Rightarrow> nat option" where
  "lookupMapHash mh windowStart windowEnd x =
     (if length mh \<noteq> MapHashLen then None
      else find (\<lambda>i. windowStart \<le> i \<and> i < windowEnd \<and> rx_partSlots x ! i = None) (rx_hashIndex x mh))"

definition markHmuWaitLocked :: "int \<Rightarrow> bool \<Rightarrow> rx \<Rightarrow> rx" where
  "markHmuWaitLocked now waiting x =
     (if waiting
      then x\<lparr> rx_hmuWaitStarted := (if rx_waitingForHmu x then rx_hmuWaitStarted x else Some now), rx_waitingForHmu := True \<rparr>
      else
        (let x1 = (case rx_hmuWaitStarted x of
                     Some t \<Rightarrow> if rx_waitingForHmu x
                               then x\<lparr> rx_hmuWaitNanos := rx_hmuWaitNanos x + (now - t), rx_hmuWaitStarted := None \<rparr> else x
                   | None \<Rightarrow> x)
         in x1\<lparr> rx_waitingForHmu := False \<rparr>))"

text \<open>The first missing part, \<open>max(consecutiveCompleted+1, 0)\<close>.\<close>

definition search_start :: "rx \<Rightarrow> nat" where
  "search_start x = nat (max (rx_consecutiveCompleted x + 1) 0)"

fun known_ahead :: "bytes option list \<Rightarrow> bytes option list \<Rightarrow> nat" where
  "known_ahead (Some h # hs) (s # ss) = (if s \<noteq> None then known_ahead hs ss else known_ahead hs ss + 1)"
| "known_ahead _ _ = 0"

definition knownHashesAhead :: "rx \<Rightarrow> nat" where
  "knownHashesAhead x =
     (let n = rx_totalParts x in
      known_ahead (drop (search_start x) (take n (rx_mapHashes x))) (drop (search_start x) (take n (rx_partSlots x))))"

definition eff_window :: "rx \<Rightarrow> int" where
  "eff_window x = (if rx_window x \<le> 0 then res_Window else rx_window x)"

definition growIncomingResourceWindow :: "rx \<Rightarrow> rx" where
  "growIncomingResourceWindow x =
     (if rx_window x < rx_windowMax x
      then
        (let step = max (rx_window x div 4) 1;
             w = rx_window x + step;
             w = (if w > rx_windowMax x then rx_windowMax x else w)
         in x\<lparr> rx_window := w,
               rx_windowMin := (if w - rx_windowMin x > WindowFlexibility - 1 then rx_windowMin x + 1 else rx_windowMin x) \<rparr>)
      else x)"

definition startIncomingWindow :: "int \<Rightarrow> int \<Rightarrow> int \<Rightarrow> int \<Rightarrow> int" where
  "startIncomingWindow lastW minW maxW defaultW =
     (if lastW \<le> 0 then defaultW else if lastW > maxW then maxW else if lastW < minW then minW else lastW)"

fun prefix_len :: "bytes option list \<Rightarrow> nat" where
  "prefix_len [] = 0"
| "prefix_len (s # ss) = (case s of None \<Rightarrow> 0 | Some b \<Rightarrow> if length b = 0 then 0 else Suc (prefix_len ss))"

definition consecutivePrefix :: "bytes option list \<Rightarrow> int" where
  "consecutivePrefix slots = int (prefix_len slots) - 1"

definition slots_size :: "bytes option list \<Rightarrow> int" where
  "slots_size ss = (\<Sum>s \<leftarrow> ss. case s of None \<Rightarrow> 0 | Some b \<Rightarrow> int (length b))"

definition incomingTransferComplete :: "rx \<Rightarrow> bool" where
  "incomingTransferComplete x \<longleftrightarrow>
     (let ss = take (rx_totalParts x) (rx_partSlots x) in
      None \<notin> set ss \<and> slots_size ss = a_TransferSize (rx_adv x))"

definition concatIncomingParts :: "rx \<Rightarrow> bytes \<times> rx" where
  "concatIncomingParts x =
     (concat (map (\<lambda>s. case s of None \<Rightarrow> [] | Some b \<Rightarrow> b) (take (rx_totalParts x) (rx_partSlots x))),
      x\<lparr> rx_partSlots := replicate (rx_totalParts x) None @ drop (rx_totalParts x) (rx_partSlots x) \<rparr>)"

section \<open>The link's receiving state\<close>

record rxlink =
  rl_rx :: "rx option"
  rl_next :: nat
  rl_lastWindow :: int
  rl_active :: bool
  rl_reqs :: requests
  rl_mtu :: int
  rl_mdu :: int

text \<open>Actions outside the lock: goroutines started, packets sent, the release of the memory reservation.\<close>

datatype rx_act = SpawnReqNext | SpawnPrefetch | SpawnWatch nat | SendReq bytes | SendReject bytes | SendProof bytes | Release

datatype rx_error =
    InvalidMDU | InvalidParts | PartsExceed | NegativeTransfer | TransferExceeds | TransferExceedsParts | InvalidHashmap
  | ProtectRefused | CannotExtend | InvalidLastHash | SendFailed | BadRandomHash | MapHashMismatch | EmptyHashmapUpdate
  | DecryptFailed crypto_error | TooShortForRandom | InvalidDataSize | ExceedsAutoCompress | DecompressFailed
  | ExceedsDataSize | ExceedsBound | HashMismatch | ProofFailed

definition resourceSDU :: "rxlink \<Rightarrow> int" where
  "resourceSDU l =
     (let sdu = rl_mtu l - 35 - 1 in if rl_mtu l > 0 \<and> sdu > 0 then sdu else rl_mdu l)"

text \<open>\<open>flushIncomingResourceStats\<close>: a complete transfer leaves its window for the next one.\<close>

definition flushIncomingResourceStats :: "bool \<Rightarrow> rx \<Rightarrow> rxlink \<Rightarrow> rxlink" where
  "flushIncomingResourceStats complete x l = (if complete then l\<lparr> rl_lastWindow := rx_window x \<rparr> else l)"

text \<open>\<open>clearIncomingResourceLocked\<close>: the memory reservation and the receipt that the caller must settle.\<close>

definition clearIncomingResourceLocked :: "rx \<Rightarrow> rx_act list \<times> nat option" where
  "clearIncomingResourceLocked x = ((if rx_protectRelease x then [Release] else []), rx_request x)"

definition fail_bound :: "nat option \<Rightarrow> rxlink \<Rightarrow> rxlink" where
  "fail_bound req l = (case req of None \<Rightarrow> l | Some i \<Rightarrow> l\<lparr> rl_reqs := failPendingRequest i (rl_reqs l) \<rparr>)"

definition resetIncomingResource :: "rxlink \<Rightarrow> rxlink \<times> rx_act list" where
  "resetIncomingResource l =
     (case rl_rx l of
        None \<Rightarrow> (l, [])
      | Some x \<Rightarrow>
          (let (acts, req) = clearIncomingResourceLocked x in (fail_bound req (l\<lparr> rl_rx := None \<rparr>), acts)))"

text \<open>The hash as a slice, nil being empty.\<close>

definition adv_hash :: "resource_adv \<Rightarrow> bytes" where
  "adv_hash a = (case a_Hash a of None \<Rightarrow> [] | Some h \<Rightarrow> h)"

definition adv_random :: "resource_adv \<Rightarrow> bytes" where
  "adv_random a = (case a_RandomHash a of None \<Rightarrow> [] | Some h \<Rightarrow> h)"

definition adv_map :: "resource_adv \<Rightarrow> bytes" where
  "adv_map a = (case a_Hashmap a of None \<Rightarrow> [] | Some h \<Rightarrow> h)"

definition reject_if_active :: "rxlink \<Rightarrow> bytes \<Rightarrow> rx_act list" where
  "reject_if_active l h = (if rl_active l \<and> length h = 32 then [SendReject h] else [])"

definition abortResponseResourceFor :: "nat \<Rightarrow> rxlink \<Rightarrow> rxlink \<times> rx_act list" where
  "abortResponseResourceFor req l =
     (case rl_rx l of
        None \<Rightarrow> (l, [])
      | Some x \<Rightarrow>
          if rx_request x \<noteq> Some req then (l, [])
          else
            (let (acts, bound) = clearIncomingResourceLocked x;
                 l1 = fail_bound bound (l\<lparr> rl_rx := None \<rparr>)
             in (l1, acts @ reject_if_active l1 (adv_hash (rx_adv x)))))"

definition bindIncomingResponseRequest :: "nat \<Rightarrow> nat \<Rightarrow> rxlink \<Rightarrow> rxlink \<times> rx_act list" where
  "bindIncomingResponseRequest i req l =
     (case rl_rx l of
        None \<Rightarrow> (l, [])
      | Some x \<Rightarrow>
          if rx_id x \<noteq> i then (l, [])
          else
            (let l1 = l\<lparr> rl_rx := Some (x\<lparr> rx_request := Some req \<rparr>) \<rparr> in
             if \<not> open_status (q_status (qs_receipt (rl_reqs l1) req)) then abortResponseResourceFor req l1 else (l1, [])))"

definition new_rx :: "nat \<Rightarrow> resource_adv \<Rightarrow> int \<Rightarrow> int \<Rightarrow> int \<Rightarrow> rx" where
  "new_rx i adv sdu segLen now =
     (let n = nat (a_Parts adv) in
      \<lparr> rx_id = i, rx_adv = adv, rx_sdu = sdu, rx_hashmapSegLen = segLen, rx_partSlots = replicate n None,
        rx_mapHashes = replicate n None, rx_inflight = replicate n False, rx_hashIndex = (\<lambda>_. []), rx_hashmapHeight = 0,
        rx_totalParts = n, rx_consecutiveCompleted = -1, rx_waitingForHmu = False, rx_outstandingParts = 0,
        rx_window = WindowMaxSlow, rx_windowMin = WindowMin, rx_windowMax = WindowMaxFast, rx_consecutiveStalls = 0,
        rx_lastProgressAt = now, rx_startedAt = now, rx_reqRounds = 0, rx_hmuRounds = 0, rx_stallRetries = 0,
        rx_partsReceived = 0, rx_bytesReceived = 0, rx_hmuWaitNanos = 0, rx_hmuWaitStarted = None,
        rx_protectRelease = True, rx_request = None \<rparr>)"

text \<open>The checks of \<open>beginIncomingResource\<close> on the advertisement, in their order.\<close>

definition begin_refused :: "int \<Rightarrow> resource_adv \<Rightarrow> rx_error option" where
  "begin_refused sdu adv =
     (let maxSegmentBytes = MaxEfficientSize + 4096;
          maxParts = min (max (maxSegmentBytes div sdu + 8) 1) MaxSegments
      in if sdu \<le> 0 then Some InvalidMDU
         else if a_Parts adv \<le> 0 then Some InvalidParts
         else if a_Parts adv > maxParts then Some PartsExceed
         else if a_TransferSize adv < 0 then Some NegativeTransfer
         else if a_TransferSize adv > maxSegmentBytes then Some TransferExceeds
         else if a_TransferSize adv > a_Parts adv * sdu then Some TransferExceedsParts
         else if length (adv_map adv) = 0 \<or> length (adv_map adv) mod MapHashLen \<noteq> 0 then Some InvalidHashmap
         else None)"

text \<open>\<open>admit\<close> is the decision of \<open>protect.AdmitResource\<close>, which sizes the reservation.\<close>

definition beginIncomingResource :: "bool \<Rightarrow> int \<Rightarrow> resource_adv \<Rightarrow> rxlink \<Rightarrow> rxlink \<times> rx_act list \<times> rx_error option" where
  "beginIncomingResource admit now adv l =
     (let sdu = resourceSDU l; segLen = HashmapEntriesPerSegment (rl_mdu l) in
      case begin_refused sdu adv of
        Some e \<Rightarrow> (l, [], Some e)
      | None \<Rightarrow>
          if \<not> admit then (l, [], Some ProtectRefused)
          else
            (let x = snd (applyHashmapSegment 0 (adv_map adv) (new_rx (rl_next l) adv sdu segLen now));
                 x1 = x\<lparr> rx_window := startIncomingWindow (rl_lastWindow l) WindowMin WindowMaxFast WindowMaxSlow \<rparr>;
                 l1 = l\<lparr> rl_rx := Some x1, rl_next := rl_next l + 1 \<rparr>;
                 (acts, oldReq) = (case rl_rx l of None \<Rightarrow> ([], None) | Some old \<Rightarrow> clearIncomingResourceLocked old)
             in (fail_bound oldReq l1, acts @ [SpawnWatch (rx_id x1), SpawnReqNext], None)))"

section \<open>Requesting parts\<close>

text \<open>
  The loop that collects the parts to ask for: the hashes, the part numbers, and whether it met a part
  whose hash is not known yet.
\<close>

fun req_scan :: "rx \<Rightarrow> int \<Rightarrow> nat list \<Rightarrow> bytes \<Rightarrow> nat list \<Rightarrow> bytes \<times> nat list \<times> bool" where
  "req_scan x slots [] hs idxs = (hs, idxs, False)"
| "req_scan x slots (pn # pns) hs idxs =
     (if rx_partSlots x ! pn \<noteq> None \<or> rx_inflight x ! pn then req_scan x slots pns hs idxs
      else case rx_mapHashes x ! pn of
             Some mh \<Rightarrow>
               (let hs1 = hs @ mh; idxs1 = idxs @ [pn] in
                if int (length idxs1) \<ge> slots then (hs1, idxs1, False) else req_scan x slots pns hs1 idxs1)
           | None \<Rightarrow> (hs, idxs, \<not> rx_waitingForHmu x))"

definition set_inflight :: "bool \<Rightarrow> nat list \<Rightarrow> bool list \<Rightarrow> bool list" where
  "set_inflight b idxs fl = fold (\<lambda>i l. if i < length l then l[i := b] else l) idxs fl"

datatype req_plan = NoRequest | RequestError rx_error | Request nat bytes "nat list" bool

text \<open>The first locked section of \<open>sendIncomingResourceReqNext\<close>, up to the send.\<close>

definition plan_request :: "int \<Rightarrow> rx \<Rightarrow> rx \<times> req_plan" where
  "plan_request now x =
     (let start = search_start x; win = eff_window x; slotsNeeded = win - rx_outstandingParts x in
      if start \<ge> rx_totalParts x then (x, NoRequest)
      else if rx_outstandingParts x > 0 \<and> rx_outstandingParts x > win div 2 then (x, NoRequest)
      else if slotsNeeded \<le> 0 then (x, NoRequest)
      else
        (let end = min (start + nat (win * 2)) (rx_totalParts x);
             (hs, idxs, exhausted) = req_scan x slotsNeeded [start..<end] [] []
         in if length hs = 0 \<and> \<not> exhausted then (x, NoRequest)
            else
              (let reserve = (\<lambda>y. y\<lparr> rx_inflight := set_inflight True idxs (rx_inflight y),
                                    rx_outstandingParts := rx_outstandingParts y + int (length idxs),
                                    rx_reqRounds := rx_reqRounds y + 1 \<rparr>)
               in if exhausted
                  then
                    (let h = rx_hashmapHeight x in
                     if h = 0 \<or> h - 1 \<ge> length (rx_mapHashes x) then (x, RequestError CannotExtend)
                     else case rx_mapHashes x ! (h - 1) of
                            None \<Rightarrow> (x, RequestError InvalidLastHash)
                          | Some lastH \<Rightarrow>
                              if length lastH \<noteq> MapHashLen then (x, RequestError InvalidLastHash)
                              else
                                (let x1 = markHmuWaitLocked now True x; x2 = reserve (x1\<lparr> rx_hmuRounds := rx_hmuRounds x1 + 1 \<rparr>) in
                                 (x2, Request (rx_id x) ([hashmapExhausted] @ lastH @ adv_hash (rx_adv x) @ hs) idxs True)))
                  else (reserve x, Request (rx_id x) ([hashmapNotExhausted] @ adv_hash (rx_adv x) @ hs) idxs False))))"

text \<open>The second locked section, after a failed send.\<close>

definition undo_request :: "int \<Rightarrow> nat \<Rightarrow> nat list \<Rightarrow> bool \<Rightarrow> rxlink \<Rightarrow> rxlink" where
  "undo_request now i idxs exhausted l =
     (case rl_rx l of
        None \<Rightarrow> l
      | Some x \<Rightarrow>
          if rx_id x \<noteq> i then l
          else
            (let n = rx_outstandingParts x - int (length idxs);
                 x1 = x\<lparr> rx_inflight := set_inflight False idxs (rx_inflight x),
                         rx_outstandingParts := (if n < 0 then 0 else n) \<rparr>
             in l\<lparr> rl_rx := Some (if exhausted then markHmuWaitLocked now False x1 else x1) \<rparr>))"

text \<open>The whole function when nothing happens between the two; \<open>sent\<close> tells whether the send succeeds.\<close>

definition sendIncomingResourceReqNext :: "int \<Rightarrow> bool \<Rightarrow> rxlink \<Rightarrow> rxlink \<times> rx_act list \<times> rx_error option" where
  "sendIncomingResourceReqNext now sent l =
     (case rl_rx l of
        None \<Rightarrow> (l, [], None)
      | Some x \<Rightarrow>
          (case plan_request now x of
             (x1, NoRequest) \<Rightarrow> (l, [], None)
           | (x1, RequestError e) \<Rightarrow> (l, [], Some e)
           | (x1, Request i body idxs exhausted) \<Rightarrow>
               (let l1 = l\<lparr> rl_rx := Some x1 \<rparr> in
                if sent then (l1, [SendReq body], None) else (undo_request now i idxs exhausted l1, [], Some SendFailed))))"

definition prefetch_threshold :: "rx \<Rightarrow> int" where
  "prefetch_threshold x = max (rx_window x div 2) 1"

definition sendIncomingResourceHMUPrefetch :: "int \<Rightarrow> bool \<Rightarrow> rxlink \<Rightarrow> rxlink \<times> rx_act list \<times> rx_error option" where
  "sendIncomingResourceHMUPrefetch now sent l =
     (case rl_rx l of
        None \<Rightarrow> (l, [], None)
      | Some x \<Rightarrow>
          if rx_waitingForHmu x then (l, [], None)
          else if rx_hashmapHeight x \<ge> rx_totalParts x then (l, [], None)
          else if int (knownHashesAhead x) \<ge> prefetch_threshold x then (l, [], None)
          else if rx_hashmapHeight x = 0 \<or> rx_hashmapHeight x - 1 \<ge> length (rx_mapHashes x) then (l, [], Some CannotExtend)
          else case rx_mapHashes x ! (rx_hashmapHeight x - 1) of
                 None \<Rightarrow> (l, [], Some InvalidLastHash)
               | Some lastH \<Rightarrow>
                   if length lastH \<noteq> MapHashLen then (l, [], Some InvalidLastHash)
                   else
                     (let x1 = markHmuWaitLocked now True x; x2 = x1\<lparr> rx_hmuRounds := rx_hmuRounds x1 + 1 \<rparr> in
                      if sent then (l\<lparr> rl_rx := Some x2 \<rparr>, [SendReq ([hashmapExhausted] @ lastH @ adv_hash (rx_adv x))], None)
                      else (l\<lparr> rl_rx := Some (markHmuWaitLocked now False x2) \<rparr>, [], Some SendFailed)))"

section \<open>The watchdog\<close>

text \<open>What a stall does to the assembly: the reservations are dropped and the window shrinks after repeated stalls.\<close>

definition stall_rx :: "int \<Rightarrow> rx \<Rightarrow> rx" where
  "stall_rx now x0 =
     (let x = markHmuWaitLocked now False x0;
          x1 = x\<lparr> rx_inflight := map (\<lambda>_. False) (rx_inflight x), rx_outstandingParts := 0,
                  rx_consecutiveStalls := rx_consecutiveStalls x + 1, rx_stallRetries := rx_stallRetries x + 1 \<rparr>;
          x2 = (if rx_consecutiveStalls x1 \<ge> incomingResourceWindowShrinkStalls \<and> rx_window x1 > rx_windowMin x1 \<and> rx_windowMin x1 > 0
                then x1\<lparr> rx_window := rx_window x1 - 1 \<rparr> else x1)
      in if rx_consecutiveStalls x2 \<ge> incomingResourceWindowMaxShrinkStalls \<and> rx_windowMax x2 > rx_windowMin x2
         then
           (let m = rx_windowMax x2 - 1 in
            x2\<lparr> rx_windowMax := (if m - rx_window x2 > WindowFlexibility - 1 then m - 1 else m) \<rparr>)
         else x2)"

definition tickIncomingResourceWatchdog :: "nat \<Rightarrow> int \<Rightarrow> bool \<Rightarrow> rxlink \<Rightarrow> bool \<times> rxlink \<times> rx_act list" where
  "tickIncomingResourceWatchdog i now sent l =
     (case rl_rx l of
        None \<Rightarrow> (False, l, [])
      | Some x \<Rightarrow>
          if rx_id x \<noteq> i then (False, l, [])
          else if now - rx_lastProgressAt x < incomingResourceStallGrace then (True, l, [])
          else if rx_outstandingParts x = 0 \<and> \<not> rx_waitingForHmu x then (True, l, [])
          else
            (let x1 = stall_rx now x; l1 = l\<lparr> rl_rx := Some x1 \<rparr> in
             if rx_consecutiveStalls x1 \<ge> incomingResourceMaxStallRetries
             then (let (l2, acts) = resetIncomingResource l1 in (False, l2, acts @ reject_if_active l2 (adv_hash (rx_adv x1))))
             else
               (case sendIncomingResourceReqNext now sent l1 of
                  (l2, acts, None) \<Rightarrow> (True, l2, acts)
                | (l2, acts, Some e) \<Rightarrow> (let (l3, acts') = resetIncomingResource l2 in (False, l3, acts @ acts')))))"

section \<open>Hash map updates\<close>

definition applyIncomingHashmapUpdate ::
  "int \<Rightarrow> bytes \<Rightarrow> int \<Rightarrow> bytes \<Rightarrow> rxlink \<Rightarrow> rxlink \<times> rx_act list \<times> rx_error option" where
  "applyIncomingHashmapUpdate now resHash segment hb l =
     (case rl_rx l of
        None \<Rightarrow> (l, [], None)
      | Some x \<Rightarrow>
          if resHash \<noteq> adv_hash (rx_adv x) then (l, [], None)
          else if \<not> rx_waitingForHmu x then (l, [], None)
          else if length hb div MapHashLen < 1
          then (let (l1, acts) = resetIncomingResource l in
                (l1, acts @ reject_if_active l1 (adv_hash (rx_adv x)), Some EmptyHashmapUpdate))
          else
            (let x1 = snd (applyHashmapSegment segment hb x);
                 x2 = markHmuWaitLocked now False (x1\<lparr> rx_lastProgressAt := now \<rparr>)
             in (l\<lparr> rl_rx := Some x2 \<rparr>, [SpawnReqNext], None)))"

section \<open>Accepting parts\<close>

text \<open>The place of a part in a range: by the index, else by scanning the range.\<close>

definition find_slot :: "bytes \<Rightarrow> nat \<Rightarrow> nat \<Rightarrow> rx \<Rightarrow> nat option" where
  "find_slot mh a b x =
     (case lookupMapHash mh a b x of
        Some i \<Rightarrow> Some i
      | None \<Rightarrow> find (\<lambda>i. rx_partSlots x ! i = None \<and> rx_mapHashes x ! i = Some mh) [a..<b])"

definition place_part :: "bytes \<Rightarrow> rx \<Rightarrow> nat option" where
  "place_part mh x =
     (let windowStart = search_start x;
          windowEnd = min (windowStart + nat (eff_window x)) (rx_totalParts x);
          guardEnd = min (windowStart + nat CollisionGuardSize) (rx_totalParts x)
      in case find_slot mh windowStart windowEnd x of
           Some i \<Rightarrow> Some i
         | None \<Rightarrow> find_slot mh windowStart guardEnd x)"

definition is_duplicate :: "bytes \<Rightarrow> rx \<Rightarrow> bool" where
  "is_duplicate mh x \<longleftrightarrow> (\<exists>i \<in> set [0..<rx_totalParts x]. rx_partSlots x ! i \<noteq> None \<and> rx_mapHashes x ! i = Some mh)"

text \<open>Storing a part in its slot, with the counters and the reservation.\<close>

definition store_part :: "int \<Rightarrow> nat \<Rightarrow> bytes \<Rightarrow> rx \<Rightarrow> rx" where
  "store_part now idx data x =
     (let slots = (rx_partSlots x)[idx := Some data] in
      x\<lparr> rx_partSlots := slots, rx_lastProgressAt := now, rx_consecutiveStalls := 0,
         rx_partsReceived := rx_partsReceived x + 1, rx_bytesReceived := rx_bytesReceived x + int (length data),
         rx_inflight := (if idx < length (rx_inflight x) \<and> rx_inflight x ! idx then (rx_inflight x)[idx := False] else rx_inflight x),
         rx_outstandingParts := (if rx_outstandingParts x > 0 then rx_outstandingParts x - 1 else rx_outstandingParts x),
         rx_consecutiveCompleted := consecutivePrefix slots \<rparr>)"

definition reportIncomingResourceProgress :: "rx \<Rightarrow> rxlink \<Rightarrow> rxlink" where
  "reportIncomingResourceProgress x l =
     (case rx_request x of
        None \<Rightarrow> l
      | Some i \<Rightarrow> l\<lparr> rl_reqs := report_progress i (slots_size (take (rx_totalParts x) (rx_partSlots x))) (rl_reqs l) \<rparr>)"

text \<open>After the last part: the assembly leaves the link and its ciphertext goes to the delivery.\<close>

definition finish_transfer :: "rx \<Rightarrow> rxlink \<Rightarrow> rxlink \<times> rx_act list \<times> (bytes \<times> rx)" where
  "finish_transfer x l =
     (let (inner, x1) = concatIncomingParts x;
          l1 = flushIncomingResourceStats True x1 l
      in (l1\<lparr> rl_rx := None \<rparr>, (if rx_protectRelease x then [Release] else []), (inner, x1\<lparr> rx_protectRelease := False \<rparr>)))"

datatype part_result = PartHandled | PartError rx_error | PartLast bytes rx

text \<open>The locked section of \<open>appendIncomingResourcePart\<close>.\<close>

definition accept_part :: "hashfn \<Rightarrow> int \<Rightarrow> bytes \<Rightarrow> rxlink \<Rightarrow> rxlink \<times> rx_act list \<times> part_result" where
  "accept_part H now data l =
     (case rl_rx l of
        None \<Rightarrow> (l, [], PartHandled)
      | Some x \<Rightarrow>
          if length data = 0
          then (if incomingTransferComplete x
                then (case finish_transfer x l of (l1, acts, inner, x1) \<Rightarrow> (l1, acts, PartLast inner x1))
                else (l, [], PartHandled))
          else if length (adv_random (rx_adv x)) \<noteq> RandomHashSize then (l, [], PartError BadRandomHash)
          else
            (let mh = map_hash H (adv_random (rx_adv x)) data in
             case place_part mh x of
               None \<Rightarrow> if is_duplicate mh x then (l, [], PartHandled) else (l, [], PartError MapHashMismatch)
             | Some idx \<Rightarrow>
                 (let x1 = store_part now idx data x;
                      l1 = reportIncomingResourceProgress x1 (l\<lparr> rl_rx := Some x1 \<rparr>)
                  in if incomingTransferComplete x1
                     then (case finish_transfer x1 l1 of (l2, acts, inner, x2) \<Rightarrow> (l2, acts, PartLast inner x2))
                     else
                       (let prefetch = (\<not> rx_waitingForHmu x1 \<and> rx_hashmapHeight x1 < rx_totalParts x1
                                        \<and> int (knownHashesAhead x1) < prefetch_threshold x1);
                            refill = (rx_outstandingParts x1 = 0 \<or> rx_outstandingParts x1 \<le> eff_window x1 div 2);
                            x2 = (if refill \<and> rx_consecutiveStalls x1 = 0 then growIncomingResourceWindow x1 else x1)
                        in (l1\<lparr> rl_rx := Some x2 \<rparr>,
                            (if prefetch then [SpawnPrefetch] else []) @ (if refill then [SpawnReqNext] else []), PartHandled)))))"

section \<open>Assembly and delivery\<close>

text \<open>
  \<open>dec\<close> is the decryption of the link; \<open>unbz data n\<close> reads at most \<open>n\<close> bytes from the bzip2 stream \<open>data\<close>.
\<close>

definition assembleIncomingPayload ::
  "hashfn \<Rightarrow> (bytes \<Rightarrow> bytes crypto) \<Rightarrow> (bytes \<Rightarrow> nat \<Rightarrow> bytes option) \<Rightarrow> bytes \<Rightarrow> resource_adv \<Rightarrow> (rx_error + bytes) option" where
  "assembleIncomingPayload H dec unbz inner adv =
     (case (if a_Encrypted adv then dec inner else Some (Inr inner)) of
        None \<Rightarrow> None
      | Some (Inl e) \<Rightarrow> Some (Inl (DecryptFailed e))
      | Some (Inr innerPlain) \<Rightarrow>
         Some
          (if length innerPlain < RandomHashSize then Inl TooShortForRandom
           else
             (let data = drop RandomHashSize innerPlain;
                  body =
                    (if a_Compressed adv
                     then
                       (if a_DataSize adv \<le> 0 then Inl InvalidDataSize
                        else if \<not> a_Split adv \<and> a_DataSize adv > AutoCompressMaxSize then Inl ExceedsAutoCompress
                        else
                          (let bound = (if a_DataSize adv > AutoCompressMaxSize then AutoCompressMaxSize else a_DataSize adv) in
                           case unbz data (nat (bound + 1)) of
                             None \<Rightarrow> Inl DecompressFailed
                           | Some d \<Rightarrow>
                               if int (length d) > a_DataSize adv then Inl ExceedsDataSize
                               else if int (length d) > AutoCompressMaxSize then Inl ExceedsBound
                               else Inr d))
                     else Inr data)
              in case body of
                   Inl e \<Rightarrow> Inl e
                 | Inr d \<Rightarrow> if sum256 H (d @ adv_random adv) \<noteq> adv_hash adv then Inl HashMismatch else Inr d)))"

definition meta_size :: "bytes \<Rightarrow> nat" where
  "meta_size p = unat (p ! 0) * 65536 + unat (p ! 1) * 256 + unat (p ! 2)"

definition splitResourceMetadata :: "(bytes \<Rightarrow> dict option) \<Rightarrow> bytes \<Rightarrow> resource_adv \<Rightarrow> bytes \<times> dict option" where
  "splitResourceMetadata unpackmeta payload adv =
     (if \<not> a_HasMetadata adv then (payload, None)
      else if length payload < 3 then (payload, None)
      else if 3 + meta_size payload > length payload then (payload, None)
      else (drop (3 + meta_size payload) payload, unpackmeta (take (meta_size payload) (drop 3 payload))))"

text \<open>What an assembled resource is handed to.\<close>

datatype delivery =
    DeliverSegment bytes "nat option"
  | DeliverRequest bytes bytes
  | DeliverResponse nat bytes "dict option"
  | DeliverApp bytes "dict option"

definition proof_of :: "hashfn \<Rightarrow> bytes \<Rightarrow> bytes \<Rightarrow> bytes" where
  "proof_of H payload resourceHash = resourceHash @ sum256 H (payload @ resourceHash)"

text \<open>
  \<open>deliverIncomingResource\<close>: \<open>sent\<close> tells whether the proof packet can be packed and sent. Only the
  delivery to the application comes before the proof.
\<close>

definition deliverIncomingResource ::
  "hashfn \<Rightarrow> (bytes \<Rightarrow> bytes crypto) \<Rightarrow> (bytes \<Rightarrow> nat \<Rightarrow> bytes option) \<Rightarrow> (bytes \<Rightarrow> dict option) \<Rightarrow> bool \<Rightarrow> bytes \<Rightarrow> rx
     \<Rightarrow> (rx_act list \<times> (rx_error + delivery)) option" where
  "deliverIncomingResource H dec unbz unpackmeta sent inner x =
     (let adv = rx_adv x in
      case assembleIncomingPayload H dec unbz inner adv of
        None \<Rightarrow> None
      | Some (Inl e) \<Rightarrow> Some ([], Inl e)
      | Some (Inr payload) \<Rightarrow>
         (let pending = rx_request x;
              ok = (length (adv_hash adv) = 32 \<and> sent);
              proof_act = (if ok then [SendProof (proof_of H payload (adv_hash adv))] else [])
          in Some
              (if a_Split adv \<and> a_TotalSegments adv > 1
               then (proof_act, if ok then Inr (DeliverSegment payload pending) else Inl ProofFailed)
               else if a_IsRequest adv
               then (proof_act, if ok then Inr (DeliverRequest payload (take 16 (sum256 H payload))) else Inl ProofFailed)
               else case pending of
                      Some i \<Rightarrow>
                        (proof_act,
                         if ok then (case splitResourceMetadata unpackmeta payload adv of (body, md) \<Rightarrow> Inr (DeliverResponse i body md))
                         else Inl ProofFailed)
                    | None \<Rightarrow>
                        (proof_act, case splitResourceMetadata unpackmeta payload adv of (body, md) \<Rightarrow> Inr (DeliverApp body md)))))"

definition appendIncomingResourcePart ::
  "hashfn \<Rightarrow> (bytes \<Rightarrow> bytes crypto) \<Rightarrow> (bytes \<Rightarrow> nat \<Rightarrow> bytes option) \<Rightarrow> (bytes \<Rightarrow> dict option) \<Rightarrow> bool \<Rightarrow> int \<Rightarrow> bytes \<Rightarrow> rxlink
     \<Rightarrow> (rxlink \<times> rx_act list \<times> (rx_error + delivery) option) option" where
  "appendIncomingResourcePart H dec unbz unpackmeta sent now data l =
     (case accept_part H now data l of
        (l1, acts, PartHandled) \<Rightarrow> Some (l1, acts, None)
      | (l1, acts, PartError e) \<Rightarrow> Some (l1, acts, Some (Inl e))
      | (l1, acts, PartLast inner x) \<Rightarrow>
          (case deliverIncomingResource H dec unbz unpackmeta sent inner x of
             None \<Rightarrow> None
           | Some (acts', d) \<Rightarrow> Some (l1, acts @ acts', Some d)))"

section \<open>Handlers\<close>

definition AcceptNone :: byte where "AcceptNone = 0x00"
definition AcceptAll :: byte where "AcceptAll = 0x01"
definition AcceptApp :: byte where "AcceptApp = 0x02"

text \<open>
  \<open>processResourceAdvertisement\<close>. \<open>handlers\<close> tells whether the destination has request handlers and
  \<open>maxReq\<close> its request size limit; \<open>accepts\<close> is the application's callback, \<open>None\<close> if there is none.
\<close>

definition processResourceAdvertisement ::
  "(bytes \<Rightarrow> dict option) \<Rightarrow> bool \<Rightarrow> int option \<Rightarrow> byte \<Rightarrow> (resource_adv \<Rightarrow> bool) option \<Rightarrow> bool \<Rightarrow> int \<Rightarrow> bytes \<Rightarrow> rxlink
     \<Rightarrow> rxlink \<times> rx_act list \<times> (adv_error + rx_error) option" where
  "processResourceAdvertisement unmarshal handlers maxReq strategy accepts admit now plaintext l =
     (case UnpackResourceAdvertisement unmarshal plaintext of
        Inl e \<Rightarrow> (l, [], Some (Inl e))
      | Inr adv \<Rightarrow>
         if a_IsRequest adv \<and> a_RequestID adv \<noteq> None
         then
           (if \<not> handlers then (l, [], None)
            else if (case maxReq of None \<Rightarrow> False | Some m \<Rightarrow> a_TransferSize adv > m) then (l, [], None)
            else case beginIncomingResource admit now adv l of (l1, acts, e) \<Rightarrow> (l1, acts, map_option Inr e))
         else if a_IsResponse adv \<and> a_RequestID adv \<noteq> None
         then
           (case find_request (the (a_RequestID adv)) (rl_reqs l) of
              None \<Rightarrow> (l, [], None)
            | Some i \<Rightarrow>
                (let r = qs_receipt (rl_reqs l) i in
                 if q_maxResponseSize r > 0 \<and> a_TransferSize adv > q_maxResponseSize r
                 then (l\<lparr> rl_reqs := failPendingRequest i (rl_reqs l) \<rparr>, [], None)
                 else
                   (let l1 = l\<lparr> rl_reqs := upd_receipt i (\<lambda>r. r\<lparr> q_totalBytes := a_TransferSize adv \<rparr>) (rl_reqs l) \<rparr> in
                    case beginIncomingResource admit now adv l1 of
                      (l2, acts, Some e) \<Rightarrow> (l2, acts, Some (Inr e))
                    | (l2, acts, None) \<Rightarrow>
                        (case bindIncomingResponseRequest (rl_next l1) i l2 of (l3, acts') \<Rightarrow> (l3, acts @ acts', None)))))
         else if strategy = AcceptNone then (l, [SendReject (adv_hash adv)], None)
         else
           (let allowed = (strategy = AcceptAll \<or> strategy = AcceptApp \<and> (case accepts of None \<Rightarrow> False | Some f \<Rightarrow> f adv)) in
            if allowed then (case beginIncomingResource admit now adv l of (l1, acts, e) \<Rightarrow> (l1, acts, map_option Inr e))
            else (l, [SendReject (adv_hash adv)], None)))"

text \<open>
  \<open>handleResourceHashmapUpdate\<close> on the decrypted payload. A malformed update only reaches the started
  callback; \<open>unlist\<close> decodes the msgpack array.
\<close>

definition handleResourceHashmapUpdate ::
  "(bytes \<Rightarrow> any list option) \<Rightarrow> int \<Rightarrow> bytes \<Rightarrow> rxlink \<Rightarrow> rxlink \<times> rx_act list \<times> rx_error option" where
  "handleResourceHashmapUpdate unlist now plaintext l =
     (if length plaintext < 32 then (l, [], None)
      else case unlist (drop 32 plaintext) of
             None \<Rightarrow> (l, [], None)
           | Some update \<Rightarrow>
               if length update < 2 then (l, [], None)
               else case (wireInt (update ! 0), update ! 1) of
                      (Some seg, ABytes hm) \<Rightarrow> applyIncomingHashmapUpdate now (take 32 plaintext) seg hm l
                    | _ \<Rightarrow> (l, [], None))"

definition handleResourceCancel :: "bytes \<Rightarrow> rxlink \<Rightarrow> rxlink \<times> rx_act list" where
  "handleResourceCancel plaintext l =
     (let (l1, acts) = resetIncomingResource l in
      (l1, acts @ (if rl_active l1 \<and> length plaintext \<ge> 32 then [SendReject (take 32 plaintext)] else [])))"

text \<open>
  The polling loop of \<open>startTimeout\<close> after the timer has fired: one round, with the time since which no
  transfer is bound to the receipt. The result is \<open>None\<close> when the loop ends.
\<close>

definition timeout_round :: "int \<Rightarrow> nat \<Rightarrow> int option \<Rightarrow> rxlink \<Rightarrow> int option option \<times> rxlink \<times> rx_act list" where
  "timeout_round now i unbound l =
     (let r = qs_receipt (rl_reqs l) i in
      if q_status r = link_StatusPending
      then (let (l1, acts) = abortResponseResourceFor i l in (None, l1\<lparr> rl_reqs := failPendingRequest i (rl_reqs l1) \<rparr>, acts))
      else if q_status r \<noteq> link_StatusReceiving then (None, l, [])
      else if (case rl_rx l of None \<Rightarrow> False | Some x \<Rightarrow> rx_request x = Some i) then (Some None, l, [])
      else case unbound of
             None \<Rightarrow> (Some (Some now), l, [])
           | Some t \<Rightarrow>
               if now - t > q_timeout r then (None, l\<lparr> rl_reqs := failPendingRequest i (rl_reqs l) \<rparr>, [])
               else (Some (Some t), l, []))"

section \<open>Well-formed assemblies\<close>

definition window_wf :: "rx \<Rightarrow> bool" where
  "window_wf x \<longleftrightarrow> WindowMin \<le> rx_windowMin x \<and> rx_windowMin x \<le> rx_window x \<and> rx_window x \<le> rx_windowMax x
     \<and> rx_windowMax x \<le> WindowMaxFast \<and> rx_outstandingParts x \<le> rx_window x \<and> 0 \<le> rx_consecutiveStalls x"

abbreviation reserved :: "rx \<Rightarrow> nat" where
  "reserved x \<equiv> count_list (rx_inflight x) True"

definition slots_wf :: "rx \<Rightarrow> bool" where
  "slots_wf x \<longleftrightarrow> length (rx_partSlots x) = rx_totalParts x \<and> length (rx_mapHashes x) = rx_totalParts x
     \<and> length (rx_inflight x) = rx_totalParts x
     \<and> (\<forall>b. Some b \<in> set (rx_partSlots x) \<longrightarrow> b \<noteq> []) \<and> (\<forall>h. Some h \<in> set (rx_mapHashes x) \<longrightarrow> length h = MapHashLen)
     \<and> (\<forall>i < rx_totalParts x. rx_inflight x ! i \<longrightarrow> rx_partSlots x ! i = None)
     \<and> rx_consecutiveCompleted x = consecutivePrefix (rx_partSlots x)
     \<and> 0 \<le> rx_outstandingParts x \<and> rx_outstandingParts x \<le> int (reserved x)"

definition rx_wf :: "rx \<Rightarrow> bool" where
  "rx_wf x \<longleftrightarrow> slots_wf x \<and> window_wf x"

lemma window_range: "window_wf x \<Longrightarrow> 2 \<le> rx_window x \<and> rx_window x \<le> 75"
  by (simp add: window_wf_def window_consts)

lemma eff_window_wf: "window_wf x \<Longrightarrow> eff_window x = rx_window x"
  using window_range [of x] by (simp add: eff_window_def)

lemma search_start_prefix: "slots_wf x \<Longrightarrow> search_start x = prefix_len (rx_partSlots x)"
  by (simp add: slots_wf_def search_start_def consecutivePrefix_def)

lemma prefix_len_le: "prefix_len ss \<le> length ss"
  by (induction ss) (auto split: option.splits)

lemma prefix_len_nth: "i < prefix_len ss \<Longrightarrow> ss ! i \<noteq> None"
proof (induction ss arbitrary: i)
  case (Cons s ss)
  then show ?case by (cases i) (auto split: option.splits if_splits)
qed simp

lemma prefix_len_stop: "prefix_len ss < length ss \<Longrightarrow> (\<And>b. Some b \<in> set ss \<Longrightarrow> b \<noteq> []) \<Longrightarrow> ss ! prefix_len ss = None"
proof (induction ss)
  case (Cons s ss)
  then show ?case by (cases s) (auto split: if_splits)
qed simp

lemma prefix_len_full: "(\<And>b. Some b \<in> set ss \<Longrightarrow> b \<noteq> []) \<Longrightarrow> prefix_len ss = length ss \<longleftrightarrow> None \<notin> set ss"
proof
  assume n: "\<And>b. Some b \<in> set ss \<Longrightarrow> b \<noteq> []" and "None \<notin> set ss"
  then show "prefix_len ss = length ss" using prefix_len_stop [of ss] prefix_len_le [of ss]
    by (metis le_neq_implies_less nth_mem)
next
  assume "prefix_len ss = length ss"
  then show "None \<notin> set ss" using prefix_len_nth by (metis in_set_conv_nth)
qed

subsection \<open>Reservations\<close>

lemma length_set_inflight [simp]: "length (set_inflight b idxs fl) = length fl"
  by (induction idxs arbitrary: fl) (auto simp: set_inflight_def)

lemma set_inflight_Cons: "set_inflight b (i # idxs) fl = set_inflight b idxs (if i < length fl then fl[i := b] else fl)"
  by (simp add: set_inflight_def)

lemma set_inflight_nth: "k < length fl \<Longrightarrow> set_inflight b idxs fl ! k = (if k \<in> set idxs then b else fl ! k)"
  by (induction idxs arbitrary: fl) (auto simp: set_inflight_Cons set_inflight_def nth_list_update)

lemma count_update: "i < length fl \<Longrightarrow> int (count_list (fl[i := b]) True) = int (count_list fl True) - (if fl ! i then 1 else 0) + (if b then 1 else 0)"
proof (induction fl arbitrary: i)
  case (Cons a fl)
  show ?case
  proof (cases i)
    case (Suc k)
    then show ?thesis using Cons.IH [of k] Cons.prems by (simp split: if_splits)
  qed auto
qed simp

lemma count_reserve:
  "distinct idxs \<Longrightarrow> (\<And>i. i \<in> set idxs \<Longrightarrow> i < length fl \<and> \<not> fl ! i) \<Longrightarrow>
     count_list (set_inflight True idxs fl) True = count_list fl True + length idxs"
proof (induction idxs arbitrary: fl)
  case (Cons i idxs)
  have i: "i < length fl" "\<not> fl ! i" using Cons.prems(2) by auto
  have "count_list (set_inflight True idxs (fl[i := True])) True = count_list (fl[i := True]) True + length idxs"
    using Cons.prems by (intro Cons.IH) (auto simp: nth_list_update)
  moreover have "count_list (fl[i := True]) True = count_list fl True + 1" using count_update [OF i(1), of True] i(2) by simp
  ultimately show ?case using i(1) by (simp add: set_inflight_Cons)
qed (simp add: set_inflight_def)

lemma count_unreserve: "count_list (set_inflight False idxs fl) True + length idxs \<ge> count_list fl True"
proof (induction idxs arbitrary: fl)
  case (Cons i idxs)
  show ?case
  proof (cases "i < length fl")
    case True
    have "count_list (fl[i := False]) True + 1 \<ge> count_list fl True" using count_update [OF True, of False] by (simp split: if_splits)
    then show ?thesis using Cons.IH [of "fl[i := False]"] True by (simp add: set_inflight_Cons)
  qed (use Cons.IH [of fl] in \<open>simp add: set_inflight_Cons\<close>)
qed (simp add: set_inflight_def)

subsection \<open>The window\<close>

lemma grow_window_wf: "window_wf x \<Longrightarrow> window_wf (growIncomingResourceWindow x)"
  by (auto simp: growIncomingResourceWindow_def window_wf_def window_consts Let_def max_def)

lemma grow_slots [simp]: "slots_wf (growIncomingResourceWindow x) = slots_wf x"
  by (simp add: growIncomingResourceWindow_def slots_wf_def Let_def)

lemma mark_window [simp]: "window_wf (markHmuWaitLocked now b x) = window_wf x"
  by (auto simp: markHmuWaitLocked_def window_wf_def Let_def split: option.split)

lemma mark_slots [simp]: "slots_wf (markHmuWaitLocked now b x) = slots_wf x"
  by (auto simp: markHmuWaitLocked_def slots_wf_def Let_def split: option.split)

lemma mark_simps [simp]:
  "rx_waitingForHmu (markHmuWaitLocked now b x) = b" "rx_id (markHmuWaitLocked now b x) = rx_id x"
  "rx_adv (markHmuWaitLocked now b x) = rx_adv x" "rx_partSlots (markHmuWaitLocked now b x) = rx_partSlots x"
  "rx_mapHashes (markHmuWaitLocked now b x) = rx_mapHashes x" "rx_inflight (markHmuWaitLocked now b x) = rx_inflight x"
  "rx_hashIndex (markHmuWaitLocked now b x) = rx_hashIndex x" "rx_hashmapHeight (markHmuWaitLocked now b x) = rx_hashmapHeight x"
  "rx_totalParts (markHmuWaitLocked now b x) = rx_totalParts x"
  "rx_consecutiveCompleted (markHmuWaitLocked now b x) = rx_consecutiveCompleted x"
  "rx_outstandingParts (markHmuWaitLocked now b x) = rx_outstandingParts x" "rx_window (markHmuWaitLocked now b x) = rx_window x"
  "rx_windowMin (markHmuWaitLocked now b x) = rx_windowMin x" "rx_windowMax (markHmuWaitLocked now b x) = rx_windowMax x"
  "rx_consecutiveStalls (markHmuWaitLocked now b x) = rx_consecutiveStalls x"
  "rx_lastProgressAt (markHmuWaitLocked now b x) = rx_lastProgressAt x" "rx_request (markHmuWaitLocked now b x) = rx_request x"
  "rx_hashmapSegLen (markHmuWaitLocked now b x) = rx_hashmapSegLen x"
  "rx_protectRelease (markHmuWaitLocked now b x) = rx_protectRelease x"
  by (auto simp: markHmuWaitLocked_def Let_def split: option.split)

lemma count_map_False [simp]: "count_list (map (\<lambda>_. False) xs) True = 0"
  by (induction xs) auto

lemma stall_wf: "rx_wf x \<Longrightarrow> rx_wf (stall_rx now x)"
  unfolding stall_rx_def Let_def rx_wf_def
  by (auto simp: slots_wf_def window_wf_def window_consts stall_consts)

subsection \<open>Planning a request\<close>

lemma req_scan_spec:
  assumes "req_scan x slots pns hs idxs = (hs', idxs', ex)" "distinct pns" "set idxs \<inter> set pns = {}" "distinct idxs"
    and "int (length idxs) < slots"
    and "\<And>i. i \<in> set idxs \<Longrightarrow> \<not> rx_inflight x ! i \<and> rx_partSlots x ! i = None"
    and "hs = concat (map (\<lambda>i. the (rx_mapHashes x ! i)) idxs)"
    and "\<And>i. i \<in> set idxs \<Longrightarrow> rx_mapHashes x ! i \<noteq> None"
  shows "distinct idxs' \<and> set idxs' \<subseteq> set idxs \<union> set pns \<and> int (length idxs') \<le> slots
    \<and> (\<forall>i \<in> set idxs'. \<not> rx_inflight x ! i \<and> rx_partSlots x ! i = None \<and> rx_mapHashes x ! i \<noteq> None)
    \<and> hs' = concat (map (\<lambda>i. the (rx_mapHashes x ! i)) idxs')
    \<and> (ex \<longrightarrow> \<not> rx_waitingForHmu x \<and> (\<exists>i \<in> set pns. rx_mapHashes x ! i = None \<and> rx_partSlots x ! i = None))"
  using assms
proof (induction x slots pns hs idxs rule: req_scan.induct)
  case (2 x slots pn pns hs idxs)
  show ?case
  proof (cases "rx_partSlots x ! pn \<noteq> None \<or> rx_inflight x ! pn")
    case True
    then have "req_scan x slots pns hs idxs = (hs', idxs', ex)" using "2.prems"(1) by auto
    from "2.IH"(1) [OF True this] "2.prems" show ?thesis by (auto 0 3)
  next
    case False
    note nf = False
    show ?thesis
    proof (cases "rx_mapHashes x ! pn")
      case None
      then have "hs' = hs" "idxs' = idxs" "ex = (\<not> rx_waitingForHmu x)" using "2.prems"(1) False by auto
      then show ?thesis using "2.prems" None False by auto
    next
      case (Some mh)
      show ?thesis
      proof (cases "int (length (idxs @ [pn])) \<ge> slots")
        case True
        then have "hs' = hs @ mh" "idxs' = idxs @ [pn]" "\<not> ex" using "2.prems"(1) nf Some by (auto simp: Let_def)
        then show ?thesis using "2.prems" Some nf by auto
      next
        case False
        then have r: "req_scan x slots pns (hs @ mh) (idxs @ [pn]) = (hs', idxs', ex)" using "2.prems"(1) nf Some by (auto simp: Let_def)
        have "distinct idxs' \<and> set idxs' \<subseteq> set (idxs @ [pn]) \<union> set pns \<and> int (length idxs') \<le> slots
          \<and> (\<forall>i \<in> set idxs'. \<not> rx_inflight x ! i \<and> rx_partSlots x ! i = None \<and> rx_mapHashes x ! i \<noteq> None)
          \<and> hs' = concat (map (\<lambda>i. the (rx_mapHashes x ! i)) idxs')
          \<and> (ex \<longrightarrow> \<not> rx_waitingForHmu x \<and> (\<exists>i \<in> set pns. rx_mapHashes x ! i = None \<and> rx_partSlots x ! i = None))"
          using "2.prems" Some nf False by (intro "2.IH"(2) [OF nf Some refl refl False r]) auto
        then show ?thesis by auto
      qed
    qed
  qed
qed auto

text \<open>A request that was planned: its parts, its bytes and the reservations it makes.\<close>

definition requested_hashes :: "rx \<Rightarrow> nat list \<Rightarrow> bytes" where
  "requested_hashes x idxs = concat (map (\<lambda>i. the (rx_mapHashes x ! i)) idxs)"

definition planned :: "int \<Rightarrow> rx \<Rightarrow> nat list \<Rightarrow> bool \<Rightarrow> bytes \<Rightarrow> rx \<Rightarrow> bool" where
  "planned now x idxs ex body x' \<longleftrightarrow>
     distinct idxs \<and> int (length idxs) \<le> rx_window x - rx_outstandingParts x
     \<and> (\<forall>k \<in> set idxs. search_start x \<le> k \<and> k < min (search_start x + nat (rx_window x * 2)) (rx_totalParts x)
          \<and> \<not> rx_inflight x ! k \<and> rx_partSlots x ! k = None \<and> rx_mapHashes x ! k \<noteq> None)
     \<and> (if ex
        then (\<exists>h. 0 < rx_hashmapHeight x \<and> rx_hashmapHeight x \<le> length (rx_mapHashes x)
                 \<and> rx_mapHashes x ! (rx_hashmapHeight x - 1) = Some h \<and> length h = MapHashLen
                 \<and> body = hashmapExhausted # h @ adv_hash (rx_adv x) @ requested_hashes x idxs)
             \<and> \<not> rx_waitingForHmu x
             \<and> (\<exists>k < rx_totalParts x. search_start x \<le> k \<and> k < search_start x + nat (rx_window x * 2)
                    \<and> rx_mapHashes x ! k = None \<and> rx_partSlots x ! k = None)
        else body = hashmapNotExhausted # adv_hash (rx_adv x) @ requested_hashes x idxs \<and> idxs \<noteq> [])
     \<and> x' = (if ex then (markHmuWaitLocked now True x)\<lparr> rx_hmuRounds := rx_hmuRounds x + 1 \<rparr> else x)
         \<lparr> rx_inflight := set_inflight True idxs (rx_inflight x),
           rx_outstandingParts := rx_outstandingParts x + int (length idxs), rx_reqRounds := rx_reqRounds x + 1 \<rparr>"

lemma plan_request_Request:
  assumes "plan_request now x = (x', Request i body idxs ex)" "window_wf x"
  shows "i = rx_id x \<and> planned now x idxs ex body x'"
proof -
  define slots where "slots = rx_window x - rx_outstandingParts x"
  define start where "start = search_start x"
  define en where "en = min (start + nat (rx_window x * 2)) (rx_totalParts x)"
  note d = assms(1) [unfolded plan_request_def Let_def eff_window_wf [OF assms(2)], folded slots_def start_def, folded en_def]
  have c1: "\<not> rx_totalParts x \<le> start" using d by (cases "rx_totalParts x \<le> start") auto
  have c2: "\<not> (0 < rx_outstandingParts x \<and> rx_window x div 2 < rx_outstandingParts x)"
    using d c1 by (cases "0 < rx_outstandingParts x \<and> rx_window x div 2 < rx_outstandingParts x") auto
  have c3: "\<not> slots \<le> 0" using d c1 c2 by (cases "slots \<le> 0") auto
  obtain hs' idxs' ex' where sc: "req_scan x slots [start..<en] [] [] = (hs', idxs', ex')" by (metis prod_cases3)
  note d = d [unfolded if_not_P [OF c1] if_not_P [OF c2] if_not_P [OF c3] sc prod.case]
  have c4: "\<not> (length hs' = 0 \<and> \<not> ex')" using d by (cases "length hs' = 0 \<and> \<not> ex'") auto
  note d = d [unfolded if_not_P [OF c4]]
  have sp: "distinct idxs' \<and> set idxs' \<subseteq> set [] \<union> set [start..<en] \<and> int (length idxs') \<le> slots
    \<and> (\<forall>i \<in> set idxs'. \<not> rx_inflight x ! i \<and> rx_partSlots x ! i = None \<and> rx_mapHashes x ! i \<noteq> None)
    \<and> hs' = concat (map (\<lambda>i. the (rx_mapHashes x ! i)) idxs')
    \<and> (ex' \<longrightarrow> \<not> rx_waitingForHmu x \<and> (\<exists>i \<in> set [start..<en]. rx_mapHashes x ! i = None \<and> rx_partSlots x ! i = None))"
    using c3 by (intro req_scan_spec [OF sc]) auto
  have ne: "\<not> ex' \<longrightarrow> idxs' \<noteq> []" using sp c4 by auto
  have un: "k < rx_totalParts x" if "k \<in> set [start..<en]" for k using that by (simp add: en_def)
  show ?thesis
  proof (cases ex')
    case False
    then show ?thesis using d sp ne by (auto simp: planned_def requested_hashes_def slots_def start_def en_def)
  next
    case True
    have c5: "\<not> (rx_hashmapHeight x = 0 \<or> length (rx_mapHashes x) \<le> rx_hashmapHeight x - 1)"
      using d True by (cases "rx_hashmapHeight x = 0 \<or> length (rx_mapHashes x) \<le> rx_hashmapHeight x - 1") auto
    note d = d [unfolded if_P [OF True] if_not_P [OF c5]]
    obtain h where h: "rx_mapHashes x ! (rx_hashmapHeight x - 1) = Some h" "length h = MapHashLen"
      using d by (auto split: option.splits if_splits)
    have e: "idxs = idxs'" "ex" "body = hashmapExhausted # h @ adv_hash (rx_adv x) @ hs'" "i = rx_id x"
      "x' = (markHmuWaitLocked now True x)\<lparr> rx_hmuRounds := rx_hmuRounds x + 1, rx_inflight := set_inflight True idxs (rx_inflight x),
           rx_outstandingParts := rx_outstandingParts x + int (length idxs), rx_reqRounds := rx_reqRounds x + 1 \<rparr>"
      using d h True by (auto simp: markHmuWaitLocked_def)
    obtain k where k: "k \<in> set [start..<en]" "rx_mapHashes x ! k = None" "rx_partSlots x ! k = None" using sp True by blast
    have "\<exists>k < rx_totalParts x. search_start x \<le> k \<and> k < search_start x + nat (rx_window x * 2)
        \<and> rx_mapHashes x ! k = None \<and> rx_partSlots x ! k = None"
      using k un [OF k(1)] by (auto simp: start_def en_def)
    moreover have "\<forall>k \<in> set idxs. search_start x \<le> k \<and> k < min (search_start x + nat (rx_window x * 2)) (rx_totalParts x)
          \<and> \<not> rx_inflight x ! k \<and> rx_partSlots x ! k = None \<and> rx_mapHashes x ! k \<noteq> None"
      using sp unfolding e(1) start_def [symmetric] en_def [symmetric] by auto
    moreover have "body = hashmapExhausted # h @ adv_hash (rx_adv x) @ requested_hashes x idxs"
      using e(1,3) sp by (simp add: requested_hashes_def)
    moreover have "0 < rx_hashmapHeight x" "rx_hashmapHeight x \<le> length (rx_mapHashes x)" using c5 by linarith+
    moreover have "distinct idxs" "int (length idxs) \<le> rx_window x - rx_outstandingParts x" "\<not> rx_waitingForHmu x"
      using sp True e(1) by (simp_all add: slots_def)
    ultimately show ?thesis using e(2,4,5) h unfolding planned_def by simp
  qed
qed

lemma planned_wf:
  assumes "planned now x idxs ex body x'" "rx_wf x"
  shows "rx_wf x'"
proof -
  have s: "slots_wf x" and w: "window_wf x" using assms(2) by (auto simp: rx_wf_def)
  have len: "length (rx_inflight x) = rx_totalParts x" "length (rx_partSlots x) = rx_totalParts x" using s by (auto simp: slots_wf_def)
  have i: "distinct idxs" "\<And>i. i \<in> set idxs \<Longrightarrow> i < length (rx_inflight x) \<and> \<not> rx_inflight x ! i"
    "\<And>i. i \<in> set idxs \<Longrightarrow> rx_partSlots x ! i = None"
    using assms(1) len by (auto simp: planned_def)
  note c = count_reserve [OF i(1,2)]
  define y where "y = (if ex then (markHmuWaitLocked now True x)\<lparr> rx_hmuRounds := rx_hmuRounds x + 1 \<rparr> else x)"
  have x': "x' = y\<lparr> rx_inflight := set_inflight True idxs (rx_inflight x),
      rx_outstandingParts := rx_outstandingParts x + int (length idxs), rx_reqRounds := rx_reqRounds x + 1 \<rparr>"
    using assms(1) by (simp add: planned_def y_def)
  have "slots_wf y" "window_wf y" "rx_totalParts y = rx_totalParts x" "rx_partSlots y = rx_partSlots x" "rx_window y = rx_window x"
    using s w by (auto simp: y_def slots_wf_def window_wf_def)
  moreover have "set_inflight True idxs (rx_inflight x) ! k \<longrightarrow> rx_partSlots x ! k = None" if "k < rx_totalParts x" for k
    using s that i(3) len by (auto simp: set_inflight_nth slots_wf_def)
  moreover have "rx_outstandingParts x + int (length idxs) \<le> rx_window x" using assms(1) by (simp add: planned_def)
  ultimately show ?thesis using s c len unfolding x' rx_wf_def by (auto simp: slots_wf_def window_wf_def)
qed

lemma plan_request_wf: "plan_request now x = (x', plan) \<Longrightarrow> rx_wf x \<Longrightarrow> rx_wf x'"
proof (cases plan)
  case (Request i body idxs ex)
  assume "plan_request now x = (x', plan)" "rx_wf x"
  then show ?thesis using Request plan_request_Request [of now x x' i body idxs ex] planned_wf by (auto simp: rx_wf_def)
qed (auto simp: plan_request_def Let_def split: if_splits option.splits prod.splits)

lemma requested_hashes_length:
  assumes "slots_wf x" "\<And>k. k \<in> set idxs \<Longrightarrow> k < rx_totalParts x \<and> rx_mapHashes x ! k \<noteq> None"
  shows "length (requested_hashes x idxs) = 4 * length idxs"
  using assms(2)
proof (induction idxs)
  case (Cons k idxs)
  obtain h where h: "rx_mapHashes x ! k = Some h" using Cons.prems by auto
  have "length (rx_mapHashes x) = rx_totalParts x" using assms(1) by (simp add: slots_wf_def)
  then have "Some h \<in> set (rx_mapHashes x)" using h Cons.prems [of k] by (metis nth_mem list.set_intros(1))
  then have "length h = 4" using assms(1) by (simp add: slots_wf_def MapHashLen_def)
  then show ?case using Cons h by (simp add: requested_hashes_def)
qed (simp add: requested_hashes_def)

lemma planned_body_length:
  assumes "planned now x idxs ex body x'" "rx_wf x"
  shows "length body \<le> 5 + length (adv_hash (rx_adv x)) + 4 * 75"
proof -
  have "int (length idxs) \<le> 75" using assms window_range [of x] by (auto simp: planned_def rx_wf_def slots_wf_def)
  moreover have "length (requested_hashes x idxs) = 4 * length idxs"
    using assms by (intro requested_hashes_length) (auto simp: planned_def rx_wf_def)
  ultimately show ?thesis using assms(1) by (auto simp: planned_def MapHashLen_def split: if_splits)
qed

lemma undo_wf:
  assumes "rx_wf x"
  shows "rx_wf (x\<lparr> rx_inflight := set_inflight False idxs (rx_inflight x),
    rx_outstandingParts := (if rx_outstandingParts x - int (length idxs) < 0 then 0 else rx_outstandingParts x - int (length idxs)) \<rparr>)"
  using assms count_unreserve [of "rx_inflight x" idxs] by (auto simp: rx_wf_def slots_wf_def window_wf_def set_inflight_nth)

subsection \<open>Storing a part\<close>

lemma find_slot_Some: "find_slot mh a b x = Some i \<Longrightarrow> a \<le> i \<and> i < b \<and> rx_partSlots x ! i = None"
  by (auto simp: find_slot_def lookupMapHash_def find_Some_iff split: option.splits if_splits)

lemma place_part_Some: "place_part mh x = Some i \<Longrightarrow> search_start x \<le> i \<and> i < rx_totalParts x \<and> rx_partSlots x ! i = None"
  by (auto simp: place_part_def Let_def split: option.splits dest: find_slot_Some)

lemma store_wf:
  assumes "rx_wf x" "idx < rx_totalParts x" "rx_partSlots x ! idx = None" "data \<noteq> []"
  shows "rx_wf (store_part now idx data x)"
proof -
  have s: "slots_wf x" using assms(1) by (simp add: rx_wf_def)
  have len: "length (rx_inflight x) = rx_totalParts x" "length (rx_partSlots x) = rx_totalParts x" using s by (auto simp: slots_wf_def)
  define fl where "fl = (if idx < length (rx_inflight x) \<and> rx_inflight x ! idx then (rx_inflight x)[idx := False] else rx_inflight x)"
  have fl: "length fl = rx_totalParts x" "\<not> fl ! idx" "\<And>k. k < rx_totalParts x \<Longrightarrow> fl ! k \<Longrightarrow> rx_inflight x ! k \<and> k \<noteq> idx"
    using assms(2) len by (auto simp: fl_def nth_list_update split: if_splits)
  have "int (count_list fl True) \<ge> int (reserved x) - 1"
    using count_update [of idx "rx_inflight x" False] assms(2) len by (simp add: fl_def)
  then have o: "0 \<le> (if rx_outstandingParts x > 0 then rx_outstandingParts x - 1 else rx_outstandingParts x)"
    "(if rx_outstandingParts x > 0 then rx_outstandingParts x - 1 else rx_outstandingParts x) \<le> int (count_list fl True)"
    using s by (auto simp: slots_wf_def)
  have sl: "Some b \<in> set ((rx_partSlots x)[idx := Some data]) \<Longrightarrow> b \<noteq> []" for b
    using s assms(4) set_update_subset_insert [of "rx_partSlots x" idx "Some data"] by (auto simp: slots_wf_def)
  have "fl ! k \<longrightarrow> (rx_partSlots x)[idx := Some data] ! k = None" if "k < rx_totalParts x" for k
    using fl(3) [OF that] s that by (auto simp: slots_wf_def)
  then show ?thesis using assms(1) o sl fl(1)
    unfolding rx_wf_def store_part_def Let_def fl_def [symmetric] by (auto simp: slots_wf_def window_wf_def)
qed

subsection \<open>Hash map segments\<close>

lemma index_simps [simp]:
  "rx_id (indexMapHash k mh x) = rx_id x" "rx_adv (indexMapHash k mh x) = rx_adv x"
  "rx_partSlots (indexMapHash k mh x) = rx_partSlots x" "rx_mapHashes (indexMapHash k mh x) = rx_mapHashes x"
  "rx_inflight (indexMapHash k mh x) = rx_inflight x" "rx_hashmapHeight (indexMapHash k mh x) = rx_hashmapHeight x"
  "rx_totalParts (indexMapHash k mh x) = rx_totalParts x" "rx_consecutiveCompleted (indexMapHash k mh x) = rx_consecutiveCompleted x"
  "rx_outstandingParts (indexMapHash k mh x) = rx_outstandingParts x" "rx_window (indexMapHash k mh x) = rx_window x"
  "rx_windowMin (indexMapHash k mh x) = rx_windowMin x" "rx_windowMax (indexMapHash k mh x) = rx_windowMax x"
  "rx_waitingForHmu (indexMapHash k mh x) = rx_waitingForHmu x" "rx_request (indexMapHash k mh x) = rx_request x"
  "rx_hashmapSegLen (indexMapHash k mh x) = rx_hashmapSegLen x" "rx_protectRelease (indexMapHash k mh x) = rx_protectRelease x"
  "rx_consecutiveStalls (indexMapHash k mh x) = rx_consecutiveStalls x"
  by (simp_all add: indexMapHash_def Let_def)

text \<open>Storing one hash of a segment.\<close>

definition put_hash :: "nat \<Rightarrow> bytes \<Rightarrow> rx \<Rightarrow> rx" where
  "put_hash k mh x =
     (let x1 = (if rx_mapHashes x ! k = None then x\<lparr> rx_hashmapHeight := rx_hashmapHeight x + 1 \<rparr> else x) in
      indexMapHash k mh (x1\<lparr> rx_mapHashes := (rx_mapHashes x1)[k := Some mh] \<rparr>))"

lemma put_hash_simps [simp]:
  "rx_id (put_hash k mh x) = rx_id x" "rx_adv (put_hash k mh x) = rx_adv x" "rx_partSlots (put_hash k mh x) = rx_partSlots x"
  "rx_mapHashes (put_hash k mh x) = (rx_mapHashes x)[k := Some mh]" "rx_inflight (put_hash k mh x) = rx_inflight x"
  "rx_hashmapHeight (put_hash k mh x) = rx_hashmapHeight x + (if rx_mapHashes x ! k = None then 1 else 0)"
  "rx_totalParts (put_hash k mh x) = rx_totalParts x" "rx_consecutiveCompleted (put_hash k mh x) = rx_consecutiveCompleted x"
  "rx_outstandingParts (put_hash k mh x) = rx_outstandingParts x" "rx_window (put_hash k mh x) = rx_window x"
  "rx_windowMin (put_hash k mh x) = rx_windowMin x" "rx_windowMax (put_hash k mh x) = rx_windowMax x"
  "rx_waitingForHmu (put_hash k mh x) = rx_waitingForHmu x" "rx_request (put_hash k mh x) = rx_request x"
  "rx_hashmapSegLen (put_hash k mh x) = rx_hashmapSegLen x" "rx_protectRelease (put_hash k mh x) = rx_protectRelease x"
  "rx_consecutiveStalls (put_hash k mh x) = rx_consecutiveStalls x"
  by (simp_all add: put_hash_def Let_def)

lemma apply_hashes_step:
  "apply_hashes base i n hb added x =
     (if i < n \<and> int i \<le> math_MaxInt - base \<and> 0 \<le> base + int i \<and> base + int i < int (rx_totalParts x)
      then apply_hashes base (Suc i) n hb (if rx_mapHashes x ! nat (base + int i) = None then added + 1 else added)
             (put_hash (nat (base + int i)) (take MapHashLen (drop (i * MapHashLen) hb)) x)
      else (added, x))"
  by (subst apply_hashes.simps) (auto simp: put_hash_def Let_def)

declare apply_hashes.simps [simp del]

lemma put_hash_wf: "rx_wf x \<Longrightarrow> length mh = MapHashLen \<Longrightarrow> rx_wf (put_hash k mh x)"
  using set_update_subset_insert [of "rx_mapHashes x" k "Some mh"] by (auto simp: rx_wf_def slots_wf_def window_wf_def)

lemma apply_hashes_wf:
  "rx_wf x \<Longrightarrow> n * MapHashLen \<le> length hb \<Longrightarrow> rx_wf (snd (apply_hashes base i n hb added x))"
proof (induction "n - i" arbitrary: i added x)
  case 0
  then show ?case by (subst apply_hashes_step) simp
next
  case (Suc d)
  have "Suc i * MapHashLen \<le> n * MapHashLen" using Suc.hyps(2) by (intro mult_le_mono1) simp
  then have l: "length (take MapHashLen (drop (i * MapHashLen) hb)) = MapHashLen" using Suc.prems(2) by simp
  show ?case
    using Suc.hyps(1) [of "Suc i" "put_hash (nat (base + int i)) (take MapHashLen (drop (i * MapHashLen) hb)) x"]
      Suc.hyps(2) Suc.prems put_hash_wf [OF Suc.prems(1) l]
    by (subst apply_hashes_step) auto
qed

lemma put_hash_frame: "\<exists>m h ix. put_hash k mh x = x\<lparr> rx_mapHashes := m, rx_hashmapHeight := h, rx_hashIndex := ix \<rparr>"
  by (intro exI [of _ "rx_mapHashes (put_hash k mh x)"] exI [of _ "rx_hashmapHeight (put_hash k mh x)"]
      exI [of _ "rx_hashIndex (put_hash k mh x)"]) (simp add: put_hash_def indexMapHash_def Let_def)

lemma apply_hashes_frame:
  "\<exists>m h ix. snd (apply_hashes base i n hb added x) = x\<lparr> rx_mapHashes := m, rx_hashmapHeight := h, rx_hashIndex := ix \<rparr>"
proof (induction "n - i" arbitrary: i added x)
  case 0
  then show ?case by (subst apply_hashes_step) (intro exI [of _ "rx_mapHashes x"] exI [of _ "rx_hashmapHeight x"] exI [of _ "rx_hashIndex x"], simp)
next
  case (Suc d)
  let ?p = "put_hash (nat (base + int i)) (take MapHashLen (drop (i * MapHashLen) hb)) x"
  obtain m h ix where p: "?p = x\<lparr> rx_mapHashes := m, rx_hashmapHeight := h, rx_hashIndex := ix \<rparr>" using put_hash_frame by blast
  have self: "\<exists>m h ix. x = x\<lparr> rx_mapHashes := m, rx_hashmapHeight := h, rx_hashIndex := ix \<rparr>"
    by (intro exI [of _ "rx_mapHashes x"] exI [of _ "rx_hashmapHeight x"] exI [of _ "rx_hashIndex x"]) simp
  show ?case
    using Suc.hyps(1) [of "Suc i" _ ?p] Suc.hyps(2) self unfolding p by (subst apply_hashes_step) (auto simp: p)
qed

lemma apply_segment_frame:
  "\<exists>m h ix. snd (applyHashmapSegment seg hb x) = x\<lparr> rx_mapHashes := m, rx_hashmapHeight := h, rx_hashIndex := ix \<rparr>"
proof -
  have self: "\<exists>m h ix. x = x\<lparr> rx_mapHashes := m, rx_hashmapHeight := h, rx_hashIndex := ix \<rparr>"
    by (intro exI [of _ "rx_mapHashes x"] exI [of _ "rx_hashmapHeight x"] exI [of _ "rx_hashIndex x"]) simp
  then show ?thesis using apply_hashes_frame by (simp add: applyHashmapSegment_def Let_def)
qed

lemma apply_segment_wf:
  assumes "rx_wf x"
  shows "rx_wf (snd (applyHashmapSegment seg hb x))"
  using assms apply_hashes_wf [OF assms, of "length hb div MapHashLen" hb] by (simp add: applyHashmapSegment_def Let_def)

lemma replicate_prefix [simp]: "prefix_len (replicate n None) = 0"
  by (cases n) auto

lemma count_replicate [simp]: "count_list (replicate n False) True = 0"
  by (induction n) auto

lemma new_rx_wf: "rx_wf (new_rx i adv sdu segLen now)"
  by (auto simp: rx_wf_def slots_wf_def window_wf_def new_rx_def Let_def window_consts consecutivePrefix_def)

end
