(* ===== verification/Resource_Events.thy ===== *)
theory Resource_Events
  imports Resource_Receive
begin

text \<open>
  The events of a link that receives resources: every handler and every locked section of
  \<open>Resource_Receive\<close> keeps the receiving state well-formed, in any order, and what they send fits in one
  packet.
\<close>

section \<open>The receiving state stays well-formed\<close>

text \<open>The advertisement of an assembly passed the checks of \<open>beginIncomingResource\<close> and of the decoder.\<close>

definition rxlink_wf :: "rxlink \<Rightarrow> bool" where
  "rxlink_wf l \<longleftrightarrow> (\<forall>x. rl_rx l = Some x \<longrightarrow> rx_wf x \<and> rx_id x < rl_next l \<and> length (adv_hash (rx_adv x)) \<le> 32
        \<and> 0 < rx_totalParts x \<and> int (rx_totalParts x) \<le> MaxSegments
        \<and> 0 \<le> a_TransferSize (rx_adv x) \<and> a_TransferSize (rx_adv x) \<le> MaxEfficientSize + 4096)
     \<and> (rl_lastWindow l = 0 \<or> WindowMin \<le> rl_lastWindow l \<and> rl_lastWindow l \<le> WindowMaxFast)"

lemma fail_bound_simps [simp]:
  "rl_rx (fail_bound r l) = rl_rx l" "rl_next (fail_bound r l) = rl_next l" "rl_lastWindow (fail_bound r l) = rl_lastWindow l"
  "rl_active (fail_bound r l) = rl_active l" "rl_mtu (fail_bound r l) = rl_mtu l" "rl_mdu (fail_bound r l) = rl_mdu l"
  by (auto simp: fail_bound_def split: option.split)

lemma reset_frame:
  "rl_rx (fst (resetIncomingResource l)) = None" "rl_next (fst (resetIncomingResource l)) = rl_next l"
  "rl_lastWindow (fst (resetIncomingResource l)) = rl_lastWindow l"
  by (auto simp: resetIncomingResource_def clearIncomingResourceLocked_def split: option.split)

lemma reset_wf: "rxlink_wf l \<Longrightarrow> resetIncomingResource l = (l', acts) \<Longrightarrow> rxlink_wf l'"
  using reset_frame [of l] by (auto simp: rxlink_wf_def)

lemma begin_wf:
  assumes "rxlink_wf l" "beginIncomingResource admit now adv l = (l', acts, e)" "length (adv_hash adv) \<le> 32"
  shows "rxlink_wf l' \<and> (e = None \<longrightarrow> rl_next l' = rl_next l + 1) \<and> (\<forall>b. SendReq b \<notin> set acts)"
proof -
  let ?x0 = "new_rx (rl_next l) adv (resourceSDU l) (HashmapEntriesPerSegment (rl_mdu l)) now"
  define x where "x = snd (applyHashmapSegment 0 (adv_map adv) ?x0)"
  define w where "w = startIncomingWindow (rl_lastWindow l) WindowMin WindowMaxFast WindowMaxSlow"
  have xw: "rx_wf x" using apply_segment_wf [OF new_rx_wf] by (simp add: x_def)
  obtain m h ix where x: "x = ?x0\<lparr> rx_mapHashes := m, rx_hashmapHeight := h, rx_hashIndex := ix \<rparr>"
    using apply_segment_frame unfolding x_def by blast
  have f: "rx_id x = rl_next l" "rx_adv x = adv" "rx_totalParts x = nat (a_Parts adv)" "rx_windowMin x = WindowMin" "rx_windowMax x = WindowMaxFast"
    "rx_outstandingParts x = 0"
    by (simp_all add: x new_rx_def Let_def)
  have "WindowMin \<le> w \<and> w \<le> WindowMaxFast" by (simp add: w_def startIncomingWindow_def window_consts)
  then have w: "rx_wf (x\<lparr> rx_window := w \<rparr>)" using xw f by (simp add: rx_wf_def window_wf_def slots_wf_def window_consts)
  show ?thesis
  proof (cases "begin_refused (resourceSDU l) adv = None \<and> admit")
    case True
    then obtain r where r: "l' = fail_bound r (l\<lparr> rl_rx := Some (x\<lparr> rx_window := w \<rparr>), rl_next := rl_next l + 1 \<rparr>)" "\<forall>b. SendReq b \<notin> set acts"
      using assms(2) unfolding beginIncomingResource_def Let_def x_def w_def
      by (auto simp: clearIncomingResourceLocked_def split: option.splits if_splits prod.splits)
    have "0 < a_Parts adv" "a_Parts adv \<le> MaxSegments" "0 \<le> a_TransferSize adv" "a_TransferSize adv \<le> MaxEfficientSize + 4096"
      using True by (auto simp: begin_refused_def Let_def split: if_splits)
    then show ?thesis using r w f assms(1,3) by (simp add: rxlink_wf_def)
  next
    case False
    then consider y where "begin_refused (resourceSDU l) adv = Some y" | "begin_refused (resourceSDU l) adv = None" "\<not> admit" by auto
    then have "l' = l \<and> acts = [] \<and> e \<noteq> None"
      using assms(2) by cases (simp_all add: beginIncomingResource_def Let_def, blast+)
    then show ?thesis using assms(1) by simp
  qed
qed

text \<open>A request fits the payload of one encrypted packet, whose default is 431 bytes.\<close>

definition fits :: "rx_act list \<Rightarrow> bool" where
  "fits acts \<longleftrightarrow> (\<forall>b. SendReq b \<in> set acts \<longrightarrow> length b \<le> 337)"

lemma fits_simps [simp]:
  "fits []" "fits (as @ bs) = (fits as \<and> fits bs)" "fits (SpawnReqNext # as) = fits as" "fits (SpawnPrefetch # as) = fits as"
  "fits (SpawnWatch i # as) = fits as" "fits (SendReject h # as) = fits as" "fits (SendProof h # as) = fits as"
  "fits (Release # as) = fits as" "fits (SendReq b # as) = (length b \<le> 337 \<and> fits as)"
  by (auto simp: fits_def)

lemma fits_reject [simp]: "fits (reject_if_active l h)"
  by (simp add: reject_if_active_def)

lemma fits_reset: "resetIncomingResource l = (l', acts) \<Longrightarrow> fits acts"
  by (auto simp: resetIncomingResource_def clearIncomingResourceLocked_def split: option.splits)

lemma abort_wf: "rxlink_wf l \<Longrightarrow> abortResponseResourceFor i l = (l', acts) \<Longrightarrow> rxlink_wf l' \<and> fits acts"
  by (auto simp: abortResponseResourceFor_def Let_def clearIncomingResourceLocked_def rxlink_wf_def split: option.splits if_splits)

lemma rxlink_wf_reqs [simp]: "rxlink_wf (l\<lparr> rl_reqs := q \<rparr>) = rxlink_wf l"
  by (simp add: rxlink_wf_def)

lemma rx_wf_request [simp]: "rx_wf (x\<lparr> rx_request := q \<rparr>) = rx_wf x"
  by (simp add: rx_wf_def slots_wf_def window_wf_def)

lemma rx_wf_hmu [simp]: "rx_wf (x\<lparr> rx_hmuRounds := n \<rparr>) = rx_wf x" "rx_wf (markHmuWaitLocked now b x) = rx_wf x"
  by (simp_all add: rx_wf_def slots_wf_def window_wf_def)

lemma rxlink_wf_upd:
  assumes "rxlink_wf l" "rl_rx l = Some x" "rx_wf y" "rx_id y = rx_id x" "rx_adv y = rx_adv x" "rx_totalParts y = rx_totalParts x"
  shows "rxlink_wf (l\<lparr> rl_rx := Some y \<rparr>)"
  using assms by (simp add: rxlink_wf_def)

lemma bind_wf: "rxlink_wf l \<Longrightarrow> bindIncomingResponseRequest j i l = (l', acts) \<Longrightarrow> rxlink_wf l' \<and> fits acts"
proof (cases "rl_rx l")
  case (Some x)
  assume a: "rxlink_wf l" "bindIncomingResponseRequest j i l = (l', acts)"
  then have "rxlink_wf (l\<lparr> rl_rx := Some (x\<lparr> rx_request := Some i \<rparr>) \<rparr>)"
    using Some by (intro rxlink_wf_upd [OF a(1) Some]) (auto simp: rxlink_wf_def)
  then show ?thesis using a Some abort_wf by (auto simp: bindIncomingResponseRequest_def Let_def split: if_splits)
qed (simp add: bindIncomingResponseRequest_def)

lemma unpack_hash: "UnpackResourceAdvertisement unmarshal data = Inr ra \<Longrightarrow> length (adv_hash ra) \<le> 32"
  by (auto simp: UnpackResourceAdvertisement_def adv_of_dict_def Let_def adv_hash_bad_def adv_hash_def
      split: if_splits option.splits sum.splits)

lemma undo_request_wf: "rxlink_wf l \<Longrightarrow> rxlink_wf (undo_request now i idxs ex l)"
proof (cases "rl_rx l")
  case (Some x)
  assume a: "rxlink_wf l"
  have "rx_wf x" using a Some by (simp add: rxlink_wf_def)
  note u = undo_wf [OF this, of idxs]
  have m: "rx_wf (markHmuWaitLocked now False y) = rx_wf y" for y by (simp add: rx_wf_def)
  show ?thesis using u Some a by (simp add: undo_request_def Let_def) (auto simp: m intro!: rxlink_wf_upd [OF a Some])
qed (simp add: undo_request_def)

lemma planned_frame: "planned now x idxs ex body x' \<Longrightarrow> rx_id x' = rx_id x \<and> rx_adv x' = rx_adv x \<and> rx_totalParts x' = rx_totalParts x"
  by (simp add: planned_def)

lemma plan_step_wf:
  assumes "rxlink_wf l" "rl_rx l = Some x" "plan_request now x = (x', Request i body idxs ex)"
  shows "rxlink_wf (l\<lparr> rl_rx := Some x' \<rparr>) \<and> length body \<le> 337"
proof -
  have x: "rx_wf x" "length (adv_hash (rx_adv x)) \<le> 32" using assms(1,2) by (auto simp: rxlink_wf_def)
  then have "planned now x idxs ex body x'" using plan_request_Request [OF assms(3)] by (auto simp: rx_wf_def)
  then show ?thesis
    using rxlink_wf_upd [OF assms(1,2) plan_request_wf [OF assms(3) x(1)]] planned_frame planned_body_length [OF _ x(1)] x(2) by fastforce
qed

lemma req_next_wf:
  assumes "rxlink_wf l" "sendIncomingResourceReqNext now sent l = (l', acts, e)"
  shows "rxlink_wf l' \<and> fits acts"
proof (cases "rl_rx l")
  case (Some x)
  obtain x1 plan where p: "plan_request now x = (x1, plan)" by fastforce
  show ?thesis
  proof (cases plan)
    case (Request i body idxs ex)
    then show ?thesis using assms(2) Some p plan_step_wf [OF assms(1) Some] undo_request_wf
      by (auto simp: sendIncomingResourceReqNext_def Let_def split: if_splits)
  qed (use assms Some p in \<open>auto simp: sendIncomingResourceReqNext_def\<close>)
qed (use assms in \<open>auto simp: sendIncomingResourceReqNext_def\<close>)

lemma prefetch_wf:
  assumes "rxlink_wf l" "sendIncomingResourceHMUPrefetch now sent l = (l', acts, e)"
  shows "rxlink_wf l' \<and> fits acts"
proof (cases "rl_rx l")
  case (Some x)
  have x: "rx_wf x" "length (adv_hash (rx_adv x)) \<le> 32" using assms(1) Some by (auto simp: rxlink_wf_def)
  show ?thesis
    using assms Some x unfolding sendIncomingResourceHMUPrefetch_def Let_def
    by (auto simp: MapHashLen_def intro!: rxlink_wf_upd [OF assms(1) Some] assms(1) split: if_splits option.splits)
qed (use assms in \<open>auto simp: sendIncomingResourceHMUPrefetch_def\<close>)

lemma tick_wf:
  assumes "rxlink_wf l" "tickIncomingResourceWatchdog i now sent l = (b, l', acts)"
  shows "rxlink_wf l' \<and> fits acts"
proof (cases "rl_rx l")
  case (Some x)
  have "rx_wf x" using assms(1) Some by (simp add: rxlink_wf_def)
  moreover have "rx_id (stall_rx now x) = rx_id x \<and> rx_adv (stall_rx now x) = rx_adv x \<and> rx_totalParts (stall_rx now x) = rx_totalParts x"
    by (simp add: stall_rx_def Let_def)
  ultimately have w: "rxlink_wf (l\<lparr> rl_rx := Some (stall_rx now x) \<rparr>)"
    by (intro rxlink_wf_upd [OF assms(1) Some] stall_wf) auto
  show ?thesis
    using assms Some reset_wf [OF w] fits_reset req_next_wf [OF w] reset_wf
    by (auto simp: tickIncomingResourceWatchdog_def Let_def split: if_splits prod.splits option.splits) (metis fits_reset reset_wf)+
qed (use assms in \<open>auto simp: tickIncomingResourceWatchdog_def\<close>)

lemma update_wf:
  assumes "rxlink_wf l" "applyIncomingHashmapUpdate now h seg hb l = (l', acts, e)"
  shows "rxlink_wf l' \<and> fits acts"
proof (cases "rl_rx l")
  case (Some x)
  define x1 where "x1 = snd (applyHashmapSegment seg hb x)"
  obtain m n ix where f: "x1 = x\<lparr> rx_mapHashes := m, rx_hashmapHeight := n, rx_hashIndex := ix \<rparr>"
    using apply_segment_frame unfolding x1_def by blast
  have "rx_wf x1" using assms(1) Some apply_segment_wf by (simp add: rxlink_wf_def x1_def)
  then have "rxlink_wf (l\<lparr> rl_rx := Some (markHmuWaitLocked now False (x1\<lparr> rx_lastProgressAt := now \<rparr>)) \<rparr>)"
    by (intro rxlink_wf_upd [OF assms(1) Some]) (auto simp: rx_wf_def slots_wf_def window_wf_def f)
  then show ?thesis using assms Some reset_wf fits_reset unfolding applyIncomingHashmapUpdate_def Let_def x1_def
    by (auto split: if_splits prod.splits) 
qed (use assms in \<open>auto simp: applyIncomingHashmapUpdate_def\<close>)

lemma finish_wf:
  "rxlink_wf l \<Longrightarrow> rx_wf x \<Longrightarrow> finish_transfer x l = (l', acts, r) \<Longrightarrow> rxlink_wf l' \<and> fits acts"
  by (auto simp: finish_transfer_def concatIncomingParts_def flushIncomingResourceStats_def rxlink_wf_def rx_wf_def window_wf_def)

lemma report_simps [simp]:
  "rl_rx (reportIncomingResourceProgress x l) = rl_rx l" "rl_next (reportIncomingResourceProgress x l) = rl_next l"
  "rl_lastWindow (reportIncomingResourceProgress x l) = rl_lastWindow l"
  by (auto simp: reportIncomingResourceProgress_def split: option.split)

lemma report_wf [simp]: "rxlink_wf (reportIncomingResourceProgress x l) = rxlink_wf l"
  by (simp add: rxlink_wf_def)

lemma store_simps [simp]:
  "rx_id (store_part now k d x) = rx_id x" "rx_adv (store_part now k d x) = rx_adv x"
  "rx_totalParts (store_part now k d x) = rx_totalParts x" "rx_mapHashes (store_part now k d x) = rx_mapHashes x"
  "rx_hashIndex (store_part now k d x) = rx_hashIndex x" "rx_hashmapHeight (store_part now k d x) = rx_hashmapHeight x"
  "rx_partSlots (store_part now k d x) = (rx_partSlots x)[k := Some d]" "rx_request (store_part now k d x) = rx_request x"
  "rx_waitingForHmu (store_part now k d x) = rx_waitingForHmu x" "rx_hashmapSegLen (store_part now k d x) = rx_hashmapSegLen x"
  by (simp_all add: store_part_def Let_def)

lemma grow_simps [simp]:
  "rx_id (growIncomingResourceWindow x) = rx_id x" "rx_adv (growIncomingResourceWindow x) = rx_adv x"
  "rx_totalParts (growIncomingResourceWindow x) = rx_totalParts x" "rx_partSlots (growIncomingResourceWindow x) = rx_partSlots x"
  "rx_mapHashes (growIncomingResourceWindow x) = rx_mapHashes x" "rx_hashIndex (growIncomingResourceWindow x) = rx_hashIndex x"
  "rx_hashmapHeight (growIncomingResourceWindow x) = rx_hashmapHeight x" "rx_request (growIncomingResourceWindow x) = rx_request x"
  "rx_waitingForHmu (growIncomingResourceWindow x) = rx_waitingForHmu x" "rx_inflight (growIncomingResourceWindow x) = rx_inflight x"
  "rx_outstandingParts (growIncomingResourceWindow x) = rx_outstandingParts x" "rx_hashmapSegLen (growIncomingResourceWindow x) = rx_hashmapSegLen x"
  by (simp_all add: growIncomingResourceWindow_def Let_def)

lemma accept_part_wf:
  assumes "rxlink_wf l" "accept_part H now data l = (l', acts, res)"
  shows "rxlink_wf l' \<and> fits acts"
proof (cases "rl_rx l")
  case (Some x)
  have x: "rx_wf x" using assms(1) Some by (simp add: rxlink_wf_def)
  show ?thesis
  proof (cases "data = [] \<or> length (adv_random (rx_adv x)) \<noteq> RandomHashSize \<or> place_part (map_hash H (adv_random (rx_adv x)) data) x = None")
    case True
    then show ?thesis using assms Some finish_wf [OF assms(1) x]
      by (auto simp: accept_part_def Let_def split: if_splits prod.splits)
  next
    case False
    then obtain k where k: "place_part (map_hash H (adv_random (rx_adv x)) data) x = Some k" by auto
    define x1 where "x1 = store_part now k data x"
    have x1: "rx_wf x1" using place_part_Some [OF k] x False by (auto simp: x1_def intro: store_wf)
    have w: "rxlink_wf (reportIncomingResourceProgress x1 (l\<lparr> rl_rx := Some x1 \<rparr>))"
      using rxlink_wf_upd [OF assms(1) Some x1] by (simp add: x1_def)
    define l1 where "l1 = reportIncomingResourceProgress x1 (l\<lparr> rl_rx := Some x1 \<rparr>)"
    have g: "rx_wf (growIncomingResourceWindow x1)" using x1 grow_window_wf by (simp add: rx_wf_def)
    have l1: "rl_rx l1 = Some x1" "rxlink_wf l1" using w by (simp_all add: l1_def)
    have w2: "rxlink_wf (l1\<lparr> rl_rx := Some (if b then growIncomingResourceWindow x1 else x1) \<rparr>)" for b
      using g x1 by (intro rxlink_wf_upd [OF l1(2,1)]) auto
    show ?thesis
    proof (cases "incomingTransferComplete x1")
      case True
      then show ?thesis using assms(2) Some False k finish_wf [OF l1(2) x1]
        unfolding accept_part_def Let_def x1_def [symmetric] l1_def by (auto simp: x1_def split: prod.splits)
    next
      case nc: False
      define b where "b \<longleftrightarrow> (rx_outstandingParts x1 = 0 \<or> rx_outstandingParts x1 \<le> eff_window x1 div 2) \<and> rx_consecutiveStalls x1 = 0"
      have "l' = l1\<lparr> rl_rx := Some (if b then growIncomingResourceWindow x1 else x1) \<rparr> \<and> fits acts"
        using assms(2) Some False k nc unfolding accept_part_def Let_def l1_def b_def x1_def by (auto split: if_splits)
      then show ?thesis using w2 by simp
    qed
  qed
qed (use assms in \<open>auto simp: accept_part_def\<close>)

lemma advertisement_wf:
  assumes "rxlink_wf l" "processResourceAdvertisement um h mr st ac admit now plaintext l = (l', acts, e)"
  shows "rxlink_wf l' \<and> fits acts"
proof (cases "UnpackResourceAdvertisement um plaintext")
  case (Inr adv)
  have b: "rxlink_wf l2 \<and> fits as" if "rxlink_wf l1" "beginIncomingResource admit now adv l1 = (l2, as, e2)" for l1 l2 as e2
    using begin_wf [OF that unpack_hash [OF Inr]] by (auto simp: fits_def)
  define l1 where "l1 i = l\<lparr> rl_reqs := upd_receipt i (\<lambda>r. r\<lparr> q_totalBytes := a_TransferSize adv \<rparr>) (rl_reqs l) \<rparr>" for i
  have w: "rxlink_wf (l1 i)" for i using assms(1) by (simp add: l1_def)
  obtain l2 as2 e2 where b2: "beginIncomingResource admit now adv l = (l2, as2, e2)" by (metis prod_cases3)
  note d = assms(2) [unfolded processResourceAdvertisement_def Inr sum.case b2 prod.case]
  show ?thesis
  proof (cases "a_IsResponse adv \<and> a_RequestID adv \<noteq> None \<and> \<not> (a_IsRequest adv \<and> a_RequestID adv \<noteq> None)")
    case False
    then show ?thesis using d b [OF assms(1) b2] assms(1) by (auto simp: Let_def split: if_splits)
  next
    case True
    show ?thesis
    proof (cases "find_request (the (a_RequestID adv)) (rl_reqs l)")
      case (Some i)
      obtain l3 as3 e3 where b3: "beginIncomingResource admit now adv (l1 i) = (l3, as3, e3)" by (metis prod_cases3)
      obtain l4 as4 where b4: "bindIncomingResponseRequest (rl_next (l1 i)) i l3 = (l4, as4)" by fastforce
      show ?thesis using d True Some b [OF w b3] bind_wf [OF _ b4] assms(1)
        unfolding Let_def l1_def [symmetric] by (auto simp: b3 b4 split: if_splits option.splits)
    qed (use d True assms(1) in auto)
  qed
qed (use assms in \<open>auto simp: processResourceAdvertisement_def\<close>)

section \<open>All the events of a receiving link\<close>

text \<open>
  One atomic event. A request that is being sent and the clean-up after a failed send are separate events,
  so everything else may come between them; the receipts may change at any time (\<open>Requests\<close>).
\<close>

inductive rx_step :: "rxlink \<Rightarrow> rx_act list \<Rightarrow> rxlink \<Rightarrow> bool" where
  Advertised: "processResourceAdvertisement um h mr st ac admit now plaintext l = (l', acts, e) \<Longrightarrow> rx_step l acts l'"
| Planned: "rl_rx l = Some x \<Longrightarrow> plan_request now x = (x', Request i body idxs ex)
    \<Longrightarrow> rx_step l [SendReq body] (l\<lparr> rl_rx := Some x' \<rparr>)"
| Unsent: "rx_step l [] (undo_request now i idxs ex l)"
| Prefetch: "sendIncomingResourceHMUPrefetch now sent l = (l', acts, e) \<Longrightarrow> rx_step l acts l'"
| Watchdog: "tickIncomingResourceWatchdog i now sent l = (b, l', acts) \<Longrightarrow> rx_step l acts l'"
| Update: "handleResourceHashmapUpdate unlist now plaintext l = (l', acts, e) \<Longrightarrow> rx_step l acts l'"
| Part: "appendIncomingResourcePart H dec unbz unpackmeta sent now data l = Some (l', acts, e) \<Longrightarrow> rx_step l acts l'"
| Cancelled: "handleResourceCancel plaintext l = (l', acts) \<Longrightarrow> rx_step l acts l'"
| Timeout: "timeout_round now i unbound l = (go, l', acts) \<Longrightarrow> rx_step l acts l'"
| Receipts: "rx_step l [] (l\<lparr> rl_reqs := q \<rparr>)"

inductive rx_run :: "rxlink \<Rightarrow> rx_act list \<Rightarrow> rxlink \<Rightarrow> bool" where
  Start: "rx_run l [] l"
| Event: "rx_run l out l' \<Longrightarrow> rx_step l' acts l'' \<Longrightarrow> rx_run l (out @ acts) l''"

lemma deliver_fits: "deliverIncomingResource H dec unbz um sent inner x = Some (acts, d) \<Longrightarrow> fits acts"
  by (auto simp: deliverIncomingResource_def Let_def split: option.splits sum.splits if_splits prod.splits)

lemma rx_step_wf: "rx_step l acts l' \<Longrightarrow> rxlink_wf l \<Longrightarrow> rxlink_wf l' \<and> fits acts"
proof (induction rule: rx_step.induct)
  case (Advertised um h mr st ac admit now plaintext l l' acts e)
  then show ?case using advertisement_wf by blast
next
  case (Planned l x now x' i body idxs ex)
  then show ?case using plan_step_wf by fastforce
next
  case (Unsent l now i idxs ex)
  then show ?case using undo_request_wf by simp
next
  case (Prefetch now sent l l' acts e)
  then show ?case using prefetch_wf by blast
next
  case (Watchdog i now sent l b l' acts)
  then show ?case using tick_wf by blast
next
  case (Update unlist now plaintext l l' acts e)
  then show ?case using update_wf by (auto simp: handleResourceHashmapUpdate_def split: if_splits option.splits any.splits)
next
  case (Part H dec unbz unpackmeta sent now data l l' acts e)
  obtain l1 as res where a: "accept_part H now data l = (l1, as, res)" by (metis prod_cases3)
  then show ?case using Part accept_part_wf [OF Part(2) a]
    by (auto simp: appendIncomingResourcePart_def split: part_result.splits option.splits dest: deliver_fits)
next
  case (Cancelled plaintext l l' acts)
  then show ?case using reset_wf fits_reset by (auto simp: handleResourceCancel_def split: prod.splits if_splits) 
next
  case (Timeout now i unbound l go l' acts)
  then show ?case using abort_wf by (auto simp: timeout_round_def Let_def split: prod.splits if_splits option.splits)
qed simp

lemma run_wf_fits: "rx_run l0 out l \<Longrightarrow> rl_rx l0 = None \<Longrightarrow> rl_lastWindow l0 = 0 \<Longrightarrow> rxlink_wf l \<and> fits out"
proof (induction rule: rx_run.induct)
  case (Event l0 out l' acts l'')
  then show ?case using rx_step_wf by auto
qed (simp add: rxlink_wf_def)

lemmas run_wf = run_wf_fits [THEN conjunct1]
lemmas run_fits = run_wf_fits [THEN conjunct2]


section \<open>A transfer without progress ends\<close>

text \<open>\<open>watchIncomingResource\<close>: the ticks in order until one ends the loop.\<close>

fun watchIncomingResource :: "nat \<Rightarrow> (int \<times> bool) list \<Rightarrow> rxlink \<Rightarrow> bool \<times> rxlink \<times> rx_act list" where
  "watchIncomingResource i [] l = (True, l, [])"
| "watchIncomingResource i ((now, sent) # ticks) l =
     (case tickIncomingResourceWatchdog i now sent l of
        (False, l1, acts) \<Rightarrow> (False, l1, acts)
      | (True, l1, acts) \<Rightarrow> (case watchIncomingResource i ticks l1 of (b, l2, acts') \<Rightarrow> (b, l2, acts @ acts')))"

lemma req_scan_nonempty:
  "rx_partSlots x ! p = None \<Longrightarrow> \<not> rx_inflight x ! p \<Longrightarrow> \<not> rx_waitingForHmu x \<Longrightarrow>
     req_scan x slots (p # ps) [] [] = (hs, idxs, ex) \<Longrightarrow> idxs \<noteq> [] \<or> ex"
proof -
  assume a: "rx_partSlots x ! p = None" "\<not> rx_inflight x ! p" "\<not> rx_waitingForHmu x" "req_scan x slots (p # ps) [] [] = (hs, idxs, ex)"
  have "set is \<subseteq> set idxs'" if "req_scan x slots qs h is = (hs', idxs', ex')" for qs h "is" hs' idxs' ex'
    using that by (induction x slots qs h "is" rule: req_scan.induct) (auto simp: Let_def split: if_splits option.splits)
  from this [of ps "the (rx_mapHashes x ! p)" "[p]" hs idxs ex] show ?thesis
    using a by (auto simp: Let_def split: if_splits option.splits)
qed

text \<open>With nothing reserved and a part missing, the next request is made or fails; it is never skipped.\<close>

lemma plan_not_idle:
  assumes "rx_wf x" "None \<in> set (rx_partSlots x)" "rx_outstandingParts x = 0" "\<not> rx_waitingForHmu x" "True \<notin> set (rx_inflight x)"
  shows "snd (plan_request now x) \<noteq> NoRequest"
proof -
  have s: "slots_wf x" and w: "window_wf x" using assms(1) by (auto simp: rx_wf_def)
  have len: "length (rx_partSlots x) = rx_totalParts x" "length (rx_inflight x) = rx_totalParts x" using s by (auto simp: slots_wf_def)
  have "search_start x \<noteq> rx_totalParts x" using assms(2) s prefix_len_full [of "rx_partSlots x"]
    by (auto simp: search_start_prefix slots_wf_def)
  then have st: "search_start x < rx_totalParts x" using s prefix_len_le [of "rx_partSlots x"] by (simp add: search_start_prefix len)
  have m: "rx_partSlots x ! search_start x = None"
    using st s prefix_len_stop [of "rx_partSlots x"] by (auto simp: search_start_prefix slots_wf_def)
  have f: "\<not> rx_inflight x ! search_start x" using assms(5) st len by (metis nth_mem)
  have win: "2 \<le> rx_window x" using window_range [OF w] by simp
  define en where "en = min (search_start x + nat (rx_window x * 2)) (rx_totalParts x)"
  have up: "[search_start x..<en] = search_start x # [Suc (search_start x)..<en]" using st win by (simp add: en_def upt_conv_Cons)
  obtain hs idxs ex where sc: "req_scan x (rx_window x) [search_start x..<en] [] [] = (hs, idxs, ex)" by (metis prod_cases3)
  have ne: "idxs \<noteq> [] \<or> ex" using req_scan_nonempty [OF m f assms(4)] sc unfolding up by blast
  have sp: "set idxs \<subseteq> set [search_start x..<en] \<and> (\<forall>i \<in> set idxs. rx_mapHashes x ! i \<noteq> None) \<and> hs = concat (map (\<lambda>i. the (rx_mapHashes x ! i)) idxs)"
    using req_scan_spec [OF sc] win by auto
  have "length (requested_hashes x idxs) = 4 * length idxs"
    using sp by (intro requested_hashes_length [OF s]) (auto simp: en_def)
  then have "length hs = 4 * length idxs" using sp by (simp add: requested_hashes_def)
  then have nz: "\<not> (length hs = 0 \<and> \<not> ex)" using ne by auto
  show ?thesis
    using st win assms(3) nz unfolding plan_request_def Let_def eff_window_wf [OF w]
    by (auto simp: sc en_def [symmetric] split: option.splits)
qed

lemma fail_closes: "\<not> open_status (q_status (qs_receipt (failPendingRequest i s) i))"
  by (auto simp: failPendingRequest_def Let_def signalDone_def open_status_def link_status_defs)

lemma reset_ends:
  assumes "resetIncomingResource l = (l', acts)" "rl_rx l = Some x"
  shows "rl_rx l' = None \<and> (\<forall>q. rx_request x = Some q \<longrightarrow> \<not> open_status (q_status (qs_receipt (rl_reqs l') q)))"
  using assms fail_closes by (auto simp: resetIncomingResource_def clearIncomingResourceLocked_def fail_bound_def split: option.split)

lemma stall_simps [simp]:
  "rx_id (stall_rx now x) = rx_id x" "rx_adv (stall_rx now x) = rx_adv x" "rx_totalParts (stall_rx now x) = rx_totalParts x"
  "rx_partSlots (stall_rx now x) = rx_partSlots x" "rx_request (stall_rx now x) = rx_request x"
  "rx_lastProgressAt (stall_rx now x) = rx_lastProgressAt x" "rx_outstandingParts (stall_rx now x) = 0"
  "\<not> rx_waitingForHmu (stall_rx now x)" "True \<notin> set (rx_inflight (stall_rx now x))"
  "rx_consecutiveStalls (stall_rx now x) = rx_consecutiveStalls x + 1"
  by (auto simp: stall_rx_def Let_def)

lemma planned_same: 
  "planned now x idxs ex body x' \<Longrightarrow> rx_partSlots x' = rx_partSlots x \<and> rx_request x' = rx_request x
     \<and> rx_lastProgressAt x' = rx_lastProgressAt x \<and> rx_consecutiveStalls x' = rx_consecutiveStalls x
     \<and> rx_outstandingParts x' = rx_outstandingParts x + int (length idxs) \<and> (ex \<longrightarrow> rx_waitingForHmu x') \<and> (ex \<or> idxs \<noteq> [])"
  by (auto simp: planned_def split: if_splits)

text \<open>One tick on a stalled transfer: it ends, or the next request is out and one more stall is counted.\<close>

lemma stalled_tick:
  assumes "rxlink_wf l" "rl_rx l = Some x" "None \<in> set (rx_partSlots x)" "rx_outstandingParts x \<noteq> 0 \<or> rx_waitingForHmu x"
    and "incomingResourceStallGrace \<le> now - rx_lastProgressAt x"
    and "tickIncomingResourceWatchdog (rx_id x) now sent l = (b, l', acts)"
  shows "if b
    then rxlink_wf l' \<and> rx_consecutiveStalls x < 15
       \<and> (\<exists>x' body. acts = [SendReq body] \<and> rl_rx l' = Some x' \<and> rx_id x' = rx_id x \<and> rx_partSlots x' = rx_partSlots x
           \<and> (rx_outstandingParts x' \<noteq> 0 \<or> rx_waitingForHmu x')
           \<and> rx_lastProgressAt x' = rx_lastProgressAt x \<and> rx_request x' = rx_request x
           \<and> rx_consecutiveStalls x' = rx_consecutiveStalls x + 1)
    else rl_rx l' = None \<and> (\<forall>q. rx_request x = Some q \<longrightarrow> \<not> open_status (q_status (qs_receipt (rl_reqs l') q)))"
proof -
  define y where "y = stall_rx now x"
  define l1 where "l1 = l\<lparr> rl_rx := Some y \<rparr>"
  have y: "rx_wf y" using assms(1,2) stall_wf by (simp add: y_def rxlink_wf_def)
  have l1: "rl_rx l1 = Some y" by (simp add: l1_def)
  have t: "tickIncomingResourceWatchdog (rx_id x) now sent l =
      (if rx_consecutiveStalls y \<ge> incomingResourceMaxStallRetries
       then (let (l2, acts) = resetIncomingResource l1 in (False, l2, acts @ reject_if_active l2 (adv_hash (rx_adv y))))
       else (case sendIncomingResourceReqNext now sent l1 of
               (l2, acts, None) \<Rightarrow> (True, l2, acts)
             | (l2, acts, Some e) \<Rightarrow> (let (l3, acts') = resetIncomingResource l2 in (False, l3, acts @ acts'))))"
    using assms(2,4,5) unfolding tickIncomingResourceWatchdog_def l1_def y_def Let_def by auto
  show ?thesis
  proof (cases "rx_consecutiveStalls y \<ge> incomingResourceMaxStallRetries")
    case True
    then show ?thesis using assms(6) t reset_ends [OF _ l1] by (auto simp: y_def split: prod.splits)
  next
    case False
    obtain x2 plan where p: "plan_request now y = (x2, plan)" by fastforce
    have np: "plan \<noteq> NoRequest" using plan_not_idle [OF y, of now] assms(3) p by (simp add: y_def)
    show ?thesis
    proof (cases "\<exists>i body idxs ex. plan = Request i body idxs ex \<and> sent")
      case True
      then obtain i body idxs ex where r: "plan = Request i body idxs ex" "sent" by blast
      have "planned now y idxs ex body x2" using plan_request_Request [of now y x2 i body idxs ex] p r y by (auto simp: rx_wf_def)
      note s = planned_same [OF this] planned_frame [OF this]
      have e: "b" "acts = [SendReq body]" "l' = l1\<lparr> rl_rx := Some x2 \<rparr>"
        using assms(6) t False l1 p r by (auto simp: sendIncomingResourceReqNext_def Let_def)
      have "rxlink_wf l'" using tick_wf [OF assms(1,6)] by simp
      then show ?thesis using e s False by (auto simp: y_def stall_consts)
    next
      case nr: False
      obtain l2 as e where sn: "sendIncomingResourceReqNext now sent l1 = (l2, as, Some e)" "\<exists>x3. rl_rx l2 = Some x3 \<and> rx_request x3 = rx_request x"
      proof (cases plan)
        case (Request i body idxs ex)
        have "planned now y idxs ex body x2" using plan_request_Request [of now y x2 i body idxs ex] p Request y by (auto simp: rx_wf_def)
        note s = planned_same [OF this]
        show ?thesis using nr Request l1 p s that by (fastforce simp: sendIncomingResourceReqNext_def undo_request_def Let_def y_def)
      qed (use np l1 p that in \<open>auto simp: sendIncomingResourceReqNext_def y_def\<close>)
      then show ?thesis using assms(6) t False reset_ends [of l2] by (fastforce split: prod.splits)
    qed
  qed
qed

lemma stalled_watch:
  assumes "rxlink_wf l" "rl_rx l = Some x" "None \<in> set (rx_partSlots x)" "rx_outstandingParts x \<noteq> 0 \<or> rx_waitingForHmu x"
    and "\<And>now sent. (now, sent) \<in> set ticks \<Longrightarrow> incomingResourceStallGrace \<le> now - rx_lastProgressAt x"
    and "ticks \<noteq> []" "16 \<le> rx_consecutiveStalls x + int (length ticks)"
  shows "\<exists>l' acts. watchIncomingResource (rx_id x) ticks l = (False, l', acts) \<and> rl_rx l' = None
    \<and> (\<forall>q. rx_request x = Some q \<longrightarrow> \<not> open_status (q_status (qs_receipt (rl_reqs l') q)))"
  using assms
proof (induction ticks arbitrary: l x)
  case (Cons tk ticks)
  obtain now sent where tk: "tk = (now, sent)" by fastforce
  obtain b l1 acts where t: "tickIncomingResourceWatchdog (rx_id x) now sent l = (b, l1, acts)" by (metis prod_cases3)
  have g: "incomingResourceStallGrace \<le> now - rx_lastProgressAt x" using Cons.prems(5) [of now sent] by (simp add: tk)
  note s = stalled_tick [OF Cons.prems(1-4) g t]
  show ?case
  proof (cases b)
    case True
    then obtain x1 where x1: "rxlink_wf l1" "rx_consecutiveStalls x < 15" "rl_rx l1 = Some x1" "rx_id x1 = rx_id x" "rx_partSlots x1 = rx_partSlots x"
      "rx_outstandingParts x1 \<noteq> 0 \<or> rx_waitingForHmu x1" "rx_lastProgressAt x1 = rx_lastProgressAt x" "rx_request x1 = rx_request x"
      "rx_consecutiveStalls x1 = rx_consecutiveStalls x + 1" using s by auto
    have "\<exists>l' acts. watchIncomingResource (rx_id x1) ticks l1 = (False, l', acts) \<and> rl_rx l' = None
      \<and> (\<forall>q. rx_request x1 = Some q \<longrightarrow> \<not> open_status (q_status (qs_receipt (rl_reqs l') q)))"
      using Cons.prems x1 by (intro Cons.IH) auto
    then show ?thesis using True t x1(4,8) by (auto simp: tk)
  qed (use s t in \<open>auto simp: tk\<close>)
qed simp


section \<open>A concrete transfer\<close>

definition sample_unmarshal :: "bytes \<Rightarrow> dict option" where
  "sample_unmarshal _ = Some [(''t'', AInt KUint8 8), (''d'', AInt KUint8 4), (''n'', AInt KUint8 2), (''h'', ABytes (replicate 32 7)),
     (''r'', ABytes [1, 2, 3, 4]), (''m'', ABytes [1, 1, 1, 1, 2, 2, 2, 2]), (''f'', AInt KUint8 0)]"

definition sample_link :: rxlink where
  "sample_link = \<lparr> rl_rx = None, rl_next = 0, rl_lastWindow = 0, rl_active = True, rl_reqs = sample_requests, rl_mtu = 500, rl_mdu = 431 \<rparr>"

definition sample_adv :: resource_adv where
  "sample_adv = \<lparr> a_TransferSize = 8, a_DataSize = 4, a_Parts = 2, a_Hash = Some (replicate 32 7), a_RandomHash = Some [1, 2, 3, 4],
     a_OriginalHash = None, a_Hashmap = Some [1, 1, 1, 1, 2, 2, 2, 2], a_Compressed = False, a_Encrypted = False, a_Split = False,
     a_HasMetadata = False, a_SegmentIndex = 0, a_TotalSegments = 0, a_RequestID = None, a_IsRequest = False,
     a_IsResponse = False, a_Flags = 0 \<rparr>"

definition sample_rx :: rx where
  "sample_rx = (new_rx 0 sample_adv 464 74 0)
     \<lparr> rx_mapHashes := [Some [1, 1, 1, 1], Some [2, 2, 2, 2]], rx_hashmapHeight := 2, rx_window := 10,
       rx_hashIndex := (\<lambda>_. [])([1, 1, 1, 1] := [0], [2, 2, 2, 2] := [1]) \<rparr>"

lemma sample_unpack: "UnpackResourceAdvertisement sample_unmarshal [] = Inr sample_adv"
  by (simp add: UnpackResourceAdvertisement_def sample_unmarshal_def adv_of_dict_def adv_int64_def adv_parts_def adv_bytes_def
      adv_hash_bad_def adv_flags_def adv_u16_def Let_def adv_flag_defs wireFlagsFromAny_def coerceUint16_def sample_adv_def MaxEfficientSize_def)

lemma sample_segment:
  "(snd (applyHashmapSegment 0 (adv_map sample_adv) (new_rx 0 sample_adv 464 74 0)))\<lparr> rx_window := 10 \<rparr> = sample_rx"
  by (simp add: applyHashmapSegment_def Let_def new_rx_def adv_map_def sample_adv_def MapHashLen_def apply_hashes_step math_consts
      put_hash_def indexMapHash_def sample_rx_def numeral_2_eq_2)

lemma sample_segment_id: "rx_id (snd (applyHashmapSegment 0 (adv_map sample_adv) (new_rx 0 sample_adv 464 74 0))) = 0"
  using arg_cong [OF sample_segment, of rx_id] by (simp add: sample_rx_def) (simp add: new_rx_def Let_def)

lemma sample_begun_eq:
  "processResourceAdvertisement sample_unmarshal False None AcceptAll None True 0 [] sample_link
     = (sample_link\<lparr> rl_rx := Some sample_rx, rl_next := 1 \<rparr>, [SpawnWatch 0, SpawnReqNext], None)"
proof -
  have "beginIncomingResource True 0 sample_adv sample_link = (sample_link\<lparr> rl_rx := Some sample_rx, rl_next := 1 \<rparr>, [SpawnWatch 0, SpawnReqNext], None)"
    using sample_segment sample_segment_id
    by (simp add: beginIncomingResource_def Let_def resourceSDU_def sample_link_def begin_refused_def sample_adv_def fail_bound_def
        HashmapEntriesPerSegment_def Overhead_def MapHashLen_def startIncomingWindow_def window_consts MaxEfficientSize_def MaxSegments_def adv_map_def)
  then show ?thesis
    by (simp add: processResourceAdvertisement_def sample_unpack Let_def AcceptAll_def AcceptNone_def sample_adv_def)
qed

lemma sample_plan:
  "plan_request 0 sample_rx = (sample_rx\<lparr> rx_inflight := [True, True], rx_outstandingParts := 2, rx_reqRounds := 1 \<rparr>,
     Request 0 (0 # replicate 32 7 @ [1, 1, 1, 1, 2, 2, 2, 2]) [0, 1] False)"
  by (simp add: plan_request_def Let_def sample_rx_def new_rx_def sample_adv_def search_start_def eff_window_def set_inflight_def
      hashmapNotExhausted_def adv_hash_def numeral_2_eq_2 upt_rec)

abbreviation sample_asked :: rx where
  "sample_asked \<equiv> sample_rx\<lparr> rx_inflight := [True, True], rx_outstandingParts := 2, rx_reqRounds := 1 \<rparr>"

definition sample_waiting :: rxlink where
  "sample_waiting = sample_link\<lparr> rl_next := 1, rl_rx := Some sample_asked \<rparr>"

lemma sample_run: "rx_run sample_link ([SpawnWatch 0, SpawnReqNext] @ [SendReq (0 # replicate 32 7 @ [1, 1, 1, 1, 2, 2, 2, 2])]) sample_waiting"
proof -
  have x: "rl_rx (sample_link\<lparr> rl_rx := Some sample_rx, rl_next := 1 \<rparr>) = Some sample_rx" by simp
  have "rx_step sample_link [SpawnWatch 0, SpawnReqNext] (sample_link\<lparr> rl_rx := Some sample_rx, rl_next := 1 \<rparr>)"
    by (rule rx_step.Advertised [OF sample_begun_eq])
  from rx_run.Event [OF rx_run.Event [OF rx_run.Start this] rx_step.Planned [OF x sample_plan]]
  show ?thesis by (simp add: sample_waiting_def)
qed

lemma sample_state:
  "rx_partSlots sample_asked = [None, None]" "rx_lastProgressAt sample_asked = 0" "rx_id sample_asked = 0"
  "rl_rx sample_waiting = Some sample_asked" "rl_rx sample_link = None" "rl_lastWindow sample_link = 0"
  by (simp_all add: sample_rx_def new_rx_def Let_def numeral_2_eq_2 sample_adv_def sample_waiting_def sample_link_def)



end
