(* ===== verification/Spec2Isabelle.thy ===== *)
theory Spec2Isabelle
  imports Wire_Rewrite HDLC Backbone_HDLC KISS Hashlist Channel_State IFAC Session_Crypto Identity Known_Destinations Inbound Inbound_Queues Resource_Events
begin

text \<open>
  Verification of Reticulum-Go. The plan of the development: packet codec and header rewriting,
  stream framing, duplicate filtering, channels and buffers, cryptographic framing, rate control,
  relay tables and the relay operations of the transport, resources and announces.
\<close>

end
